theory Spec2Isabelle
  imports Main "HOL-Library.Word" "HOL-Library.Monad_Syntax"
begin

unbundle bit_operations_syntax

section \<open>Adaptive radix trie: the internal nodes of art_nodes.h\<close>

text \<open>
  The embedding follows \<^verbatim>\<open>include/art/detail/art_nodes.h\<close>. Nodes live in an explicit
  store (a map from addresses to node objects), because every mutating member function
  also writes the parent back-reference of other nodes (\<^verbatim>\<open>reparent\<close>). A member function
  takes the store and the address of \<^verbatim>\<open>this\<close> and returns the new store. The result
  is an \<open>option\<close>: \<open>None\<close> stands for every way the C++ leaves defined behaviour
  or aborts: a failed \<^verbatim>\<open>assert\<close>, \<^verbatim>\<open>ART_DETAIL_CANNOT_HAPPEN\<close>, an array access out of
  range, or a dereference of an address that holds no node of the expected class.
\<close>

subsection \<open>Tagged pointers and iterators\<close>

type_synonym u8 = "8 word"
type_synonym u32 = "32 word"
type_synonym addr = nat

text \<open>
  Modelled from the spec: \<^verbatim>\<open>art_node_base.h\<close> (the enumeration \<^verbatim>\<open>node_type\<close> and the
  tagged pointer \<^verbatim>\<open>node_ptr\<close>) is not part of the sources at hand. The tag is one of
  Leaf, I4, I16, I48, I256 and is carried in the low bits of the pointer word; a
  value-initialised pointer \<^verbatim>\<open>node_ptr{}\<close> is the zero word, whose tag bits read as the
  first enumerator.
\<close>

datatype node_type = LEAF | I4 | I16 | I48 | I256

datatype node_ptr = NodePtr (get: addr) (tag: node_type)

definition create :: "addr \<Rightarrow> node_type \<Rightarrow> node_ptr" where
  "create a t = NodePtr a t"

definition nullptr :: node_ptr where
  "nullptr = NodePtr 0 LEAF"

text \<open>
  Modelled from the spec: the iterator of the container (\<^verbatim>\<open>Db::const_iterator\<close>) is the
  triple (node, index in parent, parent); the default-constructed iterator is the empty
  one, and the two-argument constructor leaves the parent null.
\<close>

datatype iterator = Iterator (node: node_ptr) (index: u8) (parent: node_ptr)

definition empty_iterator :: iterator where
  "empty_iterator = Iterator nullptr 0 nullptr"

definition iterator2 :: "node_ptr \<Rightarrow> u8 \<Rightarrow> iterator" where
  "iterator2 p i = Iterator p i nullptr"

subsection \<open>Node objects and the store\<close>

text \<open>
  \<^verbatim>\<open>basic_inode_impl\<close>: the fields every internal node has (\<open>parent_ptr\<close> is the field
  \<^verbatim>\<open>parent_\<close>, a name Isabelle does not take). The prefix is the byte
  sequence kept by the key class of the container.
\<close>

record inode_impl =
  prefix :: "u8 list"
  parent_ptr :: node_ptr
  pos_in_parent :: u8
  children_count :: u8

record inode4 = inode_impl +
  keys4 :: "u8 list"
  children4 :: "node_ptr list"

record inode16 = inode_impl +
  keys16 :: "u8 list"
  children16 :: "node_ptr list"

record inode48 = inode_impl +
  child_indices :: "u8 list"
  children48 :: "node_ptr list"

record inode256 = inode_impl +
  children256 :: "node_ptr list"

datatype inode = Node4 inode4 | Node16 inode16 | Node48 inode48 | Node256 inode256

type_synonym store = "addr \<Rightarrow> inode option"

definition assert_that :: "bool \<Rightarrow> unit option" where
  "assert_that c = (if c then Some () else None)"

definition get4 :: "store \<Rightarrow> addr \<Rightarrow> inode4 option" where
  "get4 h a = (case h a of Some (Node4 n) \<Rightarrow> Some n | _ \<Rightarrow> None)"

definition get16 :: "store \<Rightarrow> addr \<Rightarrow> inode16 option" where
  "get16 h a = (case h a of Some (Node16 n) \<Rightarrow> Some n | _ \<Rightarrow> None)"

definition get48 :: "store \<Rightarrow> addr \<Rightarrow> inode48 option" where
  "get48 h a = (case h a of Some (Node48 n) \<Rightarrow> Some n | _ \<Rightarrow> None)"

definition get256 :: "store \<Rightarrow> addr \<Rightarrow> inode256 option" where
  "get256 h a = (case h a of Some (Node256 n) \<Rightarrow> Some n | _ \<Rightarrow> None)"

text \<open>\<^verbatim>\<open>num_children\<close>: the one-byte counter, where 0 stands for 256.\<close>

definition num_children :: "'a inode_impl_scheme \<Rightarrow> nat" where
  "num_children n = (if children_count n \<noteq> 0 then unat (children_count n) else 256)"

text \<open>
  \<^verbatim>\<open>assign_parent\<close> writes the two back-reference fields through a pointer to the common
  base class, whatever the class of the node.
\<close>

definition assign_parent_impl :: "node_ptr \<Rightarrow> u8 \<Rightarrow> 'a inode_impl_scheme \<Rightarrow> 'a inode_impl_scheme" where
  "assign_parent_impl p i n = n\<lparr>parent_ptr := p, pos_in_parent := i\<rparr>"

fun assign_parent :: "node_ptr \<Rightarrow> u8 \<Rightarrow> inode \<Rightarrow> inode" where
  "assign_parent p i (Node4 n) = Node4 (assign_parent_impl p i n)"
| "assign_parent p i (Node16 n) = Node16 (assign_parent_impl p i n)"
| "assign_parent p i (Node48 n) = Node48 (assign_parent_impl p i n)"
| "assign_parent p i (Node256 n) = Node256 (assign_parent_impl p i n)"

text \<open>
  \<^verbatim>\<open>basic_inode::reparent\<close>, called on the node \<open>self\<close> (\<^verbatim>\<open>tagged_self()\<close>): nothing
  for a leaf, else the child's back-reference is set.
\<close>

definition reparent :: "store \<Rightarrow> node_ptr \<Rightarrow> node_ptr \<Rightarrow> u8 \<Rightarrow> store option" where
  "reparent h self child i =
     (if tag child \<noteq> LEAF then
        (case h (get child) of
           None \<Rightarrow> None
         | Some c \<Rightarrow> Some (h(get child \<mapsto> assign_parent self i c)))
      else Some h)"

text \<open>
  Modelled from the spec: the prefix belongs to the key class of the container
  (\<^verbatim>\<open>bitwise_key\<close>), which is not part of the sources at hand. \<^verbatim>\<open>shift_left\<close> with a
  byte prepends the byte to the prefix, \<^verbatim>\<open>shift_left\<close> with a prefix prepends that
  prefix.
\<close>

fun map_prefix :: "(u8 list \<Rightarrow> u8 list) \<Rightarrow> inode \<Rightarrow> inode" where
  "map_prefix f (Node4 n) = Node4 (n\<lparr>prefix := f (prefix n)\<rparr>)"
| "map_prefix f (Node16 n) = Node16 (n\<lparr>prefix := f (prefix n)\<rparr>)"
| "map_prefix f (Node48 n) = Node48 (n\<lparr>prefix := f (prefix n)\<rparr>)"
| "map_prefix f (Node256 n) = Node256 (n\<lparr>prefix := f (prefix n)\<rparr>)"

definition shift_left_byte :: "store \<Rightarrow> addr \<Rightarrow> u8 \<Rightarrow> store option" where
  "shift_left_byte h a b =
     (case h a of None \<Rightarrow> None | Some c \<Rightarrow> Some (h(a \<mapsto> map_prefix (\<lambda>p. b # p) c)))"

definition shift_left_prefix :: "store \<Rightarrow> addr \<Rightarrow> u8 list \<Rightarrow> store option" where
  "shift_left_prefix h a q =
     (case h a of None \<Rightarrow> None | Some c \<Rightarrow> Some (h(a \<mapsto> map_prefix (\<lambda>p. q @ p) c)))"

text \<open>The fields of the common base class, read through a pointer to any node.\<close>

fun node_prefix :: "inode \<Rightarrow> u8 list" where
  "node_prefix (Node4 n) = prefix n"
| "node_prefix (Node16 n) = prefix n"
| "node_prefix (Node48 n) = prefix n"
| "node_prefix (Node256 n) = prefix n"

fun node_parent :: "inode \<Rightarrow> node_ptr" where
  "node_parent (Node4 n) = parent_ptr n"
| "node_parent (Node16 n) = parent_ptr n"
| "node_parent (Node48 n) = parent_ptr n"
| "node_parent (Node256 n) = parent_ptr n"

fun node_pos_in_parent :: "inode \<Rightarrow> u8" where
  "node_pos_in_parent (Node4 n) = pos_in_parent n"
| "node_pos_in_parent (Node16 n) = pos_in_parent n"
| "node_pos_in_parent (Node48 n) = pos_in_parent n"
| "node_pos_in_parent (Node256 n) = pos_in_parent n"

fun node_children_count :: "inode \<Rightarrow> u8" where
  "node_children_count (Node4 n) = children_count n"
| "node_children_count (Node16 n) = children_count n"
| "node_children_count (Node48 n) = children_count n"
| "node_children_count (Node256 n) = children_count n"

subsection \<open>The SSE2 operations the nodes use\<close>

text \<open>
  A 128-bit register is the list of its 16 bytes, lowest first. \<^verbatim>\<open>Node16::find_child\<close>
  does not compile without SSE2 (\<^verbatim>\<open>#error Needs porting\<close>), so the SSE2 branches are
  the code of every build, and they are the ones modelled. The key array of a Node4
  shares its storage with a 32-bit integer, byte 0 lowest (the byte order of the
  processors that have SSE2).
\<close>

definition mm_set1_epi8 :: "u8 \<Rightarrow> u8 list" where
  "mm_set1_epi8 b = replicate 16 b"

definition keys_integer :: "u8 list \<Rightarrow> u32" where
  "keys_integer ks = ucast (ks ! 0) OR push_bit 8 (ucast (ks ! 1)) OR
                     push_bit 16 (ucast (ks ! 2)) OR push_bit 24 (ucast (ks ! 3))"

definition integer_bytes :: "u32 \<Rightarrow> u8 list" where
  "integer_bytes w = [ucast w, ucast (drop_bit 8 w), ucast (drop_bit 16 w), ucast (drop_bit 24 w)]"

definition mm_cvtsi32_si128 :: "u32 \<Rightarrow> u8 list" where
  "mm_cvtsi32_si128 w = integer_bytes w @ replicate 12 0"

definition mm_cmpeq_epi8 :: "u8 list \<Rightarrow> u8 list \<Rightarrow> u8 list" where
  "mm_cmpeq_epi8 x y = map2 (\<lambda>a b. if a = b then 0xFF else 0) x y"

definition mm_max_epu8 :: "u8 list \<Rightarrow> u8 list \<Rightarrow> u8 list" where
  "mm_max_epu8 x y = map2 max x y"

definition mm_cmple_epu8 :: "u8 list \<Rightarrow> u8 list \<Rightarrow> u8 list" where
  "mm_cmple_epu8 x y = mm_cmpeq_epi8 (mm_max_epu8 y x) y"

fun mm_movemask_epi8 :: "u8 list \<Rightarrow> u32" where
  "mm_movemask_epi8 [] = 0"
| "mm_movemask_epi8 (b # bs) = (if bit b 7 then 1 else 0) OR push_bit 1 (mm_movemask_epi8 bs)"

text \<open>
  \<^verbatim>\<open>__builtin_ctz\<close>: the index of the lowest set bit. The code calls it on a nonzero
  argument only (it is undefined at 0, where this definition gives 32).
\<close>

definition builtin_ctz :: "u32 \<Rightarrow> nat" where
  "builtin_ctz w = (case find (bit w) [0..<32] of Some i \<Rightarrow> i | None \<Rightarrow> 32)"

text \<open>\<^verbatim>\<open>std::is_sorted\<close> (non-decreasing, bytes compared unsigned) and \<^verbatim>\<open>std::adjacent_find\<close>
  (the index of the first element equal to its successor, the length if there is none).\<close>

definition is_sorted :: "u8 list \<Rightarrow> bool" where
  "is_sorted ks = sorted ks"

fun adjacent_find :: "u8 list \<Rightarrow> nat" where
  "adjacent_find (x # y # zs) = (if x = y then 0 else Suc (adjacent_find (y # zs)))"
| "adjacent_find [x] = 1"
| "adjacent_find [] = 0"

text \<open>
  \<^verbatim>\<open>std::copy_backward(first, last, d_last)\<close> inside one array: the elements are copied
  from the last to the first, each read when its turn comes.
\<close>

fun copy_backward :: "'a list \<Rightarrow> nat \<Rightarrow> nat \<Rightarrow> nat \<Rightarrow> 'a list" where
  "copy_backward xs first1 last1 d_last =
     (if first1 < last1
      then copy_backward (xs[d_last - 1 := xs ! (last1 - 1)]) first1 (last1 - 1) (d_last - 1)
      else xs)"

declare copy_backward.simps [simp del]

text \<open>\<^verbatim>\<open>std::fill\<close> over the positions from \<open>first1\<close> up to \<open>last1\<close> of an array.\<close>

definition fill :: "'a list \<Rightarrow> nat \<Rightarrow> nat \<Rightarrow> 'a \<Rightarrow> 'a list" where
  "fill xs first1 last1 v = take first1 xs @ replicate (last1 - first1) v @ drop last1 xs"

subsection \<open>Node4\<close>

definition min_size4 :: nat where "min_size4 = 2"
definition capacity4 :: nat where "capacity4 = 4"

definition is_full4 :: "inode4 \<Rightarrow> bool" where
  "is_full4 n \<longleftrightarrow> unat (children_count n) = capacity4"

definition is_min_size4 :: "inode4 \<Rightarrow> bool" where
  "is_min_size4 n \<longleftrightarrow> unat (children_count n) = min_size4"

definition tagged_self4 :: "addr \<Rightarrow> node_ptr" where
  "tagged_self4 self = create self I4"

text \<open>
  The constructor \<^verbatim>\<open>basic_inode(bitwise_key key)\<close>: the counter starts at
  \<^verbatim>\<open>min_size\<close>, the back-reference is value-initialised, and the arrays are not
  initialised: \<open>ks\<close> and \<open>cs\<close> stand for whatever the memory holds.
\<close>

definition inode4_new :: "u8 list \<Rightarrow> u8 list \<Rightarrow> node_ptr list \<Rightarrow> inode4" where
  "inode4_new key ks cs =
     \<lparr>prefix = key, parent_ptr = nullptr, pos_in_parent = 0, children_count = of_nat min_size4,
      keys4 = ks, children4 = cs\<rparr>"

text \<open>The shift loop of \<^verbatim>\<open>add\<close>: \<open>for (i = children_count; i > insert_pos_index; --i)\<close>.\<close>

fun add4_shift :: "store \<Rightarrow> addr \<Rightarrow> nat \<Rightarrow> nat \<Rightarrow> store option" where
  "add4_shift h self i insert_pos_index =
     (if i > insert_pos_index then
        (if \<not> i < capacity4 then None
         else do {
           n \<leftarrow> get4 h self;
           let n1 = n\<lparr>keys4 := (keys4 n)[i := keys4 n ! (i - 1)]\<rparr>;
           let n2 = n1\<lparr>children4 := (children4 n1)[i := children4 n1 ! (i - 1)]\<rparr>;
           h' \<leftarrow> reparent (h(self \<mapsto> Node4 n2)) (tagged_self4 self) (children4 n2 ! (i - 1)) (of_nat i);
           add4_shift h' self (i - 1) insert_pos_index
         })
      else Some h)"

declare add4_shift.simps [simp del]

definition add4 :: "store \<Rightarrow> addr \<Rightarrow> addr \<Rightarrow> u8 \<Rightarrow> (store \<times> iterator) option" where
  "add4 h self child key_byte = do {
     n \<leftarrow> get4 h self;
     let cc = children_count n;
     _ \<leftarrow> assert_that (is_sorted (take (unat cc) (keys4 n)));
     let first_lt = (if keys_integer (keys4 n) AND 0xFF < ucast key_byte then 1 else 0 :: nat);
     let second_lt =
       (if drop_bit 8 (keys_integer (keys4 n)) AND 0xFF < ucast key_byte then 1 else 0 :: nat);
     let third_lt =
       (if cc = 3 \<and> drop_bit 16 (keys_integer (keys4 n)) AND 0xFF < ucast key_byte
        then 1 else 0 :: nat);
     let insert_pos_index = first_lt + second_lt + third_lt;
     h1 \<leftarrow> add4_shift h self (unat cc) insert_pos_index;
     n1 \<leftarrow> get4 h1 self;
     let n2 = n1\<lparr>keys4 := (keys4 n1)[insert_pos_index := key_byte]\<rparr>;
     let n3 = n2\<lparr>children4 := (children4 n2)[insert_pos_index := create child LEAF]\<rparr>;
     let n4 = n3\<lparr>children_count := cc + 1\<rparr>;
     _ \<leftarrow> assert_that (is_sorted (take (unat (cc + 1)) (keys4 n4)));
     Some (h1(self \<mapsto> Node4 n4),
           Iterator (children4 n4 ! insert_pos_index) (of_nat insert_pos_index) (tagged_self4 self))
   }"

text \<open>
  The loop of \<^verbatim>\<open>remove\<close>: \<open>for (i = child_index; i < children_count - 1; ++i)\<close>, the
  counter read from the node at every turn.
\<close>

function remove4_loop :: "store \<Rightarrow> addr \<Rightarrow> nat \<Rightarrow> store option" where
  "remove4_loop h self i =
     (case get4 h self of
        None \<Rightarrow> None
      | Some n \<Rightarrow>
          if i < unat (children_count n) - 1 then
            (if \<not> i + 1 < capacity4 then None
             else do {
               let n1 = n\<lparr>keys4 := (keys4 n)[i := keys4 n ! (i + 1)]\<rparr>;
               let n2 = n1\<lparr>children4 := (children4 n1)[i := children4 n1 ! (i + 1)]\<rparr>;
               h' \<leftarrow> reparent (h(self \<mapsto> Node4 n2)) (tagged_self4 self) (children4 n2 ! (i + 1)) (of_nat i);
               remove4_loop h' self (i + 1)
             })
          else Some h)"
  by pat_completeness auto
termination
  by (relation "measure (\<lambda>(h, self, i). capacity4 - i)") (auto simp add: capacity4_def)

declare remove4_loop.simps [simp del]

definition remove4 :: "store \<Rightarrow> addr \<Rightarrow> u8 \<Rightarrow> store option" where
  "remove4 h self child_index = do {
     n \<leftarrow> get4 h self;
     let cc = children_count n;
     _ \<leftarrow> assert_that (child_index < cc);
     _ \<leftarrow> assert_that (is_sorted (take (unat cc) (keys4 n)));
     h1 \<leftarrow> remove4_loop h self (unat child_index);
     n1 \<leftarrow> get4 h1 self;
     let n2 = n1\<lparr>children_count := cc - 1\<rparr>;
     _ \<leftarrow> assert_that (is_sorted (take (unat (cc - 1)) (keys4 n2)));
     Some (h1(self \<mapsto> Node4 n2))
   }"

definition leave_last_child :: "store \<Rightarrow> addr \<Rightarrow> u8 \<Rightarrow> (store \<times> node_ptr) option" where
  "leave_last_child h self child_to_delete = do {
     n \<leftarrow> get4 h self;
     _ \<leftarrow> assert_that (is_min_size4 n);
     _ \<leftarrow> assert_that (child_to_delete \<le> 1);
     let child_to_leave = 1 - child_to_delete;
     let child_to_leave_ptr = children4 n ! unat child_to_leave;
     if tag child_to_leave_ptr \<noteq> LEAF then do {
       h1 \<leftarrow> shift_left_byte h (get child_to_leave_ptr) (keys4 n ! unat child_to_leave);
       n' \<leftarrow> get4 h1 self;
       h2 \<leftarrow> shift_left_prefix h1 (get child_to_leave_ptr) (prefix n');
       c \<leftarrow> h2 (get child_to_leave_ptr);
       Some (h2(get child_to_leave_ptr \<mapsto> assign_parent nullptr 0 c), child_to_leave_ptr)
     } else Some (h, child_to_leave_ptr)
   }"

text \<open>\<^verbatim>\<open>find_child\<close>, the SSE2 branch. A shift by 32 or more is undefined.\<close>

definition find_child4 :: "inode4 \<Rightarrow> addr \<Rightarrow> u8 \<Rightarrow> iterator option" where
  "find_child4 n self key_byte = do {
     let replicated_search_key = mm_set1_epi8 key_byte;
     let keys_in_sse_reg = mm_cvtsi32_si128 (keys_integer (keys4 n));
     let matching_key_positions = mm_cmpeq_epi8 replicated_search_key keys_in_sse_reg;
     _ \<leftarrow> assert_that (unat (children_count n) < 32);
     let mask = push_bit (unat (children_count n)) 1 - 1;
     let bit_field = mm_movemask_epi8 matching_key_positions AND mask;
     if bit_field \<noteq> 0 then do {
       let i = builtin_ctz bit_field;
       _ \<leftarrow> assert_that (i < capacity4);
       Some (Iterator (children4 n ! i) (of_nat i) (tagged_self4 self))
     } else Some empty_iterator
   }"

definition leftmost_child4 :: "inode4 \<Rightarrow> addr \<Rightarrow> nat \<Rightarrow> iterator option" where
  "leftmost_child4 n self start =
     (if start < unat (children_count n) then
        (if \<not> start < capacity4 then None
         else Some (Iterator (children4 n ! start) (of_nat start) (tagged_self4 self)))
      else Some empty_iterator)"

definition replace4 :: "store \<Rightarrow> addr \<Rightarrow> iterator \<Rightarrow> node_ptr \<Rightarrow> store option" where
  "replace4 h self pos child = do {
     n \<leftarrow> get4 h self;
     let child_index = index pos;
     _ \<leftarrow> assert_that (unat child_index < capacity4);
     _ \<leftarrow> assert_that (parent pos = tagged_self4 self \<and> node pos = children4 n ! unat child_index);
     let n' = n\<lparr>children4 := (children4 n)[unat child_index := child]\<rparr>;
     reparent (h(self \<mapsto> Node4 n')) (tagged_self4 self) child child_index
   }"

definition add_two_to_empty ::
    "store \<Rightarrow> addr \<Rightarrow> u8 \<Rightarrow> node_ptr \<Rightarrow> u8 \<Rightarrow> addr \<Rightarrow> (store \<times> iterator) option" where
  "add_two_to_empty h self key1 child1 key2 child2 = do {
     n \<leftarrow> get4 h self;
     _ \<leftarrow> assert_that (key1 \<noteq> key2);
     _ \<leftarrow> assert_that (children_count n = 2);
     let key1_i = (if key1 < key2 then 0 else 1 :: u8);
     let key2_i = (if key1_i = 0 then 1 else 0 :: u8);
     let n1 = n\<lparr>keys4 := (keys4 n)[unat key1_i := key1]\<rparr>;
     let n2 = n1\<lparr>children4 := (children4 n1)[unat key1_i := child1]\<rparr>;
     h1 \<leftarrow> reparent (h(self \<mapsto> Node4 n2)) (tagged_self4 self) child1 key1_i;
     n3 \<leftarrow> get4 h1 self;
     let n4 = n3\<lparr>keys4 := (keys4 n3)[unat key2_i := key2]\<rparr>;
     let n5 = n4\<lparr>children4 := (children4 n4)[unat key2_i := create child2 LEAF]\<rparr>;
     let n6 = n5\<lparr>keys4 := (keys4 n5)[2 := 0]\<rparr>;
     let n7 = n6\<lparr>keys4 := (keys4 n6)[3 := 0]\<rparr>;
     _ \<leftarrow> assert_that (is_sorted (take (unat (children_count n7)) (keys4 n7)));
     Some (h1(self \<mapsto> Node4 n7),
           Iterator (children4 n7 ! unat key2_i) key2_i (tagged_self4 self))
   }"

subsection \<open>Node16\<close>

definition empty_child :: u8 where "empty_child = 0xFF"

definition min_size16 :: nat where "min_size16 = 5"
definition capacity16 :: nat where "capacity16 = 16"

definition is_full16 :: "inode16 \<Rightarrow> bool" where
  "is_full16 n \<longleftrightarrow> unat (children_count n) = capacity16"

definition is_min_size16 :: "inode16 \<Rightarrow> bool" where
  "is_min_size16 n \<longleftrightarrow> unat (children_count n) = min_size16"

definition tagged_self16 :: "addr \<Rightarrow> node_ptr" where
  "tagged_self16 self = create self I16"

definition inode16_new :: "u8 list \<Rightarrow> u8 list \<Rightarrow> node_ptr list \<Rightarrow> inode16" where
  "inode16_new key ks cs =
     \<lparr>prefix = key, parent_ptr = nullptr, pos_in_parent = 0, children_count = of_nat min_size16,
      keys16 = ks, children16 = cs\<rparr>"

text \<open>\<^verbatim>\<open>get_sorted_key_array_insert_position\<close>, the SSE2 branch.\<close>

definition get_sorted_key_array_insert_position :: "inode16 \<Rightarrow> u8 \<Rightarrow> u8 option" where
  "get_sorted_key_array_insert_position n key_byte = do {
     let cc = children_count n;
     _ \<leftarrow> assert_that (unat cc < capacity16);
     _ \<leftarrow> assert_that (is_sorted (take (unat cc) (keys16 n)));
     _ \<leftarrow> assert_that (adjacent_find (take (unat cc) (keys16 n)) \<ge> unat cc);
     let replicated_insert_key = mm_set1_epi8 key_byte;
     let lesser_key_positions = mm_cmple_epu8 replicated_insert_key (keys16 n);
     let mask = push_bit (unat cc) 1 - 1;
     let bit_field = mm_movemask_epi8 lesser_key_positions AND mask;
     let result = (if bit_field \<noteq> 0 then of_nat (builtin_ctz bit_field) else cc);
     _ \<leftarrow> assert_that (result = cc \<or> keys16 n ! unat result \<noteq> key_byte);
     Some result
   }"

text \<open>The loop of \<^verbatim>\<open>add\<close>: \<open>for (i = insert_pos_index; i != children_count; ++i)\<close>.\<close>

function add16_reparent :: "store \<Rightarrow> addr \<Rightarrow> nat \<Rightarrow> nat \<Rightarrow> store option" where
  "add16_reparent h self i cc =
     (if i \<noteq> cc then
        (if \<not> i < capacity16 then None
         else do {
           n \<leftarrow> get16 h self;
           h' \<leftarrow> reparent h (tagged_self16 self) (children16 n ! i) (of_nat (i + 1));
           add16_reparent h' self (i + 1) cc
         })
      else Some h)"
  by pat_completeness auto
termination
  by (relation "measure (\<lambda>(h, self, i, cc). capacity16 - i)") (auto simp add: capacity16_def)

declare add16_reparent.simps [simp del]

definition add16 :: "store \<Rightarrow> addr \<Rightarrow> addr \<Rightarrow> u8 \<Rightarrow> (store \<times> iterator) option" where
  "add16 h self child key_byte = do {
     n \<leftarrow> get16 h self;
     let cc = children_count n;
     insert_pos_index \<leftarrow> get_sorted_key_array_insert_position n key_byte;
     h1 \<leftarrow> (if insert_pos_index \<noteq> cc then do {
              _ \<leftarrow> assert_that (keys16 n ! unat insert_pos_index \<noteq> key_byte);
              let n1 = n\<lparr>keys16 := copy_backward (keys16 n) (unat insert_pos_index) (unat cc)
                                      (unat cc + 1)\<rparr>;
              h' \<leftarrow> add16_reparent (h(self \<mapsto> Node16 n1)) self (unat insert_pos_index) (unat cc);
              n2 \<leftarrow> get16 h' self;
              Some (h'(self \<mapsto> Node16 (n2\<lparr>children16 :=
                      copy_backward (children16 n2) (unat insert_pos_index) (unat cc) (unat cc + 1)\<rparr>)))
            } else Some h);
     n3 \<leftarrow> get16 h1 self;
     let n4 = n3\<lparr>keys16 := (keys16 n3)[unat insert_pos_index := key_byte]\<rparr>;
     let n5 = n4\<lparr>children16 := (children16 n4)[unat insert_pos_index := create child LEAF]\<rparr>;
     let n6 = n5\<lparr>children_count := cc + 1\<rparr>;
     _ \<leftarrow> assert_that (is_sorted (take (unat (cc + 1)) (keys16 n6)));
     Some (h1(self \<mapsto> Node16 n6),
           Iterator (children16 n6 ! unat insert_pos_index) insert_pos_index (tagged_self16 self))
   }"

text \<open>The loop of \<^verbatim>\<open>remove\<close>: \<open>for (i = child_index + 1; i < children_count; ++i)\<close>,
  with the local copy of the counter.\<close>

function remove16_loop :: "store \<Rightarrow> addr \<Rightarrow> nat \<Rightarrow> nat \<Rightarrow> store option" where
  "remove16_loop h self i cc =
     (if i < cc then
        (if \<not> i < capacity16 then None
         else do {
           n \<leftarrow> get16 h self;
           let n1 = n\<lparr>keys16 := (keys16 n)[i - 1 := keys16 n ! i]\<rparr>;
           let n2 = n1\<lparr>children16 := (children16 n1)[i - 1 := children16 n1 ! i]\<rparr>;
           h' \<leftarrow> reparent (h(self \<mapsto> Node16 n2)) (tagged_self16 self) (children16 n2 ! i) (of_nat (i - 1));
           remove16_loop h' self (i + 1) cc
         })
      else Some h)"
  by pat_completeness auto
termination
  by (relation "measure (\<lambda>(h, self, i, cc). cc - i)") auto

declare remove16_loop.simps [simp del]

definition remove16 :: "store \<Rightarrow> addr \<Rightarrow> u8 \<Rightarrow> store option" where
  "remove16 h self child_index = do {
     n \<leftarrow> get16 h self;
     let cc = children_count n;
     _ \<leftarrow> assert_that (child_index < cc);
     _ \<leftarrow> assert_that (is_sorted (take (unat cc) (keys16 n)));
     h1 \<leftarrow> remove16_loop h self (unat child_index + 1) (unat cc);
     n1 \<leftarrow> get16 h1 self;
     let n2 = n1\<lparr>children_count := cc - 1\<rparr>;
     _ \<leftarrow> assert_that (is_sorted (take (unat (cc - 1)) (keys16 n2)));
     Some (h1(self \<mapsto> Node16 n2))
   }"

definition find_child16 :: "inode16 \<Rightarrow> addr \<Rightarrow> u8 \<Rightarrow> iterator option" where
  "find_child16 n self key_byte = do {
     let replicated_search_key = mm_set1_epi8 key_byte;
     let matching_key_positions = mm_cmpeq_epi8 replicated_search_key (keys16 n);
     _ \<leftarrow> assert_that (unat (children_count n) < 32);
     let mask = push_bit (unat (children_count n)) 1 - 1;
     let bit_field = mm_movemask_epi8 matching_key_positions AND mask;
     if bit_field \<noteq> 0 then do {
       let i = builtin_ctz bit_field;
       _ \<leftarrow> assert_that (i < capacity16);
       Some (Iterator (children16 n ! i) (of_nat i) (tagged_self16 self))
     } else Some empty_iterator
   }"

definition leftmost_child16 :: "inode16 \<Rightarrow> addr \<Rightarrow> nat \<Rightarrow> iterator option" where
  "leftmost_child16 n self start =
     (if start < unat (children_count n) then
        (if \<not> start < capacity16 then None
         else Some (Iterator (children16 n ! start) (of_nat start) (tagged_self16 self)))
      else Some empty_iterator)"

definition replace16 :: "store \<Rightarrow> addr \<Rightarrow> iterator \<Rightarrow> node_ptr \<Rightarrow> store option" where
  "replace16 h self pos child = do {
     n \<leftarrow> get16 h self;
     let child_index = index pos;
     _ \<leftarrow> assert_that (unat child_index < capacity16);
     _ \<leftarrow> assert_that (parent pos = tagged_self16 self \<and> node pos = children16 n ! unat child_index);
     let n' = n\<lparr>children16 := (children16 n)[unat child_index := child]\<rparr>;
     reparent (h(self \<mapsto> Node16 n')) (tagged_self16 self) (children16 n' ! unat child_index)
       child_index
   }"

subsection \<open>Node48\<close>

definition min_size48 :: nat where "min_size48 = 17"
definition capacity48 :: nat where "capacity48 = 48"

definition is_full48 :: "inode48 \<Rightarrow> bool" where
  "is_full48 n \<longleftrightarrow> unat (children_count n) = capacity48"

definition is_min_size48 :: "inode48 \<Rightarrow> bool" where
  "is_min_size48 n \<longleftrightarrow> unat (children_count n) = min_size48"

definition tagged_self48 :: "addr \<Rightarrow> node_ptr" where
  "tagged_self48 self = create self I48"

definition inode48_new :: "u8 list \<Rightarrow> u8 list \<Rightarrow> node_ptr list \<Rightarrow> inode48" where
  "inode48_new key is cs =
     \<lparr>prefix = key, parent_ptr = nullptr, pos_in_parent = 0, children_count = of_nat min_size48,
      child_indices = is, children48 = cs\<rparr>"

text \<open>
  The free-slot scan of \<^verbatim>\<open>add\<close>, the branch without SSE4.2: the first null slot,
  reading past the array when there is none.
\<close>

function add48_scan :: "node_ptr list \<Rightarrow> nat \<Rightarrow> nat option" where
  "add48_scan cs i =
     (if \<not> i < capacity48 then None
      else if cs ! i = nullptr then Some i
      else add48_scan cs (i + 1))"
  by pat_completeness auto
termination
  by (relation "measure (\<lambda>(cs, i). capacity48 - i)") (auto simp add: capacity48_def)

declare add48_scan.simps [simp del]

definition add48 :: "store \<Rightarrow> addr \<Rightarrow> addr \<Rightarrow> u8 \<Rightarrow> (store \<times> iterator) option" where
  "add48 h self child key_byte = do {
     n \<leftarrow> get48 h self;
     _ \<leftarrow> assert_that (child_indices n ! unat key_byte = empty_child);
     i \<leftarrow> add48_scan (children48 n) 0;
     _ \<leftarrow> assert_that (children48 n ! i = nullptr);
     let n1 = n\<lparr>child_indices := (child_indices n)[unat key_byte := of_nat i]\<rparr>;
     let n2 = n1\<lparr>children48 := (children48 n1)[i := create child LEAF]\<rparr>;
     let n3 = n2\<lparr>children_count := children_count n2 + 1\<rparr>;
     Some (h(self \<mapsto> Node48 n3), Iterator (children48 n3 ! i) key_byte (tagged_self48 self))
   }"

definition verify_remove_preconditions :: "inode48 \<Rightarrow> u8 \<Rightarrow> unit option" where
  "verify_remove_preconditions n child_index = do {
     _ \<leftarrow> assert_that (child_indices n ! unat child_index \<noteq> empty_child);
     assert_that (children48 n ! unat (child_indices n ! unat child_index) \<noteq> nullptr)
   }"

definition remove48 :: "store \<Rightarrow> addr \<Rightarrow> u8 \<Rightarrow> store option" where
  "remove48 h self child_index = do {
     n \<leftarrow> get48 h self;
     _ \<leftarrow> verify_remove_preconditions n child_index;
     _ \<leftarrow> assert_that (unat (child_indices n ! unat child_index) < capacity48);
     let n1 = n\<lparr>children48 := (children48 n)[unat (child_indices n ! unat child_index) := nullptr]\<rparr>;
     let n2 = n1\<lparr>child_indices := (child_indices n1)[unat child_index := empty_child]\<rparr>;
     let n3 = n2\<lparr>children_count := children_count n2 - 1\<rparr>;
     Some (h(self \<mapsto> Node48 n3))
   }"

definition find_child48 :: "inode48 \<Rightarrow> addr \<Rightarrow> u8 \<Rightarrow> iterator option" where
  "find_child48 n self key_byte =
     (if child_indices n ! unat key_byte \<noteq> empty_child then do {
        let child_i = child_indices n ! unat key_byte;
        _ \<leftarrow> assert_that (unat child_i < capacity48);
        Some (Iterator (children48 n ! unat child_i) key_byte (tagged_self48 self))
      } else Some empty_iterator)"

text \<open>\<^verbatim>\<open>leftmost_child\<close>: the scan starts below 256 and stops at key byte 255.\<close>

function leftmost_child48_loop :: "inode48 \<Rightarrow> addr \<Rightarrow> nat \<Rightarrow> iterator option" where
  "leftmost_child48_loop n self key_byte =
     (let i = child_indices n ! key_byte in
      if i \<noteq> empty_child then
        (if \<not> unat i < capacity48 then None
         else Some (Iterator (children48 n ! unat i) (of_nat key_byte) (tagged_self48 self)))
      else if key_byte \<ge> 255 then Some empty_iterator
      else leftmost_child48_loop n self (key_byte + 1))"
  by pat_completeness auto
termination
  by (relation "measure (\<lambda>(n, self, key_byte). 255 - key_byte)") auto

declare leftmost_child48_loop.simps [simp del]

definition leftmost_child48 :: "inode48 \<Rightarrow> addr \<Rightarrow> nat \<Rightarrow> iterator option" where
  "leftmost_child48 n self start =
     (if start < 256 then leftmost_child48_loop n self start else Some empty_iterator)"

definition replace48 :: "store \<Rightarrow> addr \<Rightarrow> iterator \<Rightarrow> node_ptr \<Rightarrow> store option" where
  "replace48 h self pos child = do {
     n \<leftarrow> get48 h self;
     _ \<leftarrow> assert_that (parent pos = tagged_self48 self);
     let child_i = child_indices n ! unat (index pos);
     _ \<leftarrow> assert_that (unat child_i < capacity48);
     _ \<leftarrow> assert_that (node pos = children48 n ! unat child_i);
     let n' = n\<lparr>children48 := (children48 n)[unat child_i := child]\<rparr>;
     reparent (h(self \<mapsto> Node48 n')) (tagged_self48 self) (children48 n' ! unat child_i) (index pos)
   }"

subsection \<open>Node256\<close>

definition min_size256 :: nat where "min_size256 = 49"
definition capacity256 :: nat where "capacity256 = 256"

definition tagged_self256 :: "addr \<Rightarrow> node_ptr" where
  "tagged_self256 self = create self I256"

definition add256 :: "store \<Rightarrow> addr \<Rightarrow> addr \<Rightarrow> u8 \<Rightarrow> (store \<times> iterator) option" where
  "add256 h self child key_byte = do {
     n \<leftarrow> get256 h self;
     _ \<leftarrow> assert_that (children256 n ! unat key_byte = nullptr);
     let n' = n\<lparr>children_count := children_count n + 1,
                children256 := (children256 n)[unat key_byte := create child LEAF]\<rparr>;
     Some (h(self \<mapsto> Node256 n'),
           Iterator (children256 n' ! unat key_byte) key_byte (tagged_self256 self))
   }"

definition remove256 :: "store \<Rightarrow> addr \<Rightarrow> u8 \<Rightarrow> store option" where
  "remove256 h self child_index = do {
     n \<leftarrow> get256 h self;
     _ \<leftarrow> assert_that (children256 n ! unat child_index \<noteq> nullptr);
     Some (h(self \<mapsto> Node256 (n\<lparr>children_count := children_count n - 1,
                                  children256 := (children256 n)[unat child_index := nullptr]\<rparr>)))
   }"

definition is_full256 :: "inode256 \<Rightarrow> bool" where
  "is_full256 n \<longleftrightarrow> unat (children_count n) = capacity256"

definition is_min_size256 :: "inode256 \<Rightarrow> bool" where
  "is_min_size256 n \<longleftrightarrow> unat (children_count n) = min_size256"

definition inode256_new :: "u8 list \<Rightarrow> node_ptr list \<Rightarrow> inode256" where
  "inode256_new key cs =
     \<lparr>prefix = key, parent_ptr = nullptr, pos_in_parent = 0, children_count = of_nat min_size256,
      children256 = cs\<rparr>"

definition find_child256 :: "inode256 \<Rightarrow> addr \<Rightarrow> u8 \<Rightarrow> iterator option" where
  "find_child256 n self key_byte =
     (if children256 n ! unat key_byte \<noteq> nullptr
      then Some (Iterator (children256 n ! unat key_byte) key_byte (tagged_self256 self))
      else Some empty_iterator)"

text \<open>\<^verbatim>\<open>leftmost_child\<close>: \<open>for (; key_byte != children.size(); ++key_byte)\<close>.\<close>

function leftmost_child256 :: "inode256 \<Rightarrow> addr \<Rightarrow> nat \<Rightarrow> iterator option" where
  "leftmost_child256 n self key_byte =
     (if key_byte \<noteq> 256 then
        (if \<not> key_byte < 256 then None
         else if children256 n ! key_byte \<noteq> nullptr
         then Some (Iterator (children256 n ! key_byte) (of_nat key_byte) (tagged_self256 self))
         else leftmost_child256 n self (key_byte + 1))
      else Some empty_iterator)"
  by pat_completeness auto
termination
  by (relation "measure (\<lambda>(n, self, key_byte). 256 - key_byte)") auto

declare leftmost_child256.simps [simp del]

definition replace256 :: "store \<Rightarrow> addr \<Rightarrow> iterator \<Rightarrow> node_ptr \<Rightarrow> store option" where
  "replace256 h self pos child = do {
     n \<leftarrow> get256 h self;
     let key_byte = index pos;
     _ \<leftarrow> assert_that (parent pos = tagged_self256 self \<and> node pos = children256 n ! unat key_byte);
     let n' = n\<lparr>children256 := (children256 n)[unat key_byte := child]\<rparr>;
     reparent (h(self \<mapsto> Node256 n')) (tagged_self256 self) child key_byte
   }"

subsection \<open>Dispatch on the tag\<close>

text \<open>The default arm of each switch is \<^verbatim>\<open>ART_DETAIL_CANNOT_HAPPEN\<close>.\<close>

definition capacity :: "node_ptr \<Rightarrow> nat option" where
  "capacity p = (case tag p of
       I4 \<Rightarrow> Some capacity4
     | I16 \<Rightarrow> Some capacity16
     | I48 \<Rightarrow> Some capacity48
     | I256 \<Rightarrow> Some capacity256
     | LEAF \<Rightarrow> Some 1)"

definition find_child :: "store \<Rightarrow> node_ptr \<Rightarrow> u8 \<Rightarrow> iterator option" where
  "find_child h p key_byte = (case tag p of
       I4 \<Rightarrow> do { n \<leftarrow> get4 h (get p); find_child4 n (get p) key_byte }
     | I16 \<Rightarrow> do { n \<leftarrow> get16 h (get p); find_child16 n (get p) key_byte }
     | I48 \<Rightarrow> do { n \<leftarrow> get48 h (get p); find_child48 n (get p) key_byte }
     | I256 \<Rightarrow> do { n \<leftarrow> get256 h (get p); find_child256 n (get p) key_byte }
     | LEAF \<Rightarrow> None)"

definition leftmost_child :: "store \<Rightarrow> node_ptr \<Rightarrow> nat \<Rightarrow> iterator option" where
  "leftmost_child h p start = (case tag p of
       I4 \<Rightarrow> do { n \<leftarrow> get4 h (get p); leftmost_child4 n (get p) start }
     | I16 \<Rightarrow> do { n \<leftarrow> get16 h (get p); leftmost_child16 n (get p) start }
     | I48 \<Rightarrow> do { n \<leftarrow> get48 h (get p); leftmost_child48 n (get p) start }
     | I256 \<Rightarrow> do { n \<leftarrow> get256 h (get p); leftmost_child256 n (get p) start }
     | LEAF \<Rightarrow> None)"

text \<open>
  \<^verbatim>\<open>leftmost_leaf\<close>: \<open>while (pos.tag() != LEAF) { pos = leftmost_child(pos.node(), start);
  start = 0; }\<close>. The loop need not end, so the result is \<open>None\<close> when it does not
  return (as when a call inside it leaves defined behaviour).
\<close>

partial_function (option) leftmost_leaf_loop :: "store \<Rightarrow> iterator \<Rightarrow> nat \<Rightarrow> iterator option" where
  "leftmost_leaf_loop h pos start =
     (if tag (node pos) \<noteq> LEAF
      then (case leftmost_child h (node pos) start of
              None \<Rightarrow> None
            | Some pos' \<Rightarrow> leftmost_leaf_loop h pos' 0)
      else Some pos)"

definition leftmost_leaf :: "store \<Rightarrow> node_ptr \<Rightarrow> nat \<Rightarrow> iterator option" where
  "leftmost_leaf h p start = leftmost_leaf_loop h (iterator2 p 0) start"

text \<open>The number of bytes with a child, counted over the array.\<close>

definition present256 :: "inode256 \<Rightarrow> nat" where
  "present256 n = length (filter (\<lambda>p. p \<noteq> nullptr) (children256 n))"

text \<open>The array has 256 slots, and the counter agrees with the populated ones.\<close>

definition count_ok256 :: "inode256 \<Rightarrow> bool" where
  "count_ok256 n \<longleftrightarrow> length (children256 n) = 256 \<and> present256 n = num_children n"

subsection \<open>Well-formed nodes and what a node holds\<close>

text \<open>
  The invariants of the data model. Node4 and Node16: the counter is between
  \<^verbatim>\<open>min_size\<close> and \<^verbatim>\<open>capacity\<close>, the first \<open>children_count\<close> keys are strictly increasing
  and their children are not null. Node48: \<open>child_indices\<close> maps the bytes that have a
  child to distinct slots, and those are exactly the slots that are not null. Node256:
  the counter agrees with the slots that are not null.
\<close>

definition node4_wf :: "inode4 \<Rightarrow> bool" where
  "node4_wf n \<longleftrightarrow>
     length (keys4 n) = 4 \<and> length (children4 n) = 4 \<and>
     min_size4 \<le> unat (children_count n) \<and> unat (children_count n) \<le> capacity4 \<and>
     sorted_wrt (<) (take (unat (children_count n)) (keys4 n)) \<and>
     nullptr \<notin> set (take (unat (children_count n)) (children4 n))"

definition node16_wf :: "inode16 \<Rightarrow> bool" where
  "node16_wf n \<longleftrightarrow>
     length (keys16 n) = 16 \<and> length (children16 n) = 16 \<and>
     min_size16 \<le> unat (children_count n) \<and> unat (children_count n) \<le> capacity16 \<and>
     sorted_wrt (<) (take (unat (children_count n)) (keys16 n)) \<and>
     nullptr \<notin> set (take (unat (children_count n)) (children16 n))"

definition live_keys48 :: "inode48 \<Rightarrow> nat list" where
  "live_keys48 n = filter (\<lambda>b. child_indices n ! b \<noteq> empty_child) [0..<256]"

definition live_slots48 :: "inode48 \<Rightarrow> nat list" where
  "live_slots48 n = map (\<lambda>b. unat (child_indices n ! b)) (live_keys48 n)"

definition used_slots48 :: "inode48 \<Rightarrow> nat list" where
  "used_slots48 n = filter (\<lambda>s. children48 n ! s \<noteq> nullptr) [0..<48]"

definition node48_wf :: "inode48 \<Rightarrow> bool" where
  "node48_wf n \<longleftrightarrow>
     length (child_indices n) = 256 \<and> length (children48 n) = 48 \<and>
     min_size48 \<le> unat (children_count n) \<and> unat (children_count n) \<le> capacity48 \<and>
     length (live_keys48 n) = unat (children_count n) \<and>
     distinct (live_slots48 n) \<and> set (live_slots48 n) = set (used_slots48 n)"

definition node256_wf :: "inode256 \<Rightarrow> bool" where
  "node256_wf n \<longleftrightarrow> count_ok256 n \<and> min_size256 \<le> num_children n"

fun inode_wf :: "inode \<Rightarrow> bool" where
  "inode_wf (Node4 n) = node4_wf n"
| "inode_wf (Node16 n) = node16_wf n"
| "inode_wf (Node48 n) = node48_wf n"
| "inode_wf (Node256 n) = node256_wf n"

fun static_type :: "inode \<Rightarrow> node_type" where
  "static_type (Node4 n) = I4"
| "static_type (Node16 n) = I16"
| "static_type (Node48 n) = I48"
| "static_type (Node256 n) = I256"

text \<open>
  What a node holds: the partial map from key bytes to child pointers. Its domain is the
  set of key bytes present in the node.
\<close>

fun child_map :: "inode \<Rightarrow> u8 \<Rightarrow> node_ptr option" where
  "child_map (Node4 n) =
     map_of (zip (take (unat (children_count n)) (keys4 n)) (children4 n))"
| "child_map (Node16 n) =
     map_of (zip (take (unat (children_count n)) (keys16 n)) (children16 n))"
| "child_map (Node48 n) =
     (\<lambda>b. if child_indices n ! unat b \<noteq> empty_child
          then Some (children48 n ! unat (child_indices n ! unat b)) else None)"
| "child_map (Node256 n) =
     (\<lambda>b. if children256 n ! unat b \<noteq> nullptr then Some (children256 n ! unat b) else None)"

text \<open>
  The key byte an iterator index stands for: an index into the key array for Node4 and
  Node16, the key byte itself for Node48 and Node256.
\<close>

fun index_key :: "inode \<Rightarrow> u8 \<Rightarrow> u8" where
  "index_key (Node4 n) i = keys4 n ! unat i"
| "index_key (Node16 n) i = keys16 n ! unat i"
| "index_key (Node48 n) i = i"
| "index_key (Node256 n) i = i"

subsection \<open>Example states\<close>

definition example256 :: inode256 where
  "example256 = \<lparr>prefix = [], parent_ptr = nullptr, pos_in_parent = 0, children_count = 255,
                  children256 = replicate 255 (NodePtr 8 LEAF) @ [nullptr]\<rparr>"

definition example4 :: inode4 where
  "example4 = \<lparr>prefix = [1, 2], parent_ptr = nullptr, pos_in_parent = 0, children_count = 2,
                keys4 = [0x10, 0x20, 0, 0],
                children4 = [NodePtr 8 LEAF, NodePtr 16 LEAF, nullptr, nullptr]\<rparr>"

definition example16 :: inode16 where
  "example16 = \<lparr>prefix = [], parent_ptr = nullptr, pos_in_parent = 0, children_count = 5,
                 keys16 = [0x01, 0x03, 0x07, 0x0F, 0x1F, 0, 0, 0, 0, 0, 0, 0, 0, 0, 0, 0],
                 children16 = [NodePtr 8 LEAF, NodePtr 16 LEAF, NodePtr 24 LEAF, NodePtr 32 LEAF,
                   NodePtr 40 LEAF, nullptr, nullptr, nullptr, nullptr, nullptr, nullptr, nullptr,
                   nullptr, nullptr, nullptr, nullptr]\<rparr>"

definition example48 :: inode48 where
  "example48 = \<lparr>prefix = [], parent_ptr = nullptr, pos_in_parent = 0, children_count = 48,
                 child_indices = replicate 78 0xFF @ map of_nat [0..<48] @ replicate 130 0xFF,
                 children48 = map (\<lambda>s. NodePtr (8 * (s + 1)) LEAF) [0..<48]\<rparr>"

definition example48_free :: inode48 where
  "example48_free = example48\<lparr>children48 := (children48 example48)[7 := nullptr],
                               child_indices := (child_indices example48)[0x55 := 0xFF],
                               children_count := 47\<rparr>"

text \<open>The children a node holds, in the order of their key bytes.\<close>

fun children_list :: "inode \<Rightarrow> node_ptr list" where
  "children_list (Node4 n) = take (unat (children_count n)) (children4 n)"
| "children_list (Node16 n) = take (unat (children_count n)) (children16 n)"
| "children_list (Node48 n) =
     map (\<lambda>b. children48 n ! unat (child_indices n ! b)) (live_keys48 n)"
| "children_list (Node256 n) = filter (\<lambda>p. p \<noteq> nullptr) (children256 n)"

text \<open>A node has a child at or after the position \<open>start\<close> of a \<^verbatim>\<open>leftmost_child\<close> call.\<close>

fun has_child_from :: "inode \<Rightarrow> nat \<Rightarrow> bool" where
  "has_child_from (Node4 n) start \<longleftrightarrow> start < unat (children_count n)"
| "has_child_from (Node16 n) start \<longleftrightarrow> start < unat (children_count n)"
| "has_child_from (Node48 n) start \<longleftrightarrow> list_ex (\<lambda>b. start \<le> b) (live_keys48 n)"
| "has_child_from (Node256 n) start \<longleftrightarrow>
     list_ex (\<lambda>b. start \<le> b \<and> children256 n ! b \<noteq> nullptr) [0..<256]"

text \<open>
  A finite well-formed tree of height at most \<open>k\<close> below the pointer \<open>p\<close>: \<open>p\<close> is a leaf
  that is not null, or it carries the tag of a well-formed node of the store whose
  children are such trees of height at most \<open>k - 1\<close>.
\<close>

fun tree_wf :: "store \<Rightarrow> nat \<Rightarrow> node_ptr \<Rightarrow> bool" where
  "tree_wf h 0 p \<longleftrightarrow> tag p = LEAF \<and> p \<noteq> nullptr"
| "tree_wf h (Suc k) p \<longleftrightarrow>
     (if tag p = LEAF then p \<noteq> nullptr
      else (case h (get p) of
              None \<Rightarrow> False
            | Some c \<Rightarrow> tag p = static_type c \<and> inode_wf c \<and>
                list_all (tree_wf h k) (children_list c)))"

text \<open>The key bytes that have a child in a node, in increasing order.\<close>

definition keys_present :: "inode \<Rightarrow> u8 list" where
  "keys_present c = filter (\<lambda>b. child_map c b \<noteq> None) (map of_nat [0..<256])"

text \<open>
  The leftmost child at or after \<open>start\<close>, read off the key-to-child map of the node and
  the order of the key bytes, not off the arrays. In a Node4 and a Node16 a position is
  an index in the increasing order of the key bytes present, so the leftmost child from
  \<open>start\<close> is the child of the key byte of rank \<open>start\<close>. In a Node48 and a Node256 a
  position is a key byte, so it is the child of the least key byte present that is at
  least \<open>start\<close>. \<open>leftmost_key\<close> gives the key byte and the position, \<open>leftmost_of\<close> the
  iterator: that child, its position, and the node as parent.
\<close>

fun leftmost_key :: "inode \<Rightarrow> nat \<Rightarrow> (u8 \<times> u8) option" where
  "leftmost_key (Node4 n) start =
     (if start < length (keys_present (Node4 n))
      then Some (keys_present (Node4 n) ! start, of_nat start) else None)"
| "leftmost_key (Node16 n) start =
     (if start < length (keys_present (Node16 n))
      then Some (keys_present (Node16 n) ! start, of_nat start) else None)"
| "leftmost_key (Node48 n) start =
     map_option (\<lambda>b. (b, b)) (find (\<lambda>b. start \<le> unat b) (keys_present (Node48 n)))"
| "leftmost_key (Node256 n) start =
     map_option (\<lambda>b. (b, b)) (find (\<lambda>b. start \<le> unat b) (keys_present (Node256 n)))"

definition leftmost_of :: "inode \<Rightarrow> node_ptr \<Rightarrow> nat \<Rightarrow> iterator option" where
  "leftmost_of c p start =
     (case leftmost_key c start of
        None \<Rightarrow> None
      | Some (k, i) \<Rightarrow> map_option (\<lambda>child. Iterator child i p) (child_map c k))"

text \<open>
  The descent the documentation describes: from \<open>pos\<close>, take the leftmost child at or
  after \<open>start\<close> of the node that \<open>pos\<close> points to, then the leftmost child from 0, until
  the node is a leaf. Each hop is the one \<open>leftmost_of\<close> names, so the descent from a
  position has at most one end.
\<close>

inductive leftmost_descent :: "store \<Rightarrow> iterator \<Rightarrow> nat \<Rightarrow> iterator \<Rightarrow> bool" where
  arrived: "tag (node pos) = LEAF \<Longrightarrow> leftmost_descent h pos start pos"
| hop: "tag (node pos) \<noteq> LEAF \<Longrightarrow> h (get (node pos)) = Some c \<Longrightarrow>
        leftmost_of c (node pos) start = Some pos' \<Longrightarrow>
        leftmost_descent h pos' 0 r \<Longrightarrow> leftmost_descent h pos start r"

definition example4_inner :: inode4 where
  "example4_inner = \<lparr>prefix = [], parent_ptr = NodePtr 64 I4, pos_in_parent = 1, children_count = 2,
                      keys4 = [0x41, 0x42, 0, 0],
                      children4 = [NodePtr 24 LEAF, NodePtr 32 LEAF, nullptr, nullptr]\<rparr>"

definition example4_root :: inode4 where
  "example4_root = \<lparr>prefix = [], parent_ptr = nullptr, pos_in_parent = 0, children_count = 3,
                     keys4 = [0x10, 0x20, 0x30, 0],
                     children4 = [NodePtr 8 LEAF, NodePtr 128 I4, NodePtr 16 LEAF, nullptr]\<rparr>"

definition example_tree :: store where
  "example_tree = [64 \<mapsto> Node4 example4_root, 128 \<mapsto> Node4 example4_inner]"

text \<open>
  The store after \<^verbatim>\<open>replace\<close>: the node \<open>self\<close> holds \<open>new\<close>, a child that is not a leaf has
  its back-reference set to \<open>(self_ptr, i)\<close>, and nothing else has changed.
\<close>

definition replaced :: "store \<Rightarrow> store \<Rightarrow> addr \<Rightarrow> inode \<Rightarrow> node_ptr \<Rightarrow> node_ptr \<Rightarrow> u8 \<Rightarrow> bool" where
  "replaced h h' self new self_ptr child i \<longleftrightarrow>
     h' self = Some new \<and>
     (tag child \<noteq> LEAF \<longrightarrow>
        (\<exists>c. h (get child) = Some c \<and> h' (get child) = Some (assign_parent self_ptr i c))) \<and>
     (\<forall>a. a \<noteq> self \<and> (tag child = LEAF \<or> a \<noteq> get child) \<longrightarrow> h' a = h a)"

definition example4_collapse :: inode4 where
  "example4_collapse = \<lparr>prefix = [0xAA, 0xBB], parent_ptr = nullptr, pos_in_parent = 0,
                         children_count = 2, keys4 = [0x10, 0x20, 0, 0],
                         children4 = [NodePtr 128 I4, NodePtr 8 LEAF, nullptr, nullptr]\<rparr>"

definition example4_survivor :: inode4 where
  "example4_survivor = example4_inner\<lparr>prefix := [0x01, 0x02], pos_in_parent := 0\<rparr>"

definition example_collapse :: store where
  "example_collapse = [64 \<mapsto> Node4 example4_collapse, 128 \<mapsto> Node4 example4_survivor]"

subsection \<open>The loops without the store\<close>

text \<open>
  What the shifting loops do to one array, and the \<^verbatim>\<open>reparent\<close> calls they make, as
  functions on lists; the store-passing loops are proved equal to these below.
  \<open>shift_right xs i pos\<close> is \<open>for (; i > pos; --i) xs[i] = xs[i - 1]\<close>, and
  \<open>shift_left xs i n\<close> is \<open>for (; i < n - 1; ++i) xs[i] = xs[i + 1]\<close>.
\<close>

fun shift_right :: "'a list \<Rightarrow> nat \<Rightarrow> nat \<Rightarrow> 'a list" where
  "shift_right xs i pos = (if i > pos then shift_right (xs[i := xs ! (i - 1)]) (i - 1) pos else xs)"

declare shift_right.simps [simp del]

function shift_left :: "'a list \<Rightarrow> nat \<Rightarrow> nat \<Rightarrow> 'a list" where
  "shift_left xs i n = (if i < n - 1 then shift_left (xs[i := xs ! (i + 1)]) (i + 1) n else xs)"
  by pat_completeness auto
termination
  by (relation "measure (\<lambda>(xs, i, n). n - i)") auto

declare shift_left.simps [simp del]

fun reparent_all :: "store \<Rightarrow> node_ptr \<Rightarrow> (node_ptr \<times> u8) list \<Rightarrow> store option" where
  "reparent_all h self [] = Some h"
| "reparent_all h self ((c, i) # xs) =
     (case reparent h self c i of None \<Rightarrow> None | Some h' \<Rightarrow> reparent_all h' self xs)"

text \<open>
  The \<^verbatim>\<open>reparent\<close> calls of the loops: inserting at \<open>pos\<close> moves the children \<open>pos..cc-1\<close>
  one place up, removing at \<open>idx\<close> moves the children \<open>idx+1..cc-1\<close> one place down.
\<close>

definition calls_up :: "node_ptr list \<Rightarrow> nat \<Rightarrow> nat \<Rightarrow> (node_ptr \<times> u8) list" where
  "calls_up cs pos cc = map (\<lambda>j. (cs ! j, of_nat (Suc j))) [pos..<cc]"

definition calls_down :: "node_ptr list \<Rightarrow> nat \<Rightarrow> nat \<Rightarrow> (node_ptr \<times> u8) list" where
  "calls_down cs idx cc = map (\<lambda>j. (cs ! j, of_nat (j - 1))) [idx + 1..<cc]"

subsection \<open>Growing and shrinking\<close>

text \<open>
  The constructor \<^verbatim>\<open>basic_inode(const LargerDerived& source_node)\<close> of a shrunk node:
  \<^verbatim>\<open>basic_inode_impl(Capacity, source_node.prefix())\<close> starts the counter at the capacity
  and copies the prefix of the source, the back-reference is value-initialised, and the
  arrays are not initialised. Its two asserts are the first steps of each shrinking
  constructor below.
\<close>

definition inode4_shrunk :: "u8 list \<Rightarrow> u8 list \<Rightarrow> node_ptr list \<Rightarrow> inode4" where
  "inode4_shrunk key ks cs =
     \<lparr>prefix = key, parent_ptr = nullptr, pos_in_parent = 0, children_count = of_nat capacity4,
      keys4 = ks, children4 = cs\<rparr>"

definition inode16_shrunk :: "u8 list \<Rightarrow> u8 list \<Rightarrow> node_ptr list \<Rightarrow> inode16" where
  "inode16_shrunk key ks cs =
     \<lparr>prefix = key, parent_ptr = nullptr, pos_in_parent = 0, children_count = of_nat capacity16,
      keys16 = ks, children16 = cs\<rparr>"

definition inode48_shrunk :: "u8 list \<Rightarrow> u8 list \<Rightarrow> node_ptr list \<Rightarrow> inode48" where
  "inode48_shrunk key is cs =
     \<lparr>prefix = key, parent_ptr = nullptr, pos_in_parent = 0, children_count = of_nat capacity48,
      child_indices = is, children48 = cs\<rparr>"

text \<open>
  \<^verbatim>\<open>basic_inode_4(const inode16_type& source_node, std::uint8_t child_to_delete)\<close>. The two
  loops are the same loop with another end: the source iterators are at \<open>si\<close>, the
  iterators into the new arrays at \<open>di\<close>, and \<open>idx\<close> is the one-byte counter \<^verbatim>\<open>index\<close>; they return
  where they stopped.
\<close>

function shrink4_copy ::
    "store \<Rightarrow> addr \<Rightarrow> addr \<Rightarrow> nat \<Rightarrow> nat \<Rightarrow> u8 \<Rightarrow> nat \<Rightarrow> (store \<times> nat \<times> nat \<times> u8) option" where
  "shrink4_copy h self src si di idx stop =
     (if si \<noteq> stop then
        (if \<not> (si < capacity16 \<and> di < capacity4) then None
         else do {
           s \<leftarrow> get16 h src;
           n \<leftarrow> get4 h self;
           let n1 = n\<lparr>keys4 := (keys4 n)[di := keys16 s ! si]\<rparr>;
           let n2 = n1\<lparr>children4 := (children4 n1)[di := children16 s ! si]\<rparr>;
           h' \<leftarrow> reparent (h(self \<mapsto> Node4 n2)) (tagged_self4 self) (children4 n2 ! di) idx;
           shrink4_copy h' self src (si + 1) (di + 1) (idx + 1) stop
         })
      else Some (h, si, di, idx))"
  by pat_completeness auto
termination
  by (relation "measure (\<lambda>(h, self, src, si, di, idx, stop). capacity16 - si)")
    (auto simp add: capacity16_def)

declare shrink4_copy.simps [simp del]

definition shrink4 ::
    "store \<Rightarrow> addr \<Rightarrow> u8 list \<Rightarrow> node_ptr list \<Rightarrow> addr \<Rightarrow> u8 \<Rightarrow> store option" where
  "shrink4 h self ks cs src child_to_delete = do {
     s \<leftarrow> get16 h src;
     let n0 = inode4_shrunk (prefix s) ks cs;
     _ \<leftarrow> assert_that (is_min_size16 s);
     _ \<leftarrow> assert_that (is_full4 n0);
     (h1, si, di, idx) \<leftarrow> shrink4_copy (h(self \<mapsto> Node4 n0)) self src 0 0 0 (unat child_to_delete);
     (h2, _, _, _) \<leftarrow> shrink4_copy h1 self src (si + 1) di idx min_size16;
     n \<leftarrow> get4 h2 self;
     _ \<leftarrow> assert_that (is_sorted (take (unat (children_count n)) (keys4 n)));
     Some h2
   }"

text \<open>
  \<^verbatim>\<open>basic_inode_16::populate(source_node, child, key_byte)\<close>, called on a fresh Node16 with
  a full Node4 as source: the loops \<open>for (; i < insert_pos_index; ++i)\<close> and
  \<open>for (; i <= inode4_type::capacity; ++i)\<close>.
\<close>

function populate16_below :: "store \<Rightarrow> addr \<Rightarrow> addr \<Rightarrow> nat \<Rightarrow> nat \<Rightarrow> store option" where
  "populate16_below h self src i insert_pos_index =
     (if i < insert_pos_index then
        (if \<not> i < capacity4 then None
         else do {
           s \<leftarrow> get4 h src;
           n \<leftarrow> get16 h self;
           let n1 = n\<lparr>keys16 := (keys16 n)[i := keys4 s ! i]\<rparr>;
           let n2 = n1\<lparr>children16 := (children16 n1)[i := children4 s ! i]\<rparr>;
           h' \<leftarrow> reparent (h(self \<mapsto> Node16 n2)) (tagged_self16 self) (children16 n2 ! i) (of_nat i);
           populate16_below h' self src (i + 1) insert_pos_index
         })
      else Some h)"
  by pat_completeness auto
termination
  by (relation "measure (\<lambda>(h, self, src, i, insert_pos_index). insert_pos_index - i)") auto

declare populate16_below.simps [simp del]

function populate16_above :: "store \<Rightarrow> addr \<Rightarrow> addr \<Rightarrow> nat \<Rightarrow> store option" where
  "populate16_above h self src i =
     (if i \<le> capacity4 then
        (if i = 0 then None
         else do {
           s \<leftarrow> get4 h src;
           n \<leftarrow> get16 h self;
           let n1 = n\<lparr>keys16 := (keys16 n)[i := keys4 s ! (i - 1)]\<rparr>;
           let n2 = n1\<lparr>children16 := (children16 n1)[i := children4 s ! (i - 1)]\<rparr>;
           h' \<leftarrow> reparent (h(self \<mapsto> Node16 n2)) (tagged_self16 self) (children16 n2 ! i) (of_nat i);
           populate16_above h' self src (i + 1)
         })
      else Some h)"
  by pat_completeness auto
termination
  by (relation "measure (\<lambda>(h, self, src, i). capacity4 + 1 - i)") auto

declare populate16_above.simps [simp del]

definition populate16 :: "store \<Rightarrow> addr \<Rightarrow> addr \<Rightarrow> addr \<Rightarrow> u8 \<Rightarrow> (store \<times> iterator) option" where
  "populate16 h self src child key_byte = do {
     s \<leftarrow> get4 h src;
     n \<leftarrow> get16 h self;
     _ \<leftarrow> assert_that (is_full4 s);
     _ \<leftarrow> assert_that (is_min_size16 n);
     let ki = keys_integer (keys4 s);
     let first_lt = (if ki AND 0xFF < ucast key_byte then 1 else 0 :: nat);
     let second_lt = (if drop_bit 8 ki AND 0xFF < ucast key_byte then 1 else 0 :: nat);
     let third_lt = (if drop_bit 16 ki AND 0xFF < ucast key_byte then 1 else 0 :: nat);
     let fourth_lt = (if drop_bit 24 ki AND 0xFF < ucast key_byte then 1 else 0 :: nat);
     let insert_pos_index = first_lt + second_lt + third_lt + fourth_lt;
     h1 \<leftarrow> populate16_below h self src 0 insert_pos_index;
     let i = insert_pos_index;
     n1 \<leftarrow> get16 h1 self;
     let n2 = n1\<lparr>keys16 := (keys16 n1)[i := key_byte]\<rparr>;
     let n3 = n2\<lparr>children16 := (children16 n2)[i := create child LEAF]\<rparr>;
     let inserted = Iterator (children16 n3 ! i) (of_nat i) (tagged_self16 self);
     h2 \<leftarrow> populate16_above (h1(self \<mapsto> Node16 n3)) self src (i + 1);
     Some (h2, inserted)
   }"

text \<open>
  \<^verbatim>\<open>basic_inode_16(inode48_type& source_node, std::uint8_t child_to_delete)\<close>: the source
  loses the key first, then \<open>while (true)\<close> scans its \<open>child_indices\<close>; reading past key
  byte 255 leaves the array.
\<close>

function shrink16_scan :: "store \<Rightarrow> addr \<Rightarrow> addr \<Rightarrow> nat \<Rightarrow> nat \<Rightarrow> store option" where
  "shrink16_scan h self src next_child i =
     (if \<not> i < 256 then None
      else do {
        s \<leftarrow> get48 h src;
        let source_child_i = child_indices s ! i;
        if source_child_i \<noteq> empty_child then
          (if \<not> (next_child < capacity16 \<and> unat source_child_i < capacity48) then None
           else do {
             n \<leftarrow> get16 h self;
             let n1 = n\<lparr>keys16 := (keys16 n)[next_child := of_nat i]\<rparr>;
             let source_child_ptr = children48 s ! unat source_child_i;
             _ \<leftarrow> assert_that (source_child_ptr \<noteq> nullptr);
             let n2 = n1\<lparr>children16 := (children16 n1)[next_child := source_child_ptr]\<rparr>;
             h' \<leftarrow> reparent (h(self \<mapsto> Node16 n2)) (tagged_self16 self)
                    (children16 n2 ! next_child) (of_nat next_child);
             if next_child + 1 = capacity16 then Some h'
             else (if i < 255 then shrink16_scan h' self src (next_child + 1) (i + 1) else None)
           })
        else (if i < 255 then shrink16_scan h self src next_child (i + 1) else None)
      })"
  by pat_completeness auto
termination
  by (relation "measure (\<lambda>(h, self, src, next_child, i). 256 - i)") auto

declare shrink16_scan.simps [simp del]

definition shrink16 ::
    "store \<Rightarrow> addr \<Rightarrow> u8 list \<Rightarrow> node_ptr list \<Rightarrow> addr \<Rightarrow> u8 \<Rightarrow> store option" where
  "shrink16 h self ks cs src child_to_delete = do {
     s \<leftarrow> get48 h src;
     let n0 = inode16_shrunk (prefix s) ks cs;
     _ \<leftarrow> assert_that (is_min_size48 s);
     _ \<leftarrow> assert_that (is_full16 n0);
     _ \<leftarrow> verify_remove_preconditions s child_to_delete;
     let s1 = s\<lparr>child_indices := (child_indices s)[unat child_to_delete := empty_child]\<rparr>;
     h1 \<leftarrow> shrink16_scan (h(self \<mapsto> Node16 n0, src \<mapsto> Node48 s1)) self src 0 0;
     n \<leftarrow> get16 h1 self;
     _ \<leftarrow> assert_that (capacity16 = unat (children_count n));
     _ \<leftarrow> assert_that (is_sorted (take capacity16 (keys16 n)));
     Some h1
   }"

text \<open>
  \<^verbatim>\<open>basic_inode_48::populate(source_node, child, key_byte)\<close>, called on a fresh Node48 with
  a full Node16 as source: \<open>for (std::uint8_t i = 0; i != inode16_type::capacity; ++i)\<close>.
\<close>

function populate48_copy :: "store \<Rightarrow> addr \<Rightarrow> addr \<Rightarrow> nat \<Rightarrow> store option" where
  "populate48_copy h self src i =
     (if i \<noteq> capacity16 then
        (if \<not> i < capacity16 then None
         else do {
           s \<leftarrow> get16 h src;
           n \<leftarrow> get48 h self;
           let existing_key_byte = keys16 s ! i;
           let n1 = n\<lparr>child_indices := (child_indices n)[unat existing_key_byte := of_nat i]\<rparr>;
           let n2 = n1\<lparr>children48 := (children48 n1)[i := children16 s ! i]\<rparr>;
           h' \<leftarrow> reparent (h(self \<mapsto> Node48 n2)) (tagged_self48 self) (children48 n2 ! i)
                  existing_key_byte;
           populate48_copy h' self src (i + 1)
         })
      else Some h)"
  by pat_completeness auto
termination
  by (relation "measure (\<lambda>(h, self, src, i). capacity16 - i)") (auto simp add: capacity16_def)

declare populate48_copy.simps [simp del]

definition populate48 :: "store \<Rightarrow> addr \<Rightarrow> addr \<Rightarrow> addr \<Rightarrow> u8 \<Rightarrow> (store \<times> iterator) option" where
  "populate48 h self src child key_byte = do {
     s \<leftarrow> get16 h src;
     n \<leftarrow> get48 h self;
     _ \<leftarrow> assert_that (is_full16 s);
     _ \<leftarrow> assert_that (is_min_size48 n);
     let n1 = n\<lparr>child_indices := fill (child_indices n) 0 (length (child_indices n)) empty_child\<rparr>;
     h1 \<leftarrow> populate48_copy (h(self \<mapsto> Node48 n1)) self src 0;
     n2 \<leftarrow> get48 h1 self;
     _ \<leftarrow> assert_that (child_indices n2 ! unat key_byte = empty_child);
     let n3 = n2\<lparr>child_indices := (child_indices n2)[unat key_byte := of_nat capacity16]\<rparr>;
     let n4 = n3\<lparr>children48 := (children48 n3)[capacity16 := create child LEAF]\<rparr>;
     let inserted = Iterator (children48 n4 ! capacity16) key_byte (tagged_self48 self);
     let n5 = n4\<lparr>children48 := fill (children48 n4) (capacity16 + 1) (length (children48 n4)) nullptr\<rparr>;
     Some (h1(self \<mapsto> Node48 n5), inserted)
   }"

text \<open>
  \<^verbatim>\<open>basic_inode_48(inode256_type& source_node, std::uint8_t child_to_delete)\<close>: the source
  loses the child first; the loop \<open>for (child_i = 0; child_i < 256; child_i++)\<close> stops
  early when \<open>next_child\<close>, a one-byte counter, reaches \<open>children_count\<close>.
\<close>

function shrink48_scan :: "store \<Rightarrow> addr \<Rightarrow> addr \<Rightarrow> u8 \<Rightarrow> nat \<Rightarrow> store option" where
  "shrink48_scan h self src next_child child_i =
     (if child_i < 256 then do {
        s \<leftarrow> get256 h src;
        let child_ptr = children256 s ! child_i;
        if child_ptr = nullptr then shrink48_scan h self src next_child (child_i + 1)
        else (if \<not> unat next_child < capacity48 then None
              else do {
                n \<leftarrow> get48 h self;
                let n1 = n\<lparr>child_indices := (child_indices n)[child_i := next_child]\<rparr>;
                let n2 = n1\<lparr>children48 := (children48 n1)[unat next_child := children256 s ! child_i]\<rparr>;
                h' \<leftarrow> reparent (h(self \<mapsto> Node48 n2)) (tagged_self48 self)
                       (children48 n2 ! unat next_child) (of_nat child_i);
                n' \<leftarrow> get48 h' self;
                if next_child + 1 = children_count n' then Some h'
                else shrink48_scan h' self src (next_child + 1) (child_i + 1)
              })
      } else Some h)"
  by pat_completeness auto
termination
  by (relation "measure (\<lambda>(h, self, src, next_child, child_i). 256 - child_i)") auto

declare shrink48_scan.simps [simp del]

definition shrink48 ::
    "store \<Rightarrow> addr \<Rightarrow> u8 list \<Rightarrow> node_ptr list \<Rightarrow> addr \<Rightarrow> u8 \<Rightarrow> store option" where
  "shrink48 h self is cs src child_to_delete = do {
     s \<leftarrow> get256 h src;
     let n0 = inode48_shrunk (prefix s) is cs;
     _ \<leftarrow> assert_that (is_min_size256 s);
     _ \<leftarrow> assert_that (is_full48 n0);
     let s1 = s\<lparr>children256 := (children256 s)[unat child_to_delete := nullptr]\<rparr>;
     let n1 = n0\<lparr>child_indices := fill (child_indices n0) 0 (length (child_indices n0)) empty_child\<rparr>;
     shrink48_scan (h(self \<mapsto> Node48 n1, src \<mapsto> Node256 s1)) self src 0 0
   }"

text \<open>
  \<^verbatim>\<open>basic_inode_256::populate(source_node, child, key_byte)\<close>, called on a fresh Node256
  with a full Node48 as source: \<open>while (true)\<close> copies until 48 children are copied and
  returns the key byte where it stopped; reading \<open>child_indices\<close> past key byte 255
  leaves the array. The slots after that key byte are then set to null.
\<close>

function populate256_copy :: "store \<Rightarrow> addr \<Rightarrow> addr \<Rightarrow> nat \<Rightarrow> nat \<Rightarrow> (store \<times> nat) option" where
  "populate256_copy h self src children_copied i =
     (if \<not> i < 256 then None
      else do {
        s \<leftarrow> get48 h src;
        n \<leftarrow> get256 h self;
        let children_i = child_indices s ! i;
        if children_i = empty_child
        then populate256_copy (h(self \<mapsto> Node256 (n\<lparr>children256 := (children256 n)[i := nullptr]\<rparr>)))
               self src children_copied (i + 1)
        else (if \<not> unat children_i < capacity48 then None
              else do {
                let n1 = n\<lparr>children256 := (children256 n)[i := children48 s ! unat children_i]\<rparr>;
                h' \<leftarrow> reparent (h(self \<mapsto> Node256 n1)) (tagged_self256 self)
                       (children256 n1 ! i) (of_nat i);
                if children_copied + 1 = capacity48 then Some (h', i)
                else populate256_copy h' self src (children_copied + 1) (i + 1)
              })
      })"
  by pat_completeness auto
termination
  by (relation "measure (\<lambda>(h, self, src, children_copied, i). 256 - i)") auto

declare populate256_copy.simps [simp del]

definition populate256 :: "store \<Rightarrow> addr \<Rightarrow> addr \<Rightarrow> addr \<Rightarrow> u8 \<Rightarrow> (store \<times> iterator) option" where
  "populate256 h self src child key_byte = do {
     s \<leftarrow> get48 h src;
     n \<leftarrow> get256 h self;
     _ \<leftarrow> assert_that (is_full48 s);
     _ \<leftarrow> assert_that (is_min_size256 n);
     (h1, i) \<leftarrow> populate256_copy h self src 0 0;
     n1 \<leftarrow> get256 h1 self;
     let n2 = n1\<lparr>children256 := fill (children256 n1) (i + 1) capacity256 nullptr\<rparr>;
     _ \<leftarrow> assert_that (children256 n2 ! unat key_byte = nullptr);
     let n3 = n2\<lparr>children256 := (children256 n2)[unat key_byte := create child LEAF]\<rparr>;
     Some (h1(self \<mapsto> Node256 n3), Iterator (children256 n3 ! unat key_byte) key_byte (tagged_self256 self))
   }"

text \<open>
  The children of a source node that are not leaves are nodes of the store, and none of
  them is at one of the addresses \<open>A\<close> (the node under construction and its source).
\<close>

definition kids_ok :: "store \<Rightarrow> addr set \<Rightarrow> node_ptr list \<Rightarrow> bool" where
  "kids_ok h A cs \<longleftrightarrow> (\<forall>c \<in> set cs. tag c \<noteq> LEAF \<longrightarrow> get c \<notin> A \<and> h (get c) \<noteq> None)"

definition example4_full :: inode4 where
  "example4_full = \<lparr>prefix = [7], parent_ptr = nullptr, pos_in_parent = 0, children_count = 4,
                     keys4 = [0x10, 0x20, 0x30, 0x40],
                     children4 = [NodePtr 8 LEAF, NodePtr 16 LEAF, NodePtr 24 LEAF, NodePtr 32 LEAF]\<rparr>"

definition example16_full :: inode16 where
  "example16_full = \<lparr>prefix = [], parent_ptr = nullptr, pos_in_parent = 0, children_count = 16,
                      keys16 = [1, 2, 3, 4, 5, 6, 7, 8, 9, 10, 11, 12, 13, 14, 15, 16],
                      children16 = replicate 16 (NodePtr 8 LEAF)\<rparr>"

definition example48_min :: inode48 where
  "example48_min = \<lparr>prefix = [], parent_ptr = nullptr, pos_in_parent = 0, children_count = 17,
                     child_indices = map of_nat [0..<17] @ replicate 239 0xFF,
                     children48 = map (\<lambda>s. NodePtr (8 * (s + 1)) LEAF) [0..<17] @ replicate 31 nullptr\<rparr>"

definition example256_min :: inode256 where
  "example256_min = \<lparr>prefix = [], parent_ptr = nullptr, pos_in_parent = 0, children_count = 49,
                      children256 = replicate 49 (NodePtr 8 LEAF) @ replicate 207 nullptr\<rparr>"

section \<open>Properties\<close>

subsection \<open>Lists\<close>

lemma count_update:
  assumes "i < length xs"
  shows "length (filter P (xs[i := v])) + (if P (xs ! i) then 1 else 0)
         = length (filter P xs) + (if P v then 1 else 0)"
  using assms
proof (induction xs arbitrary: i)
  case Nil
  then show ?case by simp
next
  case (Cons x xs)
  then show ?case by (cases i) auto
qed

subsection \<open>Bytes\<close>

lemma unat_u8_lt: "unat (x::u8) < 256"
  using unsigned_less [of x, where 'a = nat] by simp

lemma unat_u8_succ: "unat ((x::u8) + 1) = (if unat x = 255 then 0 else unat x + 1)"
  using unat_u8_lt [of x] by (simp add: unat_word_ariths)

lemma unat_u8_pred: "unat ((x::u8) - 1) = (if unat x = 0 then 255 else unat x - 1)"
  using unat_u8_lt [of x] by (auto simp add: unat_sub_if_size word_size simp flip: unat_eq_0)

lemma num_children_alt:
  "num_children n = (if unat (children_count n) = 0 then 256 else unat (children_count n))"
  by (simp add: num_children_def flip: unat_eq_0)

lemma num_children_succ:
  "children_count m = children_count n + 1 \<Longrightarrow> num_children n < 256 \<Longrightarrow>
   num_children m = num_children n + 1"
  by (simp add: num_children_alt unat_u8_succ split: if_splits)

lemma num_children_pred:
  "children_count m = children_count n - 1 \<Longrightarrow> num_children n \<noteq> 1 \<Longrightarrow>
   num_children m + 1 = num_children n"
  using unat_u8_lt [of "children_count n"]
  by (simp add: num_children_alt unat_u8_pred split: if_splits)

subsection \<open>The key word of a Node4 and the SSE2 operations\<close>

lemma and_ff: "(w::u32) AND 0xFF = take_bit 8 w"
proof -
  have "(0xFF::u32) = mask 8" by (simp add: mask_eq_exp_minus_1)
  then show ?thesis by (simp add: take_bit_eq_mask)
qed

lemma bit_u8_lt: "bit (x::u8) n \<Longrightarrow> n < 8"
  using bit_imp_le_length [of x n] by simp

lemma keys_integer_0: "keys_integer ks AND 0xFF = ucast (ks ! 0)"
  unfolding and_ff
  by (rule bit_word_eqI) (auto simp add: keys_integer_def bit_simps dest: bit_u8_lt)

lemma keys_integer_1: "drop_bit 8 (keys_integer ks) AND 0xFF = ucast (ks ! 1)"
  unfolding and_ff
  by (rule bit_word_eqI) (auto simp add: keys_integer_def bit_simps dest: bit_u8_lt)

lemma keys_integer_2: "drop_bit 16 (keys_integer ks) AND 0xFF = ucast (ks ! 2)"
  unfolding and_ff
  by (rule bit_word_eqI) (auto simp add: keys_integer_def bit_simps dest: bit_u8_lt)

lemma keys_integer_3: "drop_bit 24 (keys_integer ks) AND 0xFF = ucast (ks ! 3)"
  unfolding and_ff
  by (rule bit_word_eqI) (auto simp add: keys_integer_def bit_simps dest: bit_u8_lt)

lemma unat_ucast_u8: "unat (ucast (a::u8) :: u32) = unat a"
  using unat_u8_lt [of a] by (simp add: unsigned_ucast_eq take_bit_nat_eq_self)

lemma ucast_u8_less: "(ucast (a::u8) :: u32) < ucast (b::u8) \<longleftrightarrow> a < b"
  by (simp add: word_less_nat_alt unat_ucast_u8)

lemma list4: "length ks = 4 \<Longrightarrow> ks = [ks ! 0, ks ! 1, ks ! 2, ks ! 3]"
  by (rule nth_equalityI) (auto simp add: less_Suc_eq numeral_eq_Suc)

lemma integer_bytes_keys:
  assumes "length ks = 4"
  shows "integer_bytes (keys_integer ks) = ks"
proof -
  have 0: "(ucast (keys_integer ks) :: u8) = ks ! 0"
    by (rule bit_word_eqI) (auto simp add: keys_integer_def bit_simps dest: bit_u8_lt)
  have 1: "(ucast (drop_bit 8 (keys_integer ks)) :: u8) = ks ! 1"
    by (rule bit_word_eqI) (auto simp add: keys_integer_def bit_simps dest: bit_u8_lt)
  have 2: "(ucast (drop_bit 16 (keys_integer ks)) :: u8) = ks ! 2"
    by (rule bit_word_eqI) (auto simp add: keys_integer_def bit_simps dest: bit_u8_lt)
  have 3: "(ucast (drop_bit 24 (keys_integer ks)) :: u8) = ks ! 3"
    by (rule bit_word_eqI) (auto simp add: keys_integer_def bit_simps dest: bit_u8_lt)
  show ?thesis
    unfolding integer_bytes_def 0 1 2 3 using list4 [OF assms] by simp
qed

lemma bit_shift1: "bit (push_bit 1 (w::u32)) (Suc j) \<longleftrightarrow> Suc j < 32 \<and> bit w j"
  unfolding bit_push_bit_iff by (auto simp add: bit_simps dest: bit_imp_le_length)

lemma bit_movemask: "bit (mm_movemask_epi8 xs) i \<longleftrightarrow> i < length xs \<and> i < 32 \<and> bit (xs ! i) 7"
proof (induction xs arbitrary: i)
  case Nil
  then show ?case by simp
next
  case (Cons x xs)
  show ?case
  proof (cases i)
    case 0
    then show ?thesis by (simp add: bit_simps bit_0 even_or_iff)
  next
    case (Suc j)
    have "bit (mm_movemask_epi8 (x # xs)) (Suc j) \<longleftrightarrow> bit (push_bit 1 (mm_movemask_epi8 xs)) (Suc j)"
      unfolding mm_movemask_epi8.simps bit_or_iff by (simp add: bit_Suc)
    then show ?thesis using Cons [of j] Suc unfolding bit_shift1 by auto
  qed
qed

lemma count_mask: "(push_bit n 1 - 1 :: u32) = mask n"
  by (simp add: mask_eq_exp_minus_1)

lemma bit_bit_field:
  "bit (mm_movemask_epi8 xs AND (push_bit n 1 - 1)) i \<longleftrightarrow>
     i < length xs \<and> i < 32 \<and> i < n \<and> bit (xs ! i) 7"
  unfolding count_mask by (auto simp add: bit_and_iff bit_movemask bit_mask_iff)

lemma builtin_ctz_nonzero:
  assumes "w \<noteq> 0"
  shows "bit w (builtin_ctz w)" and "builtin_ctz w < 32" and "\<forall>j < builtin_ctz w. \<not> bit w j"
proof -
  from assms obtain k where k: "bit w k"
    by (auto simp add: bit_eq_iff)
  then have "k < 32" using bit_imp_le_length [of w k] by simp
  with k have "find (bit w) [0..<32] \<noteq> None"
    by (auto simp add: find_None_iff)
  then obtain i where f: "find (bit w) [0..<32] = Some i" by auto
  then have c: "builtin_ctz w = i" by (simp add: builtin_ctz_def)
  from f obtain m where m: "m < 32" "bit w ([0..<32] ! m)" "i = [0..<32] ! m"
      "\<forall>j<m. \<not> bit w ([0..<32] ! j)"
    unfolding find_Some_iff by auto
  then have im: "i = m" by simp
  show "bit w (builtin_ctz w)" using m c im by simp
  show "builtin_ctz w < 32" using m c im by simp
  show "\<forall>j < builtin_ctz w. \<not> bit w j"
  proof (intro allI impI)
    fix j assume "j < builtin_ctz w"
    then have "j < m" using c im by simp
    then have "\<not> bit w ([0..<32] ! j)" using m(4) by blast
    moreover have "[0..<32] ! j = j" using \<open>j < m\<close> m(1) by simp
    ultimately show "\<not> bit w j" by simp
  qed
qed

lemma bit7_cmpeq: "bit (if a = b then 0xFF else 0 :: u8) 7 \<longleftrightarrow> a = b"
  by simp

lemma cmpeq_nth:
  "i < length x \<Longrightarrow> i < length y \<Longrightarrow>
   bit (mm_cmpeq_epi8 x y ! i) 7 \<longleftrightarrow> x ! i = y ! i"
  by (simp add: mm_cmpeq_epi8_def)

lemma cmple_nth:
  "i < length x \<Longrightarrow> i < length y \<Longrightarrow>
   bit (mm_cmple_epu8 x y ! i) 7 \<longleftrightarrow> x ! i \<le> y ! i"
  by (auto simp add: mm_cmple_epu8_def mm_cmpeq_epi8_def mm_max_epu8_def max_def)

subsection \<open>Node256: the counter and the populated slots\<close>

lemma present256_update:
  assumes "i < length (children256 n)"
  shows "present256 (n\<lparr>children_count := c, children256 := (children256 n)[i := v]\<rparr>)
           + (if children256 n ! i \<noteq> nullptr then 1 else 0)
         = present256 n + (if v \<noteq> nullptr then 1 else 0)"
  using count_update [OF assms, of "\<lambda>p. p \<noteq> nullptr" v]
  by (simp add: present256_def)

lemma get256_upd: "get256 (h(a \<mapsto> Node256 n)) a = Some n"
  by (simp add: get256_def)

lemma add256_result:
  assumes "get256 h self = Some n" and "length (children256 n) = 256"
    and "children256 n ! unat b = nullptr"
  shows "add256 h self leaf b =
           Some (h(self \<mapsto> Node256 (n\<lparr>children_count := children_count n + 1,
                    children256 := (children256 n)[unat b := create leaf LEAF]\<rparr>)),
                 Iterator (create leaf LEAF) b (tagged_self256 self))"
  using assms unat_u8_lt [of b]
  by (simp add: add256_def assert_that_def Let_def)

lemma remove256_result:
  assumes "get256 h self = Some n" and "length (children256 n) = 256"
    and "children256 n ! unat b \<noteq> nullptr"
  shows "remove256 h self b =
           Some (h(self \<mapsto> Node256 (n\<lparr>children_count := children_count n - 1,
                    children256 := (children256 n)[unat b := nullptr]\<rparr>)))"
  using assms unat_u8_lt [of b]
  by (simp add: remove256_def assert_that_def)

lemma create_leaf_not_null: "leaf \<noteq> 0 \<Longrightarrow> create leaf LEAF \<noteq> nullptr"
  by (simp add: create_def nullptr_def)

text \<open>
  Claim C7. In a Node256 the number of bytes \<open>b\<close> with \<open>children[b] \<noteq> null\<close> is the value
  \<^verbatim>\<open>num_children()\<close> reports: \<open>children_count\<close> when it is not 0, and 256 when the stored
  byte is 0. \<open>count_ok256\<close> states this correspondence. \<^verbatim>\<open>add\<close> keeps it when
  \<open>children[b]\<close> is null (the leaf handed over is not null), also from 255 to 256
  children, where the byte wraps to 0. \<^verbatim>\<open>remove\<close> keeps it when \<open>children[b]\<close> is not null,
  also from 256 to 255 children. A Node256 holds at least \<^verbatim>\<open>min_size\<close> = 49 children
  (the caller shrinks the node instead of removing below that); the proof uses this only
  to know that the node does not hold exactly one child.
\<close>

theorem node256_presence_count:
  assumes "get256 h self = Some n" and "count_ok256 n"
  shows "(leaf \<noteq> 0 \<and> children256 n ! unat b = nullptr \<longrightarrow>
            (\<exists>h' it n'. add256 h self leaf b = Some (h', it) \<and> get256 h' self = Some n' \<and>
               count_ok256 n' \<and> num_children n' = num_children n + 1 \<and>
               (children_count n = 255 \<longrightarrow> children_count n' = 0 \<and> num_children n' = 256))) \<and>
         (children256 n ! unat b \<noteq> nullptr \<and> min_size256 \<le> num_children n \<longrightarrow>
            (\<exists>h' n'. remove256 h self b = Some h' \<and> get256 h' self = Some n' \<and>
               count_ok256 n' \<and> num_children n' + 1 = num_children n \<and>
               (children_count n = 0 \<longrightarrow> children_count n' = 255 \<and> num_children n' = 255)))"
proof (intro conjI impI)
  from assms(2) have len: "length (children256 n) = 256" and cnt: "present256 n = num_children n"
    by (simp_all add: count_ok256_def)
  have bl: "unat b < length (children256 n)"
    using unat_u8_lt [of b] len by simp
  {
    assume a: "leaf \<noteq> 0 \<and> children256 n ! unat b = nullptr"
    let ?n' = "n\<lparr>children_count := children_count n + 1,
                  children256 := (children256 n)[unat b := create leaf LEAF]\<rparr>"
    have run: "add256 h self leaf b =
                 Some (h(self \<mapsto> Node256 ?n'), Iterator (create leaf LEAF) b (tagged_self256 self))"
      using add256_result [OF assms(1) len] a by simp
    have "present256 ?n' = present256 n + 1"
      using present256_update [OF bl, where c = "children_count n + 1" and v = "create leaf LEAF"] a
      by (simp add: create_leaf_not_null)
    moreover have "present256 n < 256"
    proof -
      have "filter (\<lambda>p. p \<noteq> nullptr) (children256 n) \<noteq> children256 n"
        using a bl by (metis (mono_tags, lifting) filter_id_conv nth_mem)
      then have "length (filter (\<lambda>p. p \<noteq> nullptr) (children256 n)) < length (children256 n)"
        using length_filter_less [of _ "children256 n" "\<lambda>p. p \<noteq> nullptr"] a bl
        by (metis nth_mem)
      then show ?thesis by (simp add: present256_def len)
    qed
    ultimately have ok: "count_ok256 ?n'" and step: "num_children ?n' = num_children n + 1"
      using num_children_succ [of ?n' n] cnt len
      by (simp_all add: count_ok256_def)
    have wrap: "children_count n = 255 \<longrightarrow> children_count ?n' = 0 \<and> num_children ?n' = 256"
      by (simp add: num_children_def)
    show "\<exists>h' it n'. add256 h self leaf b = Some (h', it) \<and> get256 h' self = Some n' \<and>
               count_ok256 n' \<and> num_children n' = num_children n + 1 \<and>
               (children_count n = 255 \<longrightarrow> children_count n' = 0 \<and> num_children n' = 256)"
      using run ok step wrap get256_upd by blast
  }
  {
    assume a: "children256 n ! unat b \<noteq> nullptr \<and> min_size256 \<le> num_children n"
    let ?n' = "n\<lparr>children_count := children_count n - 1,
                  children256 := (children256 n)[unat b := nullptr]\<rparr>"
    have run: "remove256 h self b = Some (h(self \<mapsto> Node256 ?n'))"
      using remove256_result [OF assms(1) len] a by simp
    have p: "present256 ?n' + 1 = present256 n"
      using present256_update [OF bl, where c = "children_count n - 1" and v = nullptr] a by simp
    have ne1: "num_children n \<noteq> 1"
      using a by (simp add: min_size256_def)
    have step: "num_children ?n' + 1 = num_children n"
      using num_children_pred [of ?n' n] ne1 by simp
    have ok: "count_ok256 ?n'"
      using p step cnt len by (simp add: count_ok256_def)
    have m1: "(- 1 :: u8) = 255" by simp
    have wrap: "children_count n = 0 \<longrightarrow> children_count ?n' = 255 \<and> num_children ?n' = 255"
      by (simp add: num_children_def m1)
    show "\<exists>h' n'. remove256 h self b = Some h' \<and> get256 h' self = Some n' \<and>
               count_ok256 n' \<and> num_children n' + 1 = num_children n \<and>
               (children_count n = 0 \<longrightarrow> children_count n' = 255 \<and> num_children n' = 255)"
      using run ok step wrap get256_upd by blast
  }
qed

lemma example256_ok: "count_ok256 example256"
  by (simp add: count_ok256_def example256_def present256_def num_children_def nullptr_def)

theorem node256_presence_count_witness:
  "(\<exists>h' it n'. add256 [1 \<mapsto> Node256 example256] 1 16 255 = Some (h', it) \<and>
       get256 h' 1 = Some n' \<and> count_ok256 n' \<and> children_count n' = 0 \<and> num_children n' = 256) \<and>
   (\<exists>h' n'. remove256 [1 \<mapsto> Node256 example256] 1 3 = Some h' \<and>
       get256 h' 1 = Some n' \<and> count_ok256 n' \<and> num_children n' = 254)"
proof -
  have g: "get256 [1 \<mapsto> Node256 example256] 1 = Some example256"
    by (simp add: get256_def)
  have a: "(16::nat) \<noteq> 0 \<and> children256 example256 ! unat (255::u8) = nullptr"
    by (simp add: example256_def nth_append)
  have r: "children256 example256 ! unat (3::u8) \<noteq> nullptr \<and> min_size256 \<le> num_children example256"
    by (simp add: example256_def nth_append nullptr_def min_size256_def num_children_def)
  have c: "children_count example256 = 255" "num_children example256 = 255"
    by (simp_all add: example256_def num_children_def)
  from node256_presence_count [OF g example256_ok, of 16 255] a c
  have 1: "\<exists>h' it n'. add256 [1 \<mapsto> Node256 example256] 1 16 255 = Some (h', it) \<and>
       get256 h' 1 = Some n' \<and> count_ok256 n' \<and> children_count n' = 0 \<and> num_children n' = 256"
    by auto
  from node256_presence_count [OF g example256_ok, of 16 3] r c
  have 2: "\<exists>h' n'. remove256 [1 \<mapsto> Node256 example256] 1 3 = Some h' \<and>
       get256 h' 1 = Some n' \<and> count_ok256 n' \<and> num_children n' = 254"
    by auto
  from 1 2 show ?thesis by blast
qed

lemma word_zero_bits: "(w::u32) = 0 \<longleftrightarrow> (\<forall>i. \<not> bit w i)"
proof
  assume "w = 0"
  then show "\<forall>i. \<not> bit w i" by simp
next
  assume "\<forall>i. \<not> bit w i"
  then show "w = 0" by (intro bit_word_eqI) simp
qed

lemma zip_take_right: "zip xs ys = zip xs (take (length xs) ys)"
proof (induction xs arbitrary: ys)
  case Nil
  then show ?case by simp
next
  case (Cons x xs)
  then show ?case by (cases ys) auto
qed

lemma simd_find_zero:
  assumes "length reg = 16" and "cc \<le> 16"
  shows "mm_movemask_epi8 (mm_cmpeq_epi8 (mm_set1_epi8 b) reg) AND (push_bit cc 1 - 1) = 0
         \<longleftrightarrow> b \<notin> set (take cc reg)"
proof -
  let ?bf = "mm_movemask_epi8 (mm_cmpeq_epi8 (mm_set1_epi8 b) reg) AND (push_bit cc 1 - 1)"
  have len: "length (mm_cmpeq_epi8 (mm_set1_epi8 b) reg) = 16"
    using assms by (simp add: mm_cmpeq_epi8_def mm_set1_epi8_def)
  have bits: "bit ?bf i \<longleftrightarrow> i < cc \<and> reg ! i = b" for i
    unfolding bit_bit_field using assms len
    by (auto simp add: cmpeq_nth mm_set1_epi8_def)
  have "?bf = 0 \<longleftrightarrow> (\<forall>i. \<not> bit ?bf i)"
    by (rule word_zero_bits)
  also have "\<dots> \<longleftrightarrow> (\<forall>i<cc. reg ! i \<noteq> b)"
    using bits by auto
  also have "\<dots> \<longleftrightarrow> b \<notin> set (take cc reg)"
    using assms by (auto simp add: in_set_conv_nth)
  finally show ?thesis .
qed

lemma simd_find_index:
  assumes "length reg = 16" and "cc \<le> 16"
    and "mm_movemask_epi8 (mm_cmpeq_epi8 (mm_set1_epi8 b) reg) AND (push_bit cc 1 - 1) \<noteq> 0"
  shows "builtin_ctz (mm_movemask_epi8 (mm_cmpeq_epi8 (mm_set1_epi8 b) reg) AND (push_bit cc 1 - 1)) < cc"
    and "reg ! builtin_ctz (mm_movemask_epi8 (mm_cmpeq_epi8 (mm_set1_epi8 b) reg) AND (push_bit cc 1 - 1)) = b"
proof -
  let ?bf = "mm_movemask_epi8 (mm_cmpeq_epi8 (mm_set1_epi8 b) reg) AND (push_bit cc 1 - 1)"
  have len: "length (mm_cmpeq_epi8 (mm_set1_epi8 b) reg) = 16"
    using assms by (simp add: mm_cmpeq_epi8_def mm_set1_epi8_def)
  have bits: "bit ?bf i \<longleftrightarrow> i < cc \<and> reg ! i = b" for i
    unfolding bit_bit_field using assms len
    by (auto simp add: cmpeq_nth mm_set1_epi8_def)
  from builtin_ctz_nonzero(1) [OF assms(3)] bits
  show "builtin_ctz ?bf < cc" and "reg ! builtin_ctz ?bf = b" by auto
qed

lemma sorted_wrt_less_distinct: "sorted_wrt (<) (xs :: u8 list) \<Longrightarrow> distinct xs"
  by (simp add: strict_sorted_iff)

lemma distinct_take_index:
  assumes "distinct (take cc ks)" and "i < cc" and "j < cc" and "cc \<le> length ks" and "ks ! i = ks ! j"
  shows "i = j"
proof -
  have "take cc ks ! i = take cc ks ! j" using assms by simp
  moreover have "i < length (take cc ks)" "j < length (take cc ks)" using assms by simp_all
  ultimately show ?thesis using assms(1) nth_eq_iff_index_eq by blast
qed

lemma map_of_take_zip:
  assumes "distinct (take cc ks)" and "i < cc" and "cc \<le> length ks" and "cc \<le> length cs"
  shows "map_of (zip (take cc ks) cs) (ks ! i) = Some (cs ! i)"
proof -
  have "map_of (zip (take cc ks) (take cc cs)) (take cc ks ! i) = Some (take cc cs ! i)"
    using assms by (intro map_of_zip_nth) auto
  moreover have "zip (take cc ks) (take cc cs) = zip (take cc ks) cs"
    using zip_take_right [of "take cc ks" cs] assms by simp
  ultimately show ?thesis using assms by simp
qed

lemma dom_map_of_take_zip:
  assumes "cc \<le> length ks" and "cc \<le> length cs"
  shows "dom (map_of (zip (take cc ks) cs)) = set (take cc ks)"
proof -
  have "fst ` set (zip (take cc ks) cs) = set (take cc ks)"
  proof -
    have "map fst (zip (take cc ks) cs) = take (min (length (take cc ks)) (length cs)) (take cc ks)"
      by (rule map_fst_zip_take)
    then have "map fst (zip (take cc ks) cs) = take cc ks" using assms by simp
    then show ?thesis by (metis set_map)
  qed
  then show ?thesis by (simp add: dom_map_of_conv_image_fst)
qed

subsection \<open>find_child\<close>

lemma unat_of_nat_u8: "i < 256 \<Longrightarrow> unat (of_nat i :: u8) = i"
  by (simp add: unat_of_nat)

lemma tagged_self_not_null:
  "tagged_self4 a \<noteq> nullptr" "tagged_self16 a \<noteq> nullptr"
  "tagged_self48 a \<noteq> nullptr" "tagged_self256 a \<noteq> nullptr"
  by (simp_all add: tagged_self4_def tagged_self16_def tagged_self48_def tagged_self256_def
      create_def nullptr_def)

lemma iterator_not_empty:
  "p \<noteq> nullptr \<Longrightarrow> Iterator c i p \<noteq> empty_iterator"
  by (simp add: empty_iterator_def)

text \<open>The search of a sorted key array: the register holds the keys in its first bytes.\<close>

lemma find_sorted_array:
  fixes b :: u8 and reg ks :: "u8 list" and cs :: "'a list" and cc :: nat
  assumes reg: "length reg = 16" and ks: "take cc reg = take cc ks" and cc: "cc \<le> 16"
    and len: "cc \<le> length ks" "cc \<le> length cs" and dist: "distinct (take cc ks)"
  defines "bf \<equiv> mm_movemask_epi8 (mm_cmpeq_epi8 (mm_set1_epi8 b) reg) AND (push_bit cc 1 - 1)"
  shows "bf = 0 \<longleftrightarrow> b \<notin> dom (map_of (zip (take cc ks) cs))"
    and "bf \<noteq> 0 \<Longrightarrow> builtin_ctz bf < cc \<and> ks ! builtin_ctz bf = b \<and>
            map_of (zip (take cc ks) cs) b = Some (cs ! builtin_ctz bf)"
proof -
  show "bf = 0 \<longleftrightarrow> b \<notin> dom (map_of (zip (take cc ks) cs))"
    unfolding bf_def simd_find_zero [OF reg cc] dom_map_of_take_zip [OF len] ks ..
  assume nz: "bf \<noteq> 0"
  then have i: "builtin_ctz bf < cc" and r: "reg ! builtin_ctz bf = b"
    using simd_find_index [OF reg cc, of b] by (simp_all add: bf_def)
  have "reg ! builtin_ctz bf = take cc reg ! builtin_ctz bf" using i by simp
  also have "\<dots> = ks ! builtin_ctz bf" unfolding ks using i by simp
  finally have k: "ks ! builtin_ctz bf = b" using r by simp
  from map_of_take_zip [OF dist i len] k
  show "builtin_ctz bf < cc \<and> ks ! builtin_ctz bf = b \<and>
            map_of (zip (take cc ks) cs) b = Some (cs ! builtin_ctz bf)"
    using i by simp
qed

lemma find_child4_wf:
  assumes "node4_wf n"
  shows "\<exists>it. find_child4 n self b = Some it \<and>
           (it \<noteq> empty_iterator \<longleftrightarrow> b \<in> dom (child_map (Node4 n))) \<and>
           (b \<in> dom (child_map (Node4 n)) \<longrightarrow>
              child_map (Node4 n) b = Some (node it) \<and> parent it = tagged_self4 self \<and>
              index_key (Node4 n) (index it) = b \<and> index it < children_count n)"
proof -
  let ?cc = "unat (children_count n)"
  let ?reg = "mm_cvtsi32_si128 (keys_integer (keys4 n))"
  let ?bf = "mm_movemask_epi8 (mm_cmpeq_epi8 (mm_set1_epi8 b) ?reg) AND (push_bit ?cc 1 - 1)"
  from assms have l: "length (keys4 n) = 4" "length (children4 n) = 4" and c: "?cc \<le> 4"
    and d: "distinct (take ?cc (keys4 n))"
    by (simp_all add: node4_wf_def capacity4_def sorted_wrt_less_distinct)
  have reg: "?reg = keys4 n @ replicate 12 0"
    by (simp add: mm_cvtsi32_si128_def integer_bytes_keys l)
  have r16: "length ?reg = 16" unfolding reg using l by simp
  have tk: "take ?cc ?reg = take ?cc (keys4 n)" unfolding reg using l c by simp
  have c16: "?cc \<le> 16" and lk: "?cc \<le> length (keys4 n)" and lc: "?cc \<le> length (children4 n)"
    using c l by simp_all
  note fs = find_sorted_array [OF r16 tk c16 lk lc d, of b]
  show ?thesis
  proof (cases "?bf = 0")
    case True
    then have "find_child4 n self b = Some empty_iterator"
      using c by (simp add: find_child4_def assert_that_def Let_def)
    moreover have "b \<notin> dom (child_map (Node4 n))"
      using fs(1) True by simp
    ultimately show ?thesis by auto
  next
    case False
    let ?i = "builtin_ctz ?bf"
    from fs(2) [OF False] have i: "?i < ?cc" and k: "keys4 n ! ?i = b"
      and m: "map_of (zip (take ?cc (keys4 n)) (children4 n)) b = Some (children4 n ! ?i)"
      by simp_all
    have run: "find_child4 n self b = Some (Iterator (children4 n ! ?i) (of_nat ?i) (tagged_self4 self))"
      using False c i by (simp add: find_child4_def assert_that_def Let_def capacity4_def)
    have u: "unat (of_nat ?i :: u8) = ?i"
      using i c by (simp add: unat_of_nat_u8)
    have lt: "(of_nat ?i :: u8) < children_count n"
      using i u by (simp add: word_less_nat_alt)
    show ?thesis
      using run m k u lt
      by (auto simp add: iterator_not_empty tagged_self_not_null)
  qed
qed

lemma find_child16_wf:
  assumes "node16_wf n"
  shows "\<exists>it. find_child16 n self b = Some it \<and>
           (it \<noteq> empty_iterator \<longleftrightarrow> b \<in> dom (child_map (Node16 n))) \<and>
           (b \<in> dom (child_map (Node16 n)) \<longrightarrow>
              child_map (Node16 n) b = Some (node it) \<and> parent it = tagged_self16 self \<and>
              index_key (Node16 n) (index it) = b \<and> index it < children_count n)"
proof -
  let ?cc = "unat (children_count n)"
  let ?bf = "mm_movemask_epi8 (mm_cmpeq_epi8 (mm_set1_epi8 b) (keys16 n)) AND (push_bit ?cc 1 - 1)"
  from assms have l: "length (keys16 n) = 16" "length (children16 n) = 16" and c: "?cc \<le> 16"
    and d: "distinct (take ?cc (keys16 n))"
    by (simp_all add: node16_wf_def capacity16_def sorted_wrt_less_distinct)
  have lk: "?cc \<le> length (keys16 n)" and lc: "?cc \<le> length (children16 n)"
    using c l by simp_all
  note fs = find_sorted_array [OF l(1) refl c lk lc d, of b]
  show ?thesis
  proof (cases "?bf = 0")
    case True
    then have "find_child16 n self b = Some empty_iterator"
      using c by (simp add: find_child16_def assert_that_def Let_def)
    moreover have "b \<notin> dom (child_map (Node16 n))"
      using fs(1) True by simp
    ultimately show ?thesis by auto
  next
    case False
    let ?i = "builtin_ctz ?bf"
    from fs(2) [OF False] have i: "?i < ?cc" and k: "keys16 n ! ?i = b"
      and m: "map_of (zip (take ?cc (keys16 n)) (children16 n)) b = Some (children16 n ! ?i)"
      by simp_all
    have run: "find_child16 n self b = Some (Iterator (children16 n ! ?i) (of_nat ?i) (tagged_self16 self))"
      using False c i by (simp add: find_child16_def assert_that_def Let_def capacity16_def)
    have u: "unat (of_nat ?i :: u8) = ?i"
      using i c by (simp add: unat_of_nat_u8)
    have lt: "(of_nat ?i :: u8) < children_count n"
      using i u by (simp add: word_less_nat_alt)
    show ?thesis
      using run m k u lt
      by (auto simp add: iterator_not_empty tagged_self_not_null)
  qed
qed

lemma node48_wf_slot:
  fixes b :: u8
  assumes "node48_wf n" and "child_indices n ! unat b \<noteq> empty_child"
  shows "unat (child_indices n ! unat b) < 48"
    and "children48 n ! unat (child_indices n ! unat b) \<noteq> nullptr"
proof -
  have "unat b \<in> set (live_keys48 n)"
    using assms(2) unat_u8_lt [of b] by (simp add: live_keys48_def)
  then have "unat (child_indices n ! unat b) \<in> set (live_slots48 n)"
    by (simp add: live_slots48_def)
  then have "unat (child_indices n ! unat b) \<in> set (used_slots48 n)"
    using assms(1) by (simp add: node48_wf_def)
  then show "unat (child_indices n ! unat b) < 48"
    and "children48 n ! unat (child_indices n ! unat b) \<noteq> nullptr"
    by (simp_all add: used_slots48_def)
qed

lemma find_child48_wf:
  assumes "node48_wf n"
  shows "\<exists>it. find_child48 n self b = Some it \<and>
           (it \<noteq> empty_iterator \<longleftrightarrow> b \<in> dom (child_map (Node48 n))) \<and>
           (b \<in> dom (child_map (Node48 n)) \<longrightarrow>
              child_map (Node48 n) b = Some (node it) \<and> parent it = tagged_self48 self \<and>
              index_key (Node48 n) (index it) = b)"
  using node48_wf_slot [OF assms, of b]
  by (auto simp add: find_child48_def assert_that_def capacity48_def Let_def dom_def
      iterator_not_empty tagged_self_not_null)

lemma find_child256_wf:
  shows "\<exists>it. find_child256 n self b = Some it \<and>
           (it \<noteq> empty_iterator \<longleftrightarrow> b \<in> dom (child_map (Node256 n))) \<and>
           (b \<in> dom (child_map (Node256 n)) \<longrightarrow>
              child_map (Node256 n) b = Some (node it) \<and> parent it = tagged_self256 self \<and>
              index_key (Node256 n) (index it) = b)"
  by (auto simp add: find_child256_def dom_def iterator_not_empty tagged_self_not_null)

lemma tagged_self_get:
  "tag p = I4 \<Longrightarrow> tagged_self4 (get p) = p"
  "tag p = I16 \<Longrightarrow> tagged_self16 (get p) = p"
  "tag p = I48 \<Longrightarrow> tagged_self48 (get p) = p"
  "tag p = I256 \<Longrightarrow> tagged_self256 (get p) = p"
  by (cases p; simp add: tagged_self4_def tagged_self16_def tagged_self48_def tagged_self256_def
      create_def)+

text \<open>
  Claim C1. For a node of any of the four classes in a well-formed state, reached through
  a pointer \<open>p\<close> that carries the tag of its class, and for every byte \<open>b\<close>:
  \<^verbatim>\<open>find_child(p, b)\<close> returns, and the iterator it returns is not the empty one exactly
  when \<open>b\<close> is among the key bytes present in the node; then the iterator's node is the
  child the node holds for \<open>b\<close>, its parent is \<open>p\<close> itself, and its index stands for \<open>b\<close>
  (the position of \<open>b\<close> in the key array for Node4 and Node16, \<open>b\<close> itself for Node48 and
  Node256).
\<close>

theorem find_child_present:
  assumes "h (get p) = Some c" and "tag p = static_type c" and "inode_wf c"
  shows "\<exists>it. find_child h p b = Some it \<and>
           (it \<noteq> empty_iterator \<longleftrightarrow> b \<in> dom (child_map c)) \<and>
           (b \<in> dom (child_map c) \<longrightarrow>
              child_map c b = Some (node it) \<and> parent it = p \<and> index_key c (index it) = b)"
proof (cases c)
  case (Node4 n)
  then have "find_child h p b = find_child4 n (get p) b"
    using assms by (simp add: find_child_def get4_def)
  then show ?thesis
    using find_child4_wf [of n "get p" b] assms Node4 by (auto simp add: tagged_self_get)
next
  case (Node16 n)
  then have "find_child h p b = find_child16 n (get p) b"
    using assms by (simp add: find_child_def get16_def)
  then show ?thesis
    using find_child16_wf [of n "get p" b] assms Node16 by (auto simp add: tagged_self_get)
next
  case (Node48 n)
  then have "find_child h p b = find_child48 n (get p) b"
    using assms by (simp add: find_child_def get48_def)
  then show ?thesis
    using find_child48_wf [of n "get p" b] assms Node48 by (auto simp add: tagged_self_get)
next
  case (Node256 n)
  then have "find_child h p b = find_child256 n (get p) b"
    using assms by (simp add: find_child_def get256_def)
  then show ?thesis
    using find_child256_wf [of n "get p" b] assms Node256 by (auto simp add: tagged_self_get)
qed

lemma example4_wf: "node4_wf example4"
  by (simp add: node4_wf_def example4_def min_size4_def capacity4_def nullptr_def)

theorem find_child_present_witness:
  "\<exists>it. find_child [1 \<mapsto> Node4 example4] (NodePtr 1 I4) 0x20 = Some it \<and>
         it \<noteq> empty_iterator \<and> node it = NodePtr 16 LEAF \<and> parent it = NodePtr 1 I4 \<and>
         keys4 example4 ! unat (index it) = 0x20"
proof -
  have m: "child_map (Node4 example4) 0x20 = Some (NodePtr 16 LEAF)"
    by (simp add: example4_def)
  then have d: "0x20 \<in> dom (child_map (Node4 example4))" by blast
  from find_child_present [of "[1 \<mapsto> Node4 example4]" "NodePtr 1 I4" "Node4 example4" "0x20"]
    example4_wf
  obtain it where "find_child [1 \<mapsto> Node4 example4] (NodePtr 1 I4) 0x20 = Some it"
    and "it \<noteq> empty_iterator \<longleftrightarrow> 0x20 \<in> dom (child_map (Node4 example4))"
    and "0x20 \<in> dom (child_map (Node4 example4)) \<longrightarrow>
           child_map (Node4 example4) 0x20 = Some (node it) \<and> parent it = NodePtr 1 I4 \<and>
           index_key (Node4 example4) (index it) = 0x20"
    by auto
  with m d show ?thesis by auto
qed

subsection \<open>The insert position in a Node16\<close>

lemma adjacent_find_distinct: "distinct xs \<Longrightarrow> adjacent_find xs = length xs"
  by (induction xs rule: adjacent_find.induct) auto

lemma strictly_sorted_is_sorted: "sorted_wrt (<) (xs :: u8 list) \<Longrightarrow> is_sorted xs"
  unfolding is_sorted_def by (rule strict_sorted_imp_sorted)

lemma simd_le_bits:
  assumes "length reg = 16" and "cc \<le> 16"
  shows "bit (mm_movemask_epi8 (mm_cmple_epu8 (mm_set1_epi8 b) reg) AND (push_bit cc 1 - 1)) i
         \<longleftrightarrow> i < cc \<and> b \<le> reg ! i"
proof -
  have len: "length (mm_cmple_epu8 (mm_set1_epi8 b) reg) = 16"
    using assms by (simp add: mm_cmple_epu8_def mm_cmpeq_epi8_def mm_max_epu8_def mm_set1_epi8_def)
  show ?thesis
    unfolding bit_bit_field using assms len
    by (auto simp add: cmple_nth mm_set1_epi8_def)
qed

lemma insert_position16:
  assumes len: "length (keys16 n) = 16"
    and cnt: "unat (children_count n) < 16"
    and srt: "sorted_wrt (<) (take (unat (children_count n)) (keys16 n))"
    and new: "b \<notin> set (take (unat (children_count n)) (keys16 n))"
  shows "\<exists>r. get_sorted_key_array_insert_position n b = Some r \<and>
           (r = children_count n \<or> (r < children_count n \<and> b < keys16 n ! unat r)) \<and>
           (\<forall>j < unat r. keys16 n ! j < b) \<and>
           unat r = length (filter (\<lambda>k. k < b) (take (unat (children_count n)) (keys16 n)))"
proof -
  let ?cc = "unat (children_count n)"
  let ?ks = "keys16 n"
  let ?bf = "mm_movemask_epi8 (mm_cmple_epu8 (mm_set1_epi8 b) ?ks) AND (push_bit ?cc 1 - 1)"
  let ?r = "if ?bf \<noteq> 0 then of_nat (builtin_ctz ?bf) else children_count n"
  have c16: "?cc \<le> 16" using cnt by simp
  have bits: "bit ?bf i \<longleftrightarrow> i < ?cc \<and> b \<le> ?ks ! i" for i
    by (rule simd_le_bits [OF len c16])
  have neq: "?ks ! i \<noteq> b" if "i < ?cc" for i
  proof -
    have "take ?cc ?ks ! i \<in> set (take ?cc ?ks)"
      using that len cnt by (intro nth_mem) simp
    then show ?thesis using new that by auto
  qed
  have a1: "is_sorted (take ?cc ?ks)" using srt by (rule strictly_sorted_is_sorted)
  have a2: "adjacent_find (take ?cc ?ks) \<ge> ?cc"
    using adjacent_find_distinct [of "take ?cc ?ks"] srt len cnt
    by (simp add: strict_sorted_iff)
  have pos: "(?r = children_count n \<or> (?r < children_count n \<and> b < ?ks ! unat ?r)) \<and>
             (\<forall>j < unat ?r. ?ks ! j < b)"
  proof (cases "?bf = 0")
    case True
    then have "\<forall>i. \<not> bit ?bf i" by simp
    then have "\<forall>i < ?cc. \<not> b \<le> ?ks ! i" using bits by blast
    then show ?thesis using True by auto
  next
    case False
    let ?i = "builtin_ctz ?bf"
    from builtin_ctz_nonzero [OF False] bits
    have i: "?i < ?cc" and ge: "b \<le> ?ks ! ?i" and least: "\<forall>j < ?i. \<not> (j < ?cc \<and> b \<le> ?ks ! j)"
      by auto
    have u: "unat (of_nat ?i :: u8) = ?i"
      using i cnt by (simp add: unat_of_nat_u8)
    have "b < ?ks ! ?i" using ge neq [OF i] by simp
    moreover have "(of_nat ?i :: u8) < children_count n"
      using i u by (simp add: word_less_nat_alt)
    moreover have "\<forall>j < ?i. ?ks ! j < b"
      using least i by auto
    ultimately show ?thesis using False u by simp
  qed
  have a3: "?r = children_count n \<or> ?ks ! unat ?r \<noteq> b"
    using pos by auto
  have run: "get_sorted_key_array_insert_position n b = Some ?r"
    using cnt a1 a2 a3
    by (simp add: get_sorted_key_array_insert_position_def assert_that_def Let_def capacity16_def
        del: push_bit_of_1)
  define r where "r = ?r"
  have posr: "r = children_count n \<or> (r < children_count n \<and> b < ?ks ! unat r)"
    and lor: "\<forall>j < unat r. ?ks ! j < b"
    using pos unfolding r_def by blast+
  have rle: "unat r \<le> ?cc"
    using posr by (auto simp add: word_less_nat_alt)
  have count: "unat r = length (filter (\<lambda>k. k < b) (take ?cc ?ks))"
  proof -
    have split: "take ?cc ?ks = take (unat r) ?ks @ drop (unat r) (take ?cc ?ks)"
    proof -
      have "take (unat r) (take ?cc ?ks) = take (unat r) ?ks"
        using rle by (simp add: min_def)
      then show ?thesis
        using append_take_drop_id [of "unat r" "take ?cc ?ks"] by simp
    qed
    have lo: "filter (\<lambda>k. k < b) (take (unat r) ?ks) = take (unat r) ?ks"
    proof (rule filter_True, clarify)
      fix k assume "k \<in> set (take (unat r) ?ks)"
      then obtain j where "j < unat r" "k = ?ks ! j"
        by (auto simp add: in_set_conv_nth)
      then show "k < b" using lor by blast
    qed
    have hi: "filter (\<lambda>k. k < b) (drop (unat r) (take ?cc ?ks)) = []"
    proof (rule filter_False, clarify)
      fix k assume k: "k \<in> set (drop (unat r) (take ?cc ?ks))" and lt: "k < b"
      from k obtain j where j: "j < ?cc - unat r" "k = take ?cc ?ks ! (unat r + j)"
        using len cnt by (auto simp add: in_set_conv_nth)
      then have nr: "unat r < ?cc" by simp
      then have "r \<noteq> children_count n" by auto
      then have br: "b < ?ks ! unat r" using posr by blast
      have "take ?cc ?ks ! unat r \<le> take ?cc ?ks ! (unat r + j)"
        using strict_sorted_imp_sorted [OF srt] j(1) len cnt
        by (intro sorted_nth_mono) simp_all
      then have "?ks ! unat r \<le> k" using j nr by simp
      then show False using br lt by simp
    qed
    have "length (filter (\<lambda>k. k < b) (take ?cc ?ks)) =
          length (filter (\<lambda>k. k < b) (take (unat r) ?ks)) +
          length (filter (\<lambda>k. k < b) (drop (unat r) (take ?cc ?ks)))"
      by (subst split) simp
    then show ?thesis unfolding lo hi using rle len cnt by simp
  qed
  have "get_sorted_key_array_insert_position n b = Some r"
    using run unfolding r_def .
  then show ?thesis using posr lor count by blast
qed

text \<open>
  Claim C4. For a Node16 with fewer than 16 children whose first \<open>children_count\<close> keys are
  strictly increasing (so without duplicates) and do not contain \<open>b\<close>,
  \<^verbatim>\<open>get_sorted_key_array_insert_position(b)\<close> returns a position \<open>r\<close> that is either
  \<open>children_count\<close> or an index below it with \<open>keys[r] > b\<close>; every key before \<open>r\<close> is
  strictly less than \<open>b\<close> (so \<open>r\<close> is the least index whose key is greater than \<open>b\<close>, when
  there is one), and \<open>r\<close> is the number of keys less than \<open>b\<close>.
\<close>

theorem insert_position_sorted:
  assumes len: "length (keys16 n) = 16"
    and cnt: "unat (children_count n) < 16"
    and srt: "sorted_wrt (<) (take (unat (children_count n)) (keys16 n))"
    and new: "b \<notin> set (take (unat (children_count n)) (keys16 n))"
  shows "\<exists>r. get_sorted_key_array_insert_position n b = Some r \<and>
           (r = children_count n \<or> (r < children_count n \<and> b < keys16 n ! unat r)) \<and>
           (\<forall>j < unat r. keys16 n ! j < b) \<and>
           unat r = length (filter (\<lambda>k. k < b) (take (unat (children_count n)) (keys16 n)))"
  using assms by (rule insert_position16)

theorem insert_position_sorted_witness:
  "\<exists>r. get_sorted_key_array_insert_position example16 8 = Some r \<and> unat r = 3 \<and>
        8 < keys16 example16 ! unat r"
proof -
  have "\<exists>r. get_sorted_key_array_insert_position example16 8 = Some r \<and>
           (r = children_count example16 \<or> (r < children_count example16 \<and> 8 < keys16 example16 ! unat r)) \<and>
           (\<forall>j < unat r. keys16 example16 ! j < 8) \<and>
           unat r = length (filter (\<lambda>k. k < 8) (take (unat (children_count example16)) (keys16 example16)))"
    by (rule insert_position_sorted) (simp_all add: example16_def)
  then obtain r where r: "get_sorted_key_array_insert_position example16 8 = Some r"
    "r = children_count example16 \<or> (r < children_count example16 \<and> 8 < keys16 example16 ! unat r)"
    "unat r = length (filter (\<lambda>k. k < 8) (take (unat (children_count example16)) (keys16 example16)))"
    by blast
  from r(3) have 3: "unat r = 3" by (simp add: example16_def)
  then have "r \<noteq> children_count example16" by (auto simp add: example16_def)
  with r 3 show ?thesis by blast
qed

subsection \<open>Node48: the free-slot scan\<close>

lemma add48_scan_finds:
  assumes "i \<le> s" and "s < 48" and "cs ! s = nullptr" and "\<forall>j. i \<le> j \<and> j < s \<longrightarrow> cs ! j \<noteq> nullptr"
  shows "add48_scan cs i = Some s"
  using assms
proof (induction cs i rule: add48_scan.induct)
  case (1 cs i)
  show ?case
  proof (cases "i = s")
    case True
    then show ?thesis using "1.prems" by (simp add: add48_scan.simps capacity48_def)
  next
    case False
    then have lt: "i < s" using "1.prems" by simp
    then have nn: "cs ! i \<noteq> nullptr" using "1.prems" by simp
    have "add48_scan cs (i + 1) = Some s"
      using "1.prems" lt nn by (intro "1.IH") (auto simp add: capacity48_def)
    then show ?thesis using lt nn "1.prems" by (subst add48_scan.simps) (simp add: capacity48_def)
  qed
qed

lemma first_null_exists:
  assumes "\<exists>s < m. cs ! s = (nullptr :: node_ptr)"
  shows "\<exists>s < m. cs ! s = nullptr \<and> (\<forall>j < s. cs ! j \<noteq> nullptr)"
proof -
  let ?s = "LEAST s. s < m \<and> cs ! s = nullptr"
  from assms have "?s < m \<and> cs ! ?s = nullptr" by (rule LeastI_ex)
  moreover have "\<forall>j < ?s. cs ! j \<noteq> nullptr"
  proof (intro allI impI)
    fix j assume j: "j < ?s"
    then have "\<not> (j < m \<and> cs ! j = nullptr)" by (rule not_less_Least)
    moreover have "j < m" using j \<open>?s < m \<and> cs ! ?s = nullptr\<close> by simp
    ultimately show "cs ! j \<noteq> nullptr" by simp
  qed
  ultimately show ?thesis by blast
qed

lemma filter_all_length:
  "length (filter P xs) = length xs \<Longrightarrow> x \<in> set xs \<Longrightarrow> P x"
  using length_filter_less [of x xs P] by auto

lemma used_slots48_count:
  assumes "node48_wf n"
  shows "length (used_slots48 n) = unat (children_count n)"
proof -
  have eq: "set (used_slots48 n) = set (live_slots48 n)" and d: "distinct (live_slots48 n)"
    using assms by (simp_all add: node48_wf_def)
  have "distinct (used_slots48 n)" by (simp add: used_slots48_def)
  then have "length (used_slots48 n) = card (set (used_slots48 n))"
    by (simp only: distinct_card)
  also have "\<dots> = card (set (live_slots48 n))" by (simp only: eq)
  also have "\<dots> = length (live_slots48 n)" using d by (simp only: distinct_card)
  also have "\<dots> = unat (children_count n)"
    using assms by (simp add: node48_wf_def live_slots48_def)
  finally show ?thesis .
qed

lemma node48_has_null_slot:
  assumes "node48_wf n" and "unat (children_count n) < 48"
  shows "\<exists>s < 48. children48 n ! s = nullptr"
proof (rule ccontr)
  assume "\<not> (\<exists>s < 48. children48 n ! s = nullptr)"
  then have "filter (\<lambda>s. children48 n ! s \<noteq> nullptr) [0..<48] = [0..<48]"
    by (intro filter_True) auto
  then have "length (used_slots48 n) = 48" by (simp add: used_slots48_def)
  then show False using used_slots48_count [OF assms(1)] assms(2) by simp
qed

lemma node48_full_no_null_slot:
  assumes "node48_wf n" and "unat (children_count n) = 48" and "s < 48"
  shows "children48 n ! s \<noteq> nullptr"
proof -
  have "length (filter (\<lambda>s. children48 n ! s \<noteq> nullptr) [0..<48]) = length [0..<48]"
    using used_slots48_count [OF assms(1)] assms(2) by (simp add: used_slots48_def)
  then show ?thesis
    using filter_all_length [of "\<lambda>s. children48 n ! s \<noteq> nullptr" "[0..<48]" s] assms(3) by simp
qed

lemma get48_upd: "get48 (h(a \<mapsto> Node48 n)) a = Some n"
  by (simp add: get48_def)

lemma add48_result:
  assumes "get48 h self = Some n" and "child_indices n ! unat b = empty_child"
    and "s < 48" and "children48 n ! s = nullptr" and "\<forall>j < s. children48 n ! j \<noteq> nullptr"
    and "length (children48 n) = 48"
  shows "add48 h self leaf b =
           Some (h(self \<mapsto> Node48 (n\<lparr>child_indices := (child_indices n)[unat b := of_nat s],
                                        children48 := (children48 n)[s := create leaf LEAF],
                                        children_count := children_count n + 1\<rparr>)),
                 Iterator (create leaf LEAF) b (tagged_self48 self))"
proof -
  have "add48_scan (children48 n) 0 = Some s"
    using assms by (intro add48_scan_finds) auto
  then show ?thesis
    using assms by (simp add: add48_def assert_that_def Let_def)
qed

lemma remove48_result:
  assumes "get48 h self = Some n" and "node48_wf n" and "child_indices n ! unat k \<noteq> empty_child"
  shows "remove48 h self k =
           Some (h(self \<mapsto> Node48 (n\<lparr>children48 := (children48 n)[unat (child_indices n ! unat k) := nullptr],
                                        child_indices := (child_indices n)[unat k := empty_child],
                                        children_count := children_count n - 1\<rparr>)))"
  using assms node48_wf_slot [OF assms(2,3)]
  by (simp add: remove48_def verify_remove_preconditions_def assert_that_def Let_def capacity48_def)

text \<open>
  Claim C2. For a well-formed Node48 with fewer than 48 children and
  \<open>child_indices[b] = 0xFF\<close>, \<^verbatim>\<open>add(leaf, b)\<close> stores the leaf in the null slot \<open>s\<close> of
  lowest index, sets \<open>child_indices[b] = s\<close>, increments \<open>children_count\<close>, and returns an
  iterator whose index is the key byte \<open>b\<close> (not \<open>s\<close>). And from a full Node48, removing
  the key \<open>k\<close> and then adding a key byte that has no child puts the new child in the slot
  that \<open>k\<close> occupied (slot 7 when that was 7).
\<close>

theorem node48_add_lowest_free_slot:
  assumes g: "get48 h self = Some n" and wf: "node48_wf n"
  shows "(unat (children_count n) < capacity48 \<and> child_indices n ! unat b = empty_child \<longrightarrow>
           (\<exists>s h' it n'. add48 h self leaf b = Some (h', it) \<and> get48 h' self = Some n' \<and>
              s < 48 \<and> children48 n ! s = nullptr \<and> (\<forall>j < s. children48 n ! j \<noteq> nullptr) \<and>
              children48 n' = (children48 n)[s := create leaf LEAF] \<and>
              child_indices n' = (child_indices n)[unat b := of_nat s] \<and>
              unat (child_indices n' ! unat b) = s \<and>
              children_count n' = children_count n + 1 \<and>
              index it = b \<and> node it = create leaf LEAF \<and> parent it = tagged_self48 self)) \<and>
         (is_full48 n \<and> child_indices n ! unat k \<noteq> empty_child \<and>
            (b = k \<or> child_indices n ! unat b = empty_child) \<longrightarrow>
           (\<exists>h1 h2 it n2. remove48 h self k = Some h1 \<and> add48 h1 self leaf b = Some (h2, it) \<and>
              get48 h2 self = Some n2 \<and>
              child_indices n2 ! unat b = child_indices n ! unat k \<and>
              children48 n2 ! unat (child_indices n ! unat k) = create leaf LEAF \<and>
              children_count n2 = children_count n))"
proof (intro conjI impI)
  from wf have l: "length (child_indices n) = 256" "length (children48 n) = 48"
    by (simp_all add: node48_wf_def)
  have bl: "unat b < length (child_indices n)" using l unat_u8_lt [of b] by simp
  {
    assume a: "unat (children_count n) < capacity48 \<and> child_indices n ! unat b = empty_child"
    then have "\<exists>s < 48. children48 n ! s = nullptr"
      using node48_has_null_slot [OF wf] by (simp add: capacity48_def)
    then obtain s where s: "s < 48" "children48 n ! s = nullptr" "\<forall>j < s. children48 n ! j \<noteq> nullptr"
      using first_null_exists by blast
    let ?n' = "n\<lparr>child_indices := (child_indices n)[unat b := of_nat s],
                  children48 := (children48 n)[s := create leaf LEAF],
                  children_count := children_count n + 1\<rparr>"
    let ?it = "Iterator (create leaf LEAF) b (tagged_self48 self)"
    have run: "add48 h self leaf b = Some (h(self \<mapsto> Node48 ?n'), ?it)"
      using add48_result [OF g _ s l(2), of b leaf] a by simp
    have g': "get48 (h(self \<mapsto> Node48 ?n')) self = Some ?n'" by (rule get48_upd)
    have u: "unat (child_indices ?n' ! unat b) = s"
      using s(1) bl by (simp add: unat_of_nat_u8)
    have f: "children48 ?n' = (children48 n)[s := create leaf LEAF]"
      "child_indices ?n' = (child_indices n)[unat b := of_nat s]"
      "children_count ?n' = children_count n + 1"
      "index ?it = b" "node ?it = create leaf LEAF" "parent ?it = tagged_self48 self"
      by simp_all
    show "\<exists>s h' it n'. add48 h self leaf b = Some (h', it) \<and> get48 h' self = Some n' \<and>
              s < 48 \<and> children48 n ! s = nullptr \<and> (\<forall>j < s. children48 n ! j \<noteq> nullptr) \<and>
              children48 n' = (children48 n)[s := create leaf LEAF] \<and>
              child_indices n' = (child_indices n)[unat b := of_nat s] \<and>
              unat (child_indices n' ! unat b) = s \<and>
              children_count n' = children_count n + 1 \<and>
              index it = b \<and> node it = create leaf LEAF \<and> parent it = tagged_self48 self"
      using run g' s u f by blast
  }
  {
    assume a: "is_full48 n \<and> child_indices n ! unat k \<noteq> empty_child \<and>
            (b = k \<or> child_indices n ! unat b = empty_child)"
    let ?s = "unat (child_indices n ! unat k)"
    let ?n1 = "n\<lparr>children48 := (children48 n)[?s := nullptr],
                  child_indices := (child_indices n)[unat k := empty_child],
                  children_count := children_count n - 1\<rparr>"
    have kl: "unat k < length (child_indices n)" using l unat_u8_lt [of k] by simp
    have s48: "?s < 48" using node48_wf_slot [OF wf] a by blast
    have full: "unat (children_count n) = 48" using a by (simp add: is_full48_def capacity48_def)
    have r: "remove48 h self k = Some (h(self \<mapsto> Node48 ?n1))"
      using remove48_result [OF g wf] a by blast
    have g1: "get48 (h(self \<mapsto> Node48 ?n1)) self = Some ?n1" by (rule get48_upd)
    have e1: "child_indices ?n1 ! unat b = empty_child"
      using a kl by (auto simp add: nth_list_update)
    have z1: "children48 ?n1 ! ?s = nullptr" using s48 l by simp
    have nz1: "\<forall>j < ?s. children48 ?n1 ! j \<noteq> nullptr"
      using node48_full_no_null_slot [OF wf full] s48 by (simp add: nth_list_update)
    have l1: "length (children48 ?n1) = 48" using l by simp
    let ?n2 = "?n1\<lparr>child_indices := (child_indices ?n1)[unat b := of_nat ?s],
                  children48 := (children48 ?n1)[?s := create leaf LEAF],
                  children_count := children_count ?n1 + 1\<rparr>"
    let ?h1 = "h(self \<mapsto> Node48 ?n1)"
    let ?it = "Iterator (create leaf LEAF) b (tagged_self48 self)"
    have run: "add48 ?h1 self leaf b = Some (?h1(self \<mapsto> Node48 ?n2), ?it)"
      by (rule add48_result [OF g1 e1 s48 z1 nz1 l1])
    have g2: "get48 (?h1(self \<mapsto> Node48 ?n2)) self = Some ?n2" by (rule get48_upd)
    have f: "child_indices ?n2 ! unat b = child_indices n ! unat k"
      "children48 ?n2 ! ?s = create leaf LEAF" "children_count ?n2 = children_count n"
      using s48 l bl by simp_all
    show "\<exists>h1 h2 it n2. remove48 h self k = Some h1 \<and> add48 h1 self leaf b = Some (h2, it) \<and>
              get48 h2 self = Some n2 \<and>
              child_indices n2 ! unat b = child_indices n ! unat k \<and>
              children48 n2 ! unat (child_indices n ! unat k) = create leaf LEAF \<and>
              children_count n2 = children_count n"
      using r run g2 f by blast
  }
qed

lemma example48_wf: "node48_wf example48"
  by code_simp

lemma example48_free_wf: "node48_wf example48_free"
  by code_simp

theorem node48_add_lowest_free_slot_witness:
  "(\<exists>h' it n'. add48 [1 \<mapsto> Node48 example48_free] 1 808 0xAA = Some (h', it) \<and>
       get48 h' 1 = Some n' \<and> child_indices n' ! 0xAA = 7 \<and>
       children48 n' ! 7 = create 808 LEAF \<and> children_count n' = 48 \<and> index it = 0xAA) \<and>
   (\<exists>h1 h2 it n2. remove48 [1 \<mapsto> Node48 example48] 1 0x55 = Some h1 \<and>
       add48 h1 1 808 0xAA = Some (h2, it) \<and> get48 h2 1 = Some n2 \<and>
       child_indices n2 ! 0xAA = 7 \<and> children48 n2 ! 7 = create 808 LEAF)"
proof -
  have g: "get48 [1 \<mapsto> Node48 example48] 1 = Some example48"
    and gf: "get48 [1 \<mapsto> Node48 example48_free] 1 = Some example48_free"
    by (simp_all add: get48_def)
  have a: "unat (children_count example48_free) < capacity48 \<and>
           child_indices example48_free ! unat (0xAA :: u8) = empty_child"
    by (simp add: example48_free_def example48_def capacity48_def empty_child_def nth_append)
  have z: "children48 example48_free ! 7 = nullptr"
    by (simp add: example48_free_def example48_def)
  from node48_add_lowest_free_slot [OF gf example48_free_wf, of "0xAA" 808 0] a
  obtain s h' it n' where 1: "add48 [1 \<mapsto> Node48 example48_free] 1 808 0xAA = Some (h', it)"
      "get48 h' 1 = Some n'" "s < 48" "children48 example48_free ! s = nullptr"
      "\<forall>j < s. children48 example48_free ! j \<noteq> nullptr"
      "children48 n' = (children48 example48_free)[s := create 808 LEAF]"
      "child_indices n' = (child_indices example48_free)[unat (0xAA :: u8) := of_nat s]"
      "children_count n' = children_count example48_free + 1" "index it = 0xAA"
    by blast
  have s7: "s = 7"
  proof (rule ccontr)
    assume "s \<noteq> 7"
    then have "s < 7 \<or> (7 < s \<and> s < 48)" using 1(3) by auto
    then show False
    proof
      assume "s < 7"
      then have "s \<in> {0, 1, 2, 3, 4, 5, 6}" by auto
      then show False using 1(4)
        by (auto simp add: example48_free_def example48_def nullptr_def)
    next
      assume "7 < s \<and> s < 48"
      then show False using 1(5) z by blast
    qed
  qed
  have p1: "child_indices n' ! 0xAA = 7 \<and> children48 n' ! 7 = create 808 LEAF \<and>
            children_count n' = 48"
    unfolding 1(6,7,8) s7 by (simp add: example48_free_def example48_def)
  have b: "is_full48 example48 \<and> child_indices example48 ! unat (0x55 :: u8) \<noteq> empty_child \<and>
           ((0xAA :: u8) = 0x55 \<or> child_indices example48 ! unat (0xAA :: u8) = empty_child)"
    by (simp add: example48_def is_full48_def capacity48_def empty_child_def nth_append)
  have k: "child_indices example48 ! unat (0x55 :: u8) = 7"
    by (simp add: example48_def nth_append)
  from node48_add_lowest_free_slot [OF g example48_wf, of "0xAA" 808 "0x55"] b
  obtain h1 h2 it2 n2 where 2: "remove48 [1 \<mapsto> Node48 example48] 1 0x55 = Some h1"
      "add48 h1 1 808 0xAA = Some (h2, it2)" "get48 h2 1 = Some n2"
      "child_indices n2 ! unat (0xAA :: u8) = child_indices example48 ! unat (0x55 :: u8)"
      "children48 n2 ! unat (child_indices example48 ! unat (0x55 :: u8)) = create 808 LEAF"
    by blast
  have p2: "child_indices n2 ! 0xAA = 7 \<and> children48 n2 ! 7 = create 808 LEAF"
    using 2(4,5) unfolding k by simp
  show ?thesis using 1(1,2,9) p1 2(1,2,3) p2 by blast
qed

subsection \<open>leftmost_child and leftmost_leaf\<close>

lemma least_from_exists:
  fixes start m :: nat
  assumes "\<exists>b. start \<le> b \<and> b < m \<and> P b"
  shows "\<exists>b. start \<le> b \<and> b < m \<and> P b \<and> (\<forall>j. start \<le> j \<and> j < b \<longrightarrow> \<not> P j)"
proof -
  let ?b = "LEAST b. start \<le> b \<and> b < m \<and> P b"
  from assms obtain b0 where "start \<le> b0 \<and> b0 < m \<and> P b0" by blast
  then have b: "start \<le> ?b \<and> ?b < m \<and> P ?b"
    by (rule LeastI [of "\<lambda>b. start \<le> b \<and> b < m \<and> P b" b0])
  have "\<forall>j. start \<le> j \<and> j < ?b \<longrightarrow> \<not> P j"
  proof (intro allI impI)
    fix j assume j: "start \<le> j \<and> j < ?b"
    then have "\<not> (start \<le> j \<and> j < m \<and> P j)"
      using not_less_Least [of j "\<lambda>b. start \<le> b \<and> b < m \<and> P b"] by blast
    moreover have "j < m" using j b by simp
    ultimately show "\<not> P j" using j by simp
  qed
  with b show ?thesis by blast
qed

lemma leftmost_child48_loop_finds:
  assumes "kb \<le> b" and "b < 256" and "child_indices n ! b \<noteq> empty_child"
    and "\<forall>j. kb \<le> j \<and> j < b \<longrightarrow> child_indices n ! j = empty_child"
    and "unat (child_indices n ! b) < 48"
  shows "leftmost_child48_loop n self kb =
           Some (Iterator (children48 n ! unat (child_indices n ! b)) (of_nat b) (tagged_self48 self))"
  using assms
proof (induction n self kb rule: leftmost_child48_loop.induct)
  case (1 n self kb)
  show ?case
  proof (cases "kb = b")
    case True
    then show ?thesis using "1.prems"
      by (subst leftmost_child48_loop.simps) (simp add: capacity48_def Let_def)
  next
    case False
    then have lt: "kb < b" using "1.prems" by simp
    then have e: "child_indices n ! kb = empty_child" using "1.prems" by simp
    have "leftmost_child48_loop n self (kb + 1) =
           Some (Iterator (children48 n ! unat (child_indices n ! b)) (of_nat b) (tagged_self48 self))"
      using "1.prems" lt e by (intro "1.IH") auto
    then show ?thesis using lt e "1.prems"
      by (subst leftmost_child48_loop.simps) (simp add: Let_def)
  qed
qed

lemma leftmost_child256_finds:
  assumes "kb \<le> b" and "b < 256" and "children256 n ! b \<noteq> nullptr"
    and "\<forall>j. kb \<le> j \<and> j < b \<longrightarrow> children256 n ! j = nullptr"
  shows "leftmost_child256 n self kb =
           Some (Iterator (children256 n ! b) (of_nat b) (tagged_self256 self))"
  using assms
proof (induction n self kb rule: leftmost_child256.induct)
  case (1 n self kb)
  show ?case
  proof (cases "kb = b")
    case True
    then show ?thesis using "1.prems"
      by (subst leftmost_child256.simps) simp
  next
    case False
    then have lt: "kb < b" using "1.prems" by simp
    then have e: "children256 n ! kb = nullptr" using "1.prems" by simp
    have "leftmost_child256 n self (kb + 1) =
           Some (Iterator (children256 n ! b) (of_nat b) (tagged_self256 self))"
      using "1.prems" lt e by (intro "1.IH") auto
    then show ?thesis using lt e "1.prems"
      by (subst leftmost_child256.simps) simp
  qed
qed

lemma leftmost_child_wf:
  assumes h: "h (get p) = Some c" and t: "tag p = static_type c" and wf: "inode_wf c"
    and hc: "has_child_from c start"
  shows "\<exists>it. leftmost_child h p start = Some it \<and> parent it = p \<and>
           node it \<in> set (children_list c)"
proof (cases c)
  case (Node4 n)
  then have s: "start < unat (children_count n)" and c: "unat (children_count n) \<le> 4"
    and l: "length (children4 n) = 4"
    using hc wf by (simp_all add: node4_wf_def capacity4_def)
  have "leftmost_child h p start = leftmost_child4 n (get p) start"
    using Node4 h t by (simp add: leftmost_child_def get4_def)
  also have "\<dots> = Some (Iterator (children4 n ! start) (of_nat start) (tagged_self4 (get p)))"
    using s c by (simp add: leftmost_child4_def capacity4_def)
  finally have "leftmost_child h p start =
      Some (Iterator (children4 n ! start) (of_nat start) (tagged_self4 (get p)))" .
  moreover have "children4 n ! start \<in> set (take (unat (children_count n)) (children4 n))"
    using s c l by (auto simp add: in_set_conv_nth intro!: exI [of _ start])
  ultimately show ?thesis using Node4 t by (simp add: tagged_self_get)
next
  case (Node16 n)
  then have s: "start < unat (children_count n)" and c: "unat (children_count n) \<le> 16"
    and l: "length (children16 n) = 16"
    using hc wf by (simp_all add: node16_wf_def capacity16_def)
  have "leftmost_child h p start = leftmost_child16 n (get p) start"
    using Node16 h t by (simp add: leftmost_child_def get16_def)
  also have "\<dots> = Some (Iterator (children16 n ! start) (of_nat start) (tagged_self16 (get p)))"
    using s c by (simp add: leftmost_child16_def capacity16_def)
  finally have "leftmost_child h p start =
      Some (Iterator (children16 n ! start) (of_nat start) (tagged_self16 (get p)))" .
  moreover have "children16 n ! start \<in> set (take (unat (children_count n)) (children16 n))"
    using s c l by (auto simp add: in_set_conv_nth intro!: exI [of _ start])
  ultimately show ?thesis using Node16 t by (simp add: tagged_self_get)
next
  case (Node48 n)
  with hc have "\<exists>b. start \<le> b \<and> b < 256 \<and> child_indices n ! b \<noteq> empty_child"
    by (auto simp add: list_ex_iff live_keys48_def)
  from least_from_exists [OF this]
  obtain b where b: "start \<le> b" "b < 256" "child_indices n ! b \<noteq> empty_child"
    "\<forall>j. start \<le> j \<and> j < b \<longrightarrow> child_indices n ! j = empty_child"
    by auto
  have ub: "unat (of_nat b :: u8) = b" using b(2) by (simp add: unat_of_nat_u8)
  have s48: "unat (child_indices n ! b) < 48"
    using node48_wf_slot(1) [of n "of_nat b"] wf Node48 b(3) ub by simp
  have "leftmost_child h p start = leftmost_child48 n (get p) start"
    using Node48 h t by (simp add: leftmost_child_def get48_def)
  also have "\<dots> = leftmost_child48_loop n (get p) start"
    using b by (simp add: leftmost_child48_def)
  also have "\<dots> = Some (Iterator (children48 n ! unat (child_indices n ! b)) (of_nat b)
                      (tagged_self48 (get p)))"
    by (rule leftmost_child48_loop_finds [OF b(1,2,3,4) s48])
  finally have "leftmost_child h p start =
      Some (Iterator (children48 n ! unat (child_indices n ! b)) (of_nat b) (tagged_self48 (get p)))" .
  moreover have "b \<in> set (live_keys48 n)" using b by (simp add: live_keys48_def)
  ultimately show ?thesis using Node48 t by (auto simp add: tagged_self_get)
next
  case (Node256 n)
  with hc have "\<exists>b. start \<le> b \<and> b < 256 \<and> children256 n ! b \<noteq> nullptr"
    by (auto simp add: list_ex_iff)
  from least_from_exists [OF this]
  obtain b where b: "start \<le> b" "b < 256" "children256 n ! b \<noteq> nullptr"
    "\<forall>j. start \<le> j \<and> j < b \<longrightarrow> children256 n ! j = nullptr"
    by auto
  have l: "length (children256 n) = 256"
    using wf Node256 by (simp add: node256_wf_def count_ok256_def)
  have "leftmost_child h p start = leftmost_child256 n (get p) start"
    using Node256 h t by (simp add: leftmost_child_def get256_def)
  also have "\<dots> = Some (Iterator (children256 n ! b) (of_nat b) (tagged_self256 (get p)))"
    by (rule leftmost_child256_finds [OF b])
  finally have "leftmost_child h p start =
      Some (Iterator (children256 n ! b) (of_nat b) (tagged_self256 (get p)))" .
  moreover have "children256 n ! b \<in> set (children256 n)" using b l by simp
  ultimately show ?thesis using Node256 t b by (auto simp add: tagged_self_get)
qed

lemma wf_has_child_from_0:
  assumes "inode_wf c"
  shows "has_child_from c 0"
proof (cases c)
  case (Node4 n)
  then show ?thesis using assms by (simp add: node4_wf_def min_size4_def)
next
  case (Node16 n)
  then show ?thesis using assms by (simp add: node16_wf_def min_size16_def)
next
  case (Node48 n)
  then have "length (live_keys48 n) \<noteq> 0" using assms by (simp add: node48_wf_def min_size48_def)
  then obtain b where "b \<in> set (live_keys48 n)" by (cases "live_keys48 n") auto
  then show ?thesis using Node48 by (auto simp add: list_ex_iff)
next
  case (Node256 n)
  then have l: "length (children256 n) = 256" and "present256 n \<noteq> 0"
    using assms by (auto simp add: node256_wf_def count_ok256_def min_size256_def)
  then have "filter (\<lambda>p. p \<noteq> nullptr) (children256 n) \<noteq> []"
    by (simp add: present256_def)
  then obtain q where "q \<in> set (children256 n)" "q \<noteq> nullptr"
    by (auto simp add: filter_empty_conv)
  then obtain b where "b < 256" "children256 n ! b \<noteq> nullptr"
    using l by (auto simp add: in_set_conv_nth)
  then show ?thesis using Node256 by (auto simp add: list_ex_iff)
qed

lemma tree_wf_leaf: "tag p = LEAF \<Longrightarrow> tree_wf h k p \<Longrightarrow> p \<noteq> nullptr"
  by (cases k) auto

lemma tree_wf_inode:
  assumes "tree_wf h k p" and "tag p \<noteq> LEAF"
  obtains k' c where "k = Suc k'" and "h (get p) = Some c" and "tag p = static_type c"
    and "inode_wf c" and "list_all (tree_wf h k') (children_list c)"
  using assms by (cases k) (auto split: option.splits)

subsection \<open>The leftmost child by key order\<close>

lemma all_bytes_set: "set (map of_nat [0..<256] :: u8 list) = UNIV"
proof -
  have "x \<in> set (map of_nat [0..<256] :: u8 list)" for x :: u8
  proof -
    have "unat x \<in> set [0..<256]" using unat_u8_lt [of x] by simp
    then have "of_nat (unat x) \<in> (of_nat ` set [0..<256] :: u8 set)" by (rule imageI)
    then show ?thesis by simp
  qed
  then show ?thesis by blast
qed

lemma all_bytes_sorted: "sorted_wrt (<) (map of_nat [0..<256] :: u8 list)"
proof -
  have "sorted_wrt (\<lambda>x y. (of_nat x :: u8) < of_nat y) [0..<256]"
  proof (rule sorted_wrt_mono_rel [of "[0..<256]" "(<)"])
    fix x y :: nat
    assume "x \<in> set [0..<256]" "y \<in> set [0..<256]" "x < y"
    then show "(of_nat x :: u8) < of_nat y"
      by (simp add: word_less_nat_alt unat_of_nat_u8)
  next
    show "sorted_wrt (<) [0..<256]" by simp
  qed
  then show ?thesis by (simp only: sorted_wrt_map)
qed

lemma filter_sorted_bytes:
  assumes "sorted_wrt (<) (xs :: u8 list)"
  shows "filter (\<lambda>b. b \<in> set xs) (map of_nat [0..<256]) = xs"
proof (rule strict_sorted_equal [OF assms])
  show "sorted_wrt (<) (filter (\<lambda>b. b \<in> set xs) (map of_nat [0..<256] :: u8 list))"
    using all_bytes_sorted by (rule sorted_wrt_filter)
  show "set (filter (\<lambda>b. b \<in> set xs) (map of_nat [0..<256] :: u8 list)) = set xs"
    unfolding set_filter all_bytes_set by simp
qed

lemma sorted_node_keys:
  fixes ks :: "u8 list"
  assumes "cc \<le> length ks" and "cc \<le> length cs" and "sorted_wrt (<) (take cc ks)"
  shows "filter (\<lambda>b. map_of (zip (take cc ks) cs) b \<noteq> None) (map of_nat [0..<256]) = take cc ks"
proof -
  have "(map_of (zip (take cc ks) cs) b \<noteq> None) = (b \<in> set (take cc ks))" for b
    using dom_map_of_take_zip [OF assms(1,2)] by (auto simp add: dom_def)
  then show ?thesis using filter_sorted_bytes [OF assms(3)] by simp
qed

lemma sorted_node_child:
  fixes ks :: "u8 list"
  assumes "cc \<le> length ks" and "cc \<le> length cs" and "sorted_wrt (<) (take cc ks)" and "i < cc"
  shows "map_of (zip (take cc ks) cs) (ks ! i) = Some (cs ! i)"
proof -
  have l: "length (take cc ks) = length (take cc cs)" using assms(1,2) by simp
  have d: "distinct (take cc ks)" using assms(3) by (simp add: strict_sorted_iff)
  have i: "i < length (take cc cs)" using assms(2,4) by simp
  have "zip (take cc ks) cs = zip (take cc ks) (take cc cs)"
    using zip_take_right [of "take cc ks" cs] assms(1) by simp
  then have "map_of (zip (take cc ks) cs) (take cc ks ! i) = Some (take cc cs ! i)"
    using map_of_zip_nth [OF l d i] by simp
  then show ?thesis using assms(4) by simp
qed

lemma find_filter: "find P (filter Q xs) = find (\<lambda>x. Q x \<and> P x) xs"
  by (induction xs) auto

lemma find_bytes_least:
  assumes "b < 256" and "P (of_nat b)" and "\<forall>j < b. \<not> P (of_nat j)"
  shows "find P (map of_nat [0..<256] :: u8 list) = Some (of_nat b)"
  unfolding find_Some_iff
  using assms by (intro exI [of _ b]) simp

lemma leftmost_of_bytes:
  fixes b start :: nat
  assumes "start \<le> b" and "b < 256" and "Q (of_nat b)"
    and "\<forall>j. start \<le> j \<and> j < b \<longrightarrow> \<not> Q (of_nat j)"
  shows "find (\<lambda>x. start \<le> unat x) (filter Q (map of_nat [0..<256] :: u8 list)) = Some (of_nat b)"
  unfolding find_filter
proof (rule find_bytes_least [OF assms(2)])
  show "Q (of_nat b) \<and> start \<le> unat (of_nat b :: u8)"
    using assms(1,2,3) by (simp add: unat_of_nat_u8)
  show "\<forall>j < b. \<not> (Q (of_nat j) \<and> start \<le> unat (of_nat j :: u8))"
    using assms(2,4) by (auto simp add: unat_of_nat_u8)
qed

lemma leftmost_child_spec:
  assumes h: "h (get p) = Some c" and t: "tag p = static_type c" and wf: "inode_wf c"
    and hc: "has_child_from c start"
  shows "leftmost_child h p start = leftmost_of c p start"
proof (cases c)
  case (Node4 n)
  then have s: "start < unat (children_count n)" and c: "unat (children_count n) \<le> 4"
    and l: "length (keys4 n) = 4" "length (children4 n) = 4"
    and srt: "sorted_wrt (<) (take (unat (children_count n)) (keys4 n))"
    using hc wf by (simp_all add: node4_wf_def capacity4_def)
  have "leftmost_child h p start = leftmost_child4 n (get p) start"
    using Node4 h t by (simp add: leftmost_child_def get4_def)
  also have "\<dots> = Some (Iterator (children4 n ! start) (of_nat start) p)"
    using s c Node4 t by (simp add: leftmost_child4_def capacity4_def tagged_self_get)
  finally have lhs: "leftmost_child h p start = Some (Iterator (children4 n ! start) (of_nat start) p)" .
  have kp: "keys_present (Node4 n) = take (unat (children_count n)) (keys4 n)"
    unfolding keys_present_def child_map.simps
    using c l srt by (intro sorted_node_keys) simp_all
  have cm: "child_map (Node4 n) (keys4 n ! start) = Some (children4 n ! start)"
    unfolding child_map.simps using c l srt s by (intro sorted_node_child) simp_all
  have "leftmost_of c p start = Some (Iterator (children4 n ! start) (of_nat start) p)"
    unfolding leftmost_of_def Node4 leftmost_key.simps kp using s c l cm by simp
  with lhs show ?thesis by simp
next
  case (Node16 n)
  then have s: "start < unat (children_count n)" and c: "unat (children_count n) \<le> 16"
    and l: "length (keys16 n) = 16" "length (children16 n) = 16"
    and srt: "sorted_wrt (<) (take (unat (children_count n)) (keys16 n))"
    using hc wf by (simp_all add: node16_wf_def capacity16_def)
  have "leftmost_child h p start = leftmost_child16 n (get p) start"
    using Node16 h t by (simp add: leftmost_child_def get16_def)
  also have "\<dots> = Some (Iterator (children16 n ! start) (of_nat start) p)"
    using s c Node16 t by (simp add: leftmost_child16_def capacity16_def tagged_self_get)
  finally have lhs: "leftmost_child h p start = Some (Iterator (children16 n ! start) (of_nat start) p)" .
  have kp: "keys_present (Node16 n) = take (unat (children_count n)) (keys16 n)"
    unfolding keys_present_def child_map.simps
    using c l srt by (intro sorted_node_keys) simp_all
  have cm: "child_map (Node16 n) (keys16 n ! start) = Some (children16 n ! start)"
    unfolding child_map.simps using c l srt s by (intro sorted_node_child) simp_all
  have "leftmost_of c p start = Some (Iterator (children16 n ! start) (of_nat start) p)"
    unfolding leftmost_of_def Node16 leftmost_key.simps kp using s c l cm by simp
  with lhs show ?thesis by simp
next
  case (Node48 n)
  with hc have "\<exists>b. start \<le> b \<and> b < 256 \<and> child_indices n ! b \<noteq> empty_child"
    by (auto simp add: list_ex_iff live_keys48_def)
  from least_from_exists [OF this]
  obtain b where b: "start \<le> b" "b < 256" "child_indices n ! b \<noteq> empty_child"
    "\<forall>j. start \<le> j \<and> j < b \<longrightarrow> child_indices n ! j = empty_child"
    by auto
  have ub: "unat (of_nat b :: u8) = b" using b(2) by (simp add: unat_of_nat_u8)
  have s48: "unat (child_indices n ! b) < 48"
    using node48_wf_slot(1) [of n "of_nat b"] wf Node48 b(3) ub by simp
  have "leftmost_child h p start = leftmost_child48 n (get p) start"
    using Node48 h t by (simp add: leftmost_child_def get48_def)
  also have "\<dots> = leftmost_child48_loop n (get p) start"
    using b by (simp add: leftmost_child48_def)
  also have "\<dots> = Some (Iterator (children48 n ! unat (child_indices n ! b)) (of_nat b)
                      (tagged_self48 (get p)))"
    by (rule leftmost_child48_loop_finds [OF b(1,2,3,4) s48])
  finally have lhs: "leftmost_child h p start =
      Some (Iterator (children48 n ! unat (child_indices n ! b)) (of_nat b) p)"
    using Node48 t by (simp add: tagged_self_get)
  have q: "child_map (Node48 n) (of_nat b) \<noteq> None" using b(3) ub by simp
  have nq: "\<forall>j. start \<le> j \<and> j < b \<longrightarrow> \<not> child_map (Node48 n) (of_nat j) \<noteq> None"
    using b(2,4) by (simp add: unat_of_nat_u8)
  have "find (\<lambda>x. start \<le> unat x) (keys_present (Node48 n)) = Some (of_nat b)"
    unfolding keys_present_def by (rule leftmost_of_bytes [OF b(1,2) q nq])
  then have "leftmost_of c p start =
      Some (Iterator (children48 n ! unat (child_indices n ! b)) (of_nat b) p)"
    unfolding leftmost_of_def Node48 leftmost_key.simps using b(3) ub by simp
  with lhs show ?thesis by simp
next
  case (Node256 n)
  with hc have "\<exists>b. start \<le> b \<and> b < 256 \<and> children256 n ! b \<noteq> nullptr"
    by (auto simp add: list_ex_iff)
  from least_from_exists [OF this]
  obtain b where b: "start \<le> b" "b < 256" "children256 n ! b \<noteq> nullptr"
    "\<forall>j. start \<le> j \<and> j < b \<longrightarrow> children256 n ! j = nullptr"
    by auto
  have ub: "unat (of_nat b :: u8) = b" using b(2) by (simp add: unat_of_nat_u8)
  have "leftmost_child h p start = leftmost_child256 n (get p) start"
    using Node256 h t by (simp add: leftmost_child_def get256_def)
  also have "\<dots> = Some (Iterator (children256 n ! b) (of_nat b) (tagged_self256 (get p)))"
    by (rule leftmost_child256_finds [OF b])
  finally have lhs: "leftmost_child h p start = Some (Iterator (children256 n ! b) (of_nat b) p)"
    using Node256 t by (simp add: tagged_self_get)
  have q: "child_map (Node256 n) (of_nat b) \<noteq> None" using b(3) ub by simp
  have nq: "\<forall>j. start \<le> j \<and> j < b \<longrightarrow> \<not> child_map (Node256 n) (of_nat j) \<noteq> None"
    using b(2,4) by (simp add: unat_of_nat_u8)
  have "find (\<lambda>x. start \<le> unat x) (keys_present (Node256 n)) = Some (of_nat b)"
    unfolding keys_present_def by (rule leftmost_of_bytes [OF b(1,2) q nq])
  then have "leftmost_of c p start = Some (Iterator (children256 n ! b) (of_nat b) p)"
    unfolding leftmost_of_def Node256 leftmost_key.simps using b(3) ub by simp
  with lhs show ?thesis by simp
qed

lemma leftmost_descent_unique:
  assumes "leftmost_descent h pos start r" and "leftmost_descent h pos start r'"
  shows "r' = r"
  using assms
proof (induction arbitrary: r' rule: leftmost_descent.induct)
  case (arrived pos h start)
  from arrived.prems arrived.hyps show ?case
    by (cases rule: leftmost_descent.cases) simp_all
next
  case (hop pos h c start pos' r)
  from hop.prems show ?case
  proof (cases rule: leftmost_descent.cases)
    case arrived
    then show ?thesis using hop.hyps(1) by simp
  next
    case (hop c2 pos2)
    then have "pos2 = pos'" using hop.hyps(2,3) by simp
    then show ?thesis using hop(4) hop.IH by simp
  qed
qed

lemma leftmost_leaf_loop_wf:
  assumes "tree_wf h k (node pos)"
    and "tag (node pos) \<noteq> LEAF \<longrightarrow> (\<exists>c. h (get (node pos)) = Some c \<and> has_child_from c start)"
  shows "\<exists>r. leftmost_leaf_loop h pos start = Some r \<and> tag (node r) = LEAF \<and>
           node r \<noteq> nullptr \<and> leftmost_descent h pos start r"
  using assms
proof (induction k arbitrary: pos start)
  case 0
  then have "tag (node pos) = LEAF" "node pos \<noteq> nullptr" by simp_all
  moreover from this have "leftmost_leaf_loop h pos start = Some pos"
    by (subst leftmost_leaf_loop.simps) simp
  ultimately show ?case using arrived by blast
next
  case (Suc k)
  show ?case
  proof (cases "tag (node pos) = LEAF")
    case True
    then have "node pos \<noteq> nullptr" using Suc.prems(1) by (rule tree_wf_leaf)
    moreover from True have "leftmost_leaf_loop h pos start = Some pos"
      by (subst leftmost_leaf_loop.simps) simp
    ultimately show ?thesis using True arrived by blast
  next
    case False
    with Suc.prems(1) obtain c where c: "h (get (node pos)) = Some c"
      "tag (node pos) = static_type c" "inode_wf c" "list_all (tree_wf h k) (children_list c)"
      by (auto split: option.splits)
    have "has_child_from c start" using Suc.prems(2) False c(1) by auto
    from leftmost_child_wf [of h "node pos" c start, OF c(1,2,3) this]
    obtain it where it: "leftmost_child h (node pos) start = Some it" "parent it = node pos"
      "node it \<in> set (children_list c)"
      by blast
    have sub: "tree_wf h k (node it)"
      using c(4) it(3) by (simp add: list_all_iff)
    have nxt: "tag (node it) \<noteq> LEAF \<longrightarrow> (\<exists>c'. h (get (node it)) = Some c' \<and> has_child_from c' 0)"
    proof
      assume "tag (node it) \<noteq> LEAF"
      with sub obtain k' c' where "h (get (node it)) = Some c'" "inode_wf c'"
        by (rule tree_wf_inode)
      then show "\<exists>c'. h (get (node it)) = Some c' \<and> has_child_from c' 0"
        using wf_has_child_from_0 by blast
    qed
    from Suc.IH [OF sub nxt]
    obtain r where r: "leftmost_leaf_loop h it 0 = Some r" "tag (node r) = LEAF"
      "node r \<noteq> nullptr" "leftmost_descent h it 0 r"
      by blast
    have sp: "leftmost_of c (node pos) start = Some it"
      using leftmost_child_spec [where h = h and p = "node pos" and c = c and start = start,
          OF c(1,2,3) \<open>has_child_from c start\<close>] it(1) by simp
    have "leftmost_leaf_loop h pos start = Some r"
      using False it(1) r(1) by (subst leftmost_leaf_loop.simps) simp
    moreover have "leftmost_descent h pos start r"
      using False c(1) sp r(4) by (rule hop)
    ultimately show ?thesis using r by blast
  qed
qed

text \<open>
  Claim C8. For a finite well-formed tree (of any height \<open>k\<close>) below the pointer \<open>p\<close>, where
  the node at \<open>p\<close> has a child at or after \<open>start\<close> (every node below has one from 0, being
  well-formed), \<^verbatim>\<open>leftmost_leaf(p, start)\<close> returns: the loop ends, no call inside it
  fails, and the iterator returned points to a leaf that is not null. The leaf is the
  end of the leftmost descent: at the first hop the child of the key byte of rank
  \<open>start\<close> (Node4, Node16) or of the least key byte present that is at least \<open>start\<close>
  (Node48, Node256), at every later hop the child of the least key byte present. That
  descent has no other end, so the iterator returned is the only one it allows.
\<close>

theorem leftmost_leaf_returns_leaf:
  assumes "tree_wf h k p"
    and "tag p \<noteq> LEAF \<longrightarrow> (\<exists>c. h (get p) = Some c \<and> has_child_from c start)"
  shows "\<exists>r. leftmost_leaf h p start = Some r \<and> tag (node r) = LEAF \<and> node r \<noteq> nullptr \<and>
           leftmost_descent h (iterator2 p 0) start r \<and>
           (\<forall>r'. leftmost_descent h (iterator2 p 0) start r' \<longrightarrow> r' = r)"
proof -
  have "\<exists>r. leftmost_leaf_loop h (iterator2 p 0) start = Some r \<and> tag (node r) = LEAF \<and>
           node r \<noteq> nullptr \<and> leftmost_descent h (iterator2 p 0) start r"
    using assms by (intro leftmost_leaf_loop_wf [of h k]) (simp_all add: iterator2_def)
  then obtain r where r: "leftmost_leaf_loop h (iterator2 p 0) start = Some r"
    "tag (node r) = LEAF" "node r \<noteq> nullptr" "leftmost_descent h (iterator2 p 0) start r"
    by blast
  have "\<forall>r'. leftmost_descent h (iterator2 p 0) start r' \<longrightarrow> r' = r"
    using leftmost_descent_unique [OF r(4)] by blast
  with r show ?thesis unfolding leftmost_leaf_def by blast
qed

lemma example_tree_wf: "tree_wf example_tree (Suc (Suc 0)) (NodePtr 64 I4)"
  by (simp add: example_tree_def example4_root_def example4_inner_def node4_wf_def
      min_size4_def capacity4_def nullptr_def)

theorem leftmost_leaf_returns_leaf_witness:
  "leftmost_leaf example_tree (NodePtr 64 I4) 1 = Some (Iterator (NodePtr 24 LEAF) 0 (NodePtr 128 I4)) \<and>
   leftmost_descent example_tree (iterator2 (NodePtr 64 I4) 0) 1
     (Iterator (NodePtr 24 LEAF) 0 (NodePtr 128 I4)) \<and>
   leftmost_of (Node4 example4_root) (NodePtr 64 I4) 1 =
     Some (Iterator (NodePtr 128 I4) 1 (NodePtr 64 I4)) \<and>
   leftmost_of (Node4 example4_inner) (NodePtr 128 I4) 0 =
     Some (Iterator (NodePtr 24 LEAF) 0 (NodePtr 128 I4))"
proof -
  have hc: "tag (NodePtr 64 I4) \<noteq> LEAF \<longrightarrow>
        (\<exists>c. example_tree (get (NodePtr 64 I4)) = Some c \<and> has_child_from c 1)"
    by (simp add: example_tree_def example4_root_def)
  from leftmost_leaf_returns_leaf [OF example_tree_wf hc]
  obtain r where r: "leftmost_leaf example_tree (NodePtr 64 I4) 1 = Some r"
    "leftmost_descent example_tree (iterator2 (NodePtr 64 I4) 0) 1 r"
    and u: "\<forall>r'. leftmost_descent example_tree (iterator2 (NodePtr 64 I4) 0) 1 r' \<longrightarrow> r' = r"
    by blast
  have k1: "keys_present (Node4 example4_root) = [0x10, 0x20, 0x30]"
    unfolding keys_present_def child_map.simps
    using sorted_node_keys [of 3 "keys4 example4_root" "children4 example4_root"]
    by (simp add: example4_root_def)
  have k2: "keys_present (Node4 example4_inner) = [0x41, 0x42]"
    unfolding keys_present_def child_map.simps
    using sorted_node_keys [of 2 "keys4 example4_inner" "children4 example4_inner"]
    by (simp add: example4_inner_def)
  have 1: "leftmost_of (Node4 example4_root) (NodePtr 64 I4) 1 =
     Some (Iterator (NodePtr 128 I4) 1 (NodePtr 64 I4))"
    unfolding leftmost_of_def leftmost_key.simps k1 by (simp add: example4_root_def)
  have 2: "leftmost_of (Node4 example4_inner) (NodePtr 128 I4) 0 =
     Some (Iterator (NodePtr 24 LEAF) 0 (NodePtr 128 I4))"
    unfolding leftmost_of_def leftmost_key.simps k2 by (simp add: example4_inner_def)
  have d2: "leftmost_descent example_tree (Iterator (NodePtr 24 LEAF) 0 (NodePtr 128 I4)) 0
      (Iterator (NodePtr 24 LEAF) 0 (NodePtr 128 I4))"
    by (rule arrived) simp
  have d1: "leftmost_descent example_tree (Iterator (NodePtr 128 I4) 1 (NodePtr 64 I4)) 0
      (Iterator (NodePtr 24 LEAF) 0 (NodePtr 128 I4))"
    by (rule hop [where c = "Node4 example4_inner" and pos' = "Iterator (NodePtr 24 LEAF) 0 (NodePtr 128 I4)"])
      (simp_all add: 2 d2, simp add: example_tree_def)
  have d0: "leftmost_descent example_tree (iterator2 (NodePtr 64 I4) 0) 1
      (Iterator (NodePtr 24 LEAF) 0 (NodePtr 128 I4))"
  proof (rule hop [where c = "Node4 example4_root" and pos' = "Iterator (NodePtr 128 I4) 1 (NodePtr 64 I4)"])
    show "tag (node (iterator2 (NodePtr 64 I4) 0)) \<noteq> LEAF" by (simp add: iterator2_def)
    show "example_tree (get (node (iterator2 (NodePtr 64 I4) 0))) = Some (Node4 example4_root)"
      by (simp add: iterator2_def example_tree_def)
    show "leftmost_of (Node4 example4_root) (node (iterator2 (NodePtr 64 I4) 0)) 1 =
          Some (Iterator (NodePtr 128 I4) 1 (NodePtr 64 I4))"
      using 1 by (simp add: iterator2_def)
    show "leftmost_descent example_tree (Iterator (NodePtr 128 I4) 1 (NodePtr 64 I4)) 0
      (Iterator (NodePtr 24 LEAF) 0 (NodePtr 128 I4))" by (rule d1)
  qed
  from u d0 have "r = Iterator (NodePtr 24 LEAF) 0 (NodePtr 128 I4)" by blast
  with r 1 2 show ?thesis by simp
qed

subsection \<open>replace\<close>

lemma reparent_leaf: "tag child = LEAF \<Longrightarrow> reparent h self child i = Some h"
  by (simp add: reparent_def)

lemma reparent_inode:
  "tag child \<noteq> LEAF \<Longrightarrow> h (get child) = Some c \<Longrightarrow>
   reparent h self child i = Some (h(get child \<mapsto> assign_parent self i c))"
  by (simp add: reparent_def)

lemma assign_parent_parent: "node_parent (assign_parent p i c) = p"
  by (cases c) (simp_all add: assign_parent_impl_def)

lemma assign_parent_pos: "node_pos_in_parent (assign_parent p i c) = i"
  by (cases c) (simp_all add: assign_parent_impl_def)

lemma assign_parent_prefix: "node_prefix (assign_parent p i c) = node_prefix c"
  by (cases c) (simp_all add: assign_parent_impl_def)

lemma assign_parent_count: "node_children_count (assign_parent p i c) = node_children_count c"
  by (cases c) (simp_all add: assign_parent_impl_def)

lemma assign_parent_child_map: "child_map (assign_parent p i c) = child_map c"
  by (cases c) (auto simp add: assign_parent_impl_def fun_eq_iff)

lemma assign_parent_static_type: "static_type (assign_parent p i c) = static_type c"
  by (cases c) (simp_all add: assign_parent_impl_def)

lemma get4_upd: "get4 (h(a \<mapsto> Node4 n)) a = Some n"
  by (simp add: get4_def)

lemma get16_upd: "get16 (h(a \<mapsto> Node16 n)) a = Some n"
  by (simp add: get16_def)

lemma get4_upd_other: "a \<noteq> b \<Longrightarrow> get4 (h(b \<mapsto> c)) a = get4 h a"
  by (simp add: get4_def)

lemma get16_upd_other: "a \<noteq> b \<Longrightarrow> get16 (h(b \<mapsto> c)) a = get16 h a"
  by (simp add: get16_def)

lemma get48_upd_other: "a \<noteq> b \<Longrightarrow> get48 (h(b \<mapsto> c)) a = get48 h a"
  by (simp add: get48_def)

lemma get256_upd_other: "a \<noteq> b \<Longrightarrow> get256 (h(b \<mapsto> c)) a = get256 h a"
  by (simp add: get256_def)

lemma replaced_reparent:
  assumes "tag child \<noteq> LEAF \<longrightarrow> get child \<noteq> self \<and> h (get child) \<noteq> None"
  shows "\<exists>h'. reparent (h(self \<mapsto> new)) self_ptr child i = Some h' \<and>
              replaced h h' self new self_ptr child i"
proof (cases "tag child = LEAF")
  case True
  then show ?thesis by (simp add: reparent_leaf replaced_def)
next
  case False
  with assms obtain c where c: "h (get child) = Some c" and ne: "get child \<noteq> self" by auto
  then have "(h(self \<mapsto> new)) (get child) = Some c" by simp
  from reparent_inode [where h = "h(self \<mapsto> new)" and child = child and c = c, OF False this]
  show ?thesis using c ne False by (auto simp add: replaced_def)
qed

lemma replace4_frame:
  assumes "get4 h self = Some n" and "unat (index pos) < 4"
    and "parent pos = tagged_self4 self" and "node pos = children4 n ! unat (index pos)"
    and "tag child \<noteq> LEAF \<longrightarrow> get child \<noteq> self \<and> h (get child) \<noteq> None"
  shows "\<exists>h'. replace4 h self pos child = Some h' \<and>
           replaced h h' self (Node4 (n\<lparr>children4 := (children4 n)[unat (index pos) := child]\<rparr>))
             (tagged_self4 self) child (index pos)"
proof -
  let ?new = "Node4 (n\<lparr>children4 := (children4 n)[unat (index pos) := child]\<rparr>)"
  from replaced_reparent [where h = h and child = child and self = self, OF assms(5)]
  obtain h' where h': "reparent (h(self \<mapsto> ?new)) (tagged_self4 self) child (index pos) = Some h'"
    "replaced h h' self ?new (tagged_self4 self) child (index pos)"
    by blast
  have "replace4 h self pos child = reparent (h(self \<mapsto> ?new)) (tagged_self4 self) child (index pos)"
    using assms(1-4) by (simp add: replace4_def assert_that_def capacity4_def Let_def)
  with h' show ?thesis by simp
qed

lemma replace16_frame:
  assumes "get16 h self = Some n" and "unat (index pos) < 16" and "length (children16 n) = 16"
    and "parent pos = tagged_self16 self" and "node pos = children16 n ! unat (index pos)"
    and "tag child \<noteq> LEAF \<longrightarrow> get child \<noteq> self \<and> h (get child) \<noteq> None"
  shows "\<exists>h'. replace16 h self pos child = Some h' \<and>
           replaced h h' self (Node16 (n\<lparr>children16 := (children16 n)[unat (index pos) := child]\<rparr>))
             (tagged_self16 self) child (index pos)"
proof -
  let ?new = "Node16 (n\<lparr>children16 := (children16 n)[unat (index pos) := child]\<rparr>)"
  from replaced_reparent [where h = h and child = child and self = self, OF assms(6)]
  obtain h' where h': "reparent (h(self \<mapsto> ?new)) (tagged_self16 self) child (index pos) = Some h'"
    "replaced h h' self ?new (tagged_self16 self) child (index pos)"
    by blast
  have "replace16 h self pos child = reparent (h(self \<mapsto> ?new)) (tagged_self16 self) child (index pos)"
    using assms(1-5) by (simp add: replace16_def assert_that_def capacity16_def Let_def)
  with h' show ?thesis by simp
qed

lemma replace48_frame:
  assumes "get48 h self = Some n" and "unat (child_indices n ! unat (index pos)) < 48"
    and "length (children48 n) = 48"
    and "parent pos = tagged_self48 self"
    and "node pos = children48 n ! unat (child_indices n ! unat (index pos))"
    and "tag child \<noteq> LEAF \<longrightarrow> get child \<noteq> self \<and> h (get child) \<noteq> None"
  shows "\<exists>h'. replace48 h self pos child = Some h' \<and>
           replaced h h' self
             (Node48 (n\<lparr>children48 := (children48 n)[unat (child_indices n ! unat (index pos)) := child]\<rparr>))
             (tagged_self48 self) child (index pos)"
proof -
  let ?new = "Node48 (n\<lparr>children48 := (children48 n)[unat (child_indices n ! unat (index pos)) := child]\<rparr>)"
  from replaced_reparent [where h = h and child = child and self = self, OF assms(6)]
  obtain h' where h': "reparent (h(self \<mapsto> ?new)) (tagged_self48 self) child (index pos) = Some h'"
    "replaced h h' self ?new (tagged_self48 self) child (index pos)"
    by blast
  have "replace48 h self pos child = reparent (h(self \<mapsto> ?new)) (tagged_self48 self) child (index pos)"
    using assms(1-5) by (simp add: replace48_def assert_that_def capacity48_def Let_def)
  with h' show ?thesis by simp
qed

lemma replace256_frame:
  assumes "get256 h self = Some n"
    and "parent pos = tagged_self256 self" and "node pos = children256 n ! unat (index pos)"
    and "tag child \<noteq> LEAF \<longrightarrow> get child \<noteq> self \<and> h (get child) \<noteq> None"
  shows "\<exists>h'. replace256 h self pos child = Some h' \<and>
           replaced h h' self (Node256 (n\<lparr>children256 := (children256 n)[unat (index pos) := child]\<rparr>))
             (tagged_self256 self) child (index pos)"
proof -
  let ?new = "Node256 (n\<lparr>children256 := (children256 n)[unat (index pos) := child]\<rparr>)"
  from replaced_reparent [where h = h and child = child and self = self, OF assms(4)]
  obtain h' where h': "reparent (h(self \<mapsto> ?new)) (tagged_self256 self) child (index pos) = Some h'"
    "replaced h h' self ?new (tagged_self256 self) child (index pos)"
    by blast
  have "replace256 h self pos child = reparent (h(self \<mapsto> ?new)) (tagged_self256 self) child (index pos)"
    using assms(1-3) by (simp add: replace256_def assert_that_def Let_def)
  with h' show ?thesis by simp
qed

text \<open>
  Claim C10. \<^verbatim>\<open>replace(pos, child)\<close>, when \<open>pos\<close> points at a child of the node at the index
  it records (\<open>pos.parent()\<close> is the node, \<open>pos.node()\<close> is the child pointer found through
  \<open>pos.index()\<close>, inside the array), writes exactly one child pointer: the entry at that
  index for Node4 and Node16, the slot \<open>child_indices[pos.index()]\<close> for Node48, the entry
  at the key byte for Node256. The key array or \<open>child_indices\<close>, \<open>children_count\<close>, the
  prefix, the node's own back-reference and every other child pointer keep their values
  (the new node is the old one with that one list entry updated). A new child that is
  not a leaf gets the node and \<open>pos.index()\<close> as its back-reference; such a child is a
  node of the store other than the node itself. No other node of the store changes.
\<close>

theorem replace_writes_one_child:
  assumes "tag child \<noteq> LEAF \<longrightarrow> get child \<noteq> self \<and> h (get child) \<noteq> None"
  shows "(get4 h self = Some n4 \<and> unat (index pos) < capacity4 \<and>
            parent pos = tagged_self4 self \<and> node pos = children4 n4 ! unat (index pos) \<longrightarrow>
          (\<exists>h'. replace4 h self pos child = Some h' \<and>
             replaced h h' self (Node4 (n4\<lparr>children4 := (children4 n4)[unat (index pos) := child]\<rparr>))
               (tagged_self4 self) child (index pos))) \<and>
         (get16 h self = Some n16 \<and> unat (index pos) < capacity16 \<and> length (children16 n16) = 16 \<and>
            parent pos = tagged_self16 self \<and> node pos = children16 n16 ! unat (index pos) \<longrightarrow>
          (\<exists>h'. replace16 h self pos child = Some h' \<and>
             replaced h h' self (Node16 (n16\<lparr>children16 := (children16 n16)[unat (index pos) := child]\<rparr>))
               (tagged_self16 self) child (index pos))) \<and>
         (get48 h self = Some n48 \<and> unat (child_indices n48 ! unat (index pos)) < capacity48 \<and>
            length (children48 n48) = 48 \<and> parent pos = tagged_self48 self \<and>
            node pos = children48 n48 ! unat (child_indices n48 ! unat (index pos)) \<longrightarrow>
          (\<exists>h'. replace48 h self pos child = Some h' \<and>
             replaced h h' self
               (Node48 (n48\<lparr>children48 :=
                  (children48 n48)[unat (child_indices n48 ! unat (index pos)) := child]\<rparr>))
               (tagged_self48 self) child (index pos))) \<and>
         (get256 h self = Some n256 \<and>
            parent pos = tagged_self256 self \<and> node pos = children256 n256 ! unat (index pos) \<longrightarrow>
          (\<exists>h'. replace256 h self pos child = Some h' \<and>
             replaced h h' self
               (Node256 (n256\<lparr>children256 := (children256 n256)[unat (index pos) := child]\<rparr>))
               (tagged_self256 self) child (index pos)))"
proof (intro conjI impI)
  assume "get4 h self = Some n4 \<and> unat (index pos) < capacity4 \<and>
            parent pos = tagged_self4 self \<and> node pos = children4 n4 ! unat (index pos)"
  then show "\<exists>h'. replace4 h self pos child = Some h' \<and>
             replaced h h' self (Node4 (n4\<lparr>children4 := (children4 n4)[unat (index pos) := child]\<rparr>))
               (tagged_self4 self) child (index pos)"
    using assms by (intro replace4_frame) (simp_all add: capacity4_def)
next
  assume "get16 h self = Some n16 \<and> unat (index pos) < capacity16 \<and> length (children16 n16) = 16 \<and>
            parent pos = tagged_self16 self \<and> node pos = children16 n16 ! unat (index pos)"
  then show "\<exists>h'. replace16 h self pos child = Some h' \<and>
             replaced h h' self (Node16 (n16\<lparr>children16 := (children16 n16)[unat (index pos) := child]\<rparr>))
               (tagged_self16 self) child (index pos)"
    using assms by (intro replace16_frame) (simp_all add: capacity16_def)
next
  assume "get48 h self = Some n48 \<and> unat (child_indices n48 ! unat (index pos)) < capacity48 \<and>
            length (children48 n48) = 48 \<and> parent pos = tagged_self48 self \<and>
            node pos = children48 n48 ! unat (child_indices n48 ! unat (index pos))"
  then show "\<exists>h'. replace48 h self pos child = Some h' \<and>
             replaced h h' self
               (Node48 (n48\<lparr>children48 :=
                  (children48 n48)[unat (child_indices n48 ! unat (index pos)) := child]\<rparr>))
               (tagged_self48 self) child (index pos)"
    using assms by (intro replace48_frame) (simp_all add: capacity48_def)
next
  assume "get256 h self = Some n256 \<and>
            parent pos = tagged_self256 self \<and> node pos = children256 n256 ! unat (index pos)"
  then show "\<exists>h'. replace256 h self pos child = Some h' \<and>
             replaced h h' self
               (Node256 (n256\<lparr>children256 := (children256 n256)[unat (index pos) := child]\<rparr>))
               (tagged_self256 self) child (index pos)"
    using assms by (intro replace256_frame) simp_all
qed

theorem replace_writes_one_child_witness:
  "(\<exists>h'. replace4 example_tree 64 (Iterator (NodePtr 8 LEAF) 0 (NodePtr 64 I4)) (NodePtr 128 I4) = Some h' \<and>
      h' 64 = Some (Node4 (example4_root\<lparr>children4 := [NodePtr 128 I4, NodePtr 128 I4, NodePtr 16 LEAF, nullptr]\<rparr>)) \<and>
      h' 128 = Some (Node4 (example4_inner\<lparr>parent_ptr := NodePtr 64 I4, pos_in_parent := 0\<rparr>))) \<and>
   (\<exists>h'. replace16 [64 \<mapsto> Node16 example16] 64 (Iterator (NodePtr 24 LEAF) 2 (NodePtr 64 I16)) (NodePtr 808 LEAF) = Some h' \<and>
      h' 64 = Some (Node16 (example16\<lparr>children16 := (children16 example16)[2 := NodePtr 808 LEAF]\<rparr>))) \<and>
   (\<exists>h'. replace48 [64 \<mapsto> Node48 example48] 64 (Iterator (NodePtr 64 LEAF) 0x55 (NodePtr 64 I48)) (NodePtr 808 LEAF) = Some h' \<and>
      h' 64 = Some (Node48 (example48\<lparr>children48 := (children48 example48)[7 := NodePtr 808 LEAF]\<rparr>))) \<and>
   (\<exists>h'. replace256 [64 \<mapsto> Node256 example256] 64 (Iterator (NodePtr 8 LEAF) 3 (NodePtr 64 I256)) (NodePtr 808 LEAF) = Some h' \<and>
      h' 64 = Some (Node256 (example256\<lparr>children256 := (children256 example256)[3 := NodePtr 808 LEAF]\<rparr>)))"
proof -
  let ?p4 = "Iterator (NodePtr 8 LEAF) 0 (NodePtr 64 I4)"
  let ?p16 = "Iterator (NodePtr 24 LEAF) 2 (NodePtr 64 I16)"
  let ?p48 = "Iterator (NodePtr 64 LEAF) 0x55 (NodePtr 64 I48)"
  let ?p256 = "Iterator (NodePtr 8 LEAF) 3 (NodePtr 64 I256)"
  have c4: "tag (NodePtr 128 I4) \<noteq> LEAF \<longrightarrow>
        get (NodePtr 128 I4) \<noteq> 64 \<and> example_tree (get (NodePtr 128 I4)) \<noteq> None"
    by (simp add: example_tree_def)
  have p4: "get4 example_tree 64 = Some example4_root \<and> unat (index ?p4) < capacity4 \<and>
        parent ?p4 = tagged_self4 64 \<and> node ?p4 = children4 example4_root ! unat (index ?p4)"
    by (simp add: example_tree_def get4_def capacity4_def tagged_self4_def create_def
        example4_root_def)
  have "\<exists>h'. replace4 example_tree 64 ?p4 (NodePtr 128 I4) = Some h' \<and>
          replaced example_tree h' 64
            (Node4 (example4_root\<lparr>children4 := (children4 example4_root)[unat (index ?p4) := NodePtr 128 I4]\<rparr>))
            (tagged_self4 64) (NodePtr 128 I4) (index ?p4)"
    by (rule replace_writes_one_child [where h = example_tree and self = 64
          and child = "NodePtr 128 I4" and ?n4.0 = example4_root and pos = ?p4,
          OF c4, THEN conjunct1, THEN mp, OF p4])
  then obtain h4 where h4: "replace4 example_tree 64 ?p4 (NodePtr 128 I4) = Some h4"
    "replaced example_tree h4 64
       (Node4 (example4_root\<lparr>children4 := (children4 example4_root)[unat (index ?p4) := NodePtr 128 I4]\<rparr>))
       (tagged_self4 64) (NodePtr 128 I4) (index ?p4)"
    by blast
  have r4: "h4 64 = Some (Node4 (example4_root\<lparr>children4 := [NodePtr 128 I4, NodePtr 128 I4, NodePtr 16 LEAF, nullptr]\<rparr>))"
    "h4 128 = Some (Node4 (example4_inner\<lparr>parent_ptr := NodePtr 64 I4, pos_in_parent := 0\<rparr>))"
    using h4(2)
    by (simp_all add: replaced_def example_tree_def example4_root_def tagged_self4_def create_def
        assign_parent_impl_def)
  have cl: "tag (NodePtr 808 LEAF) \<noteq> LEAF \<longrightarrow>
        get (NodePtr 808 LEAF) \<noteq> 64 \<and> hh (get (NodePtr 808 LEAF)) \<noteq> None" for hh :: store
    by simp
  have p16: "get16 [64 \<mapsto> Node16 example16] 64 = Some example16 \<and>
        unat (index ?p16) < capacity16 \<and> length (children16 example16) = 16 \<and>
        parent ?p16 = tagged_self16 64 \<and> node ?p16 = children16 example16 ! unat (index ?p16)"
    by (simp add: get16_def capacity16_def tagged_self16_def create_def example16_def)
  have "\<exists>h'. replace16 [64 \<mapsto> Node16 example16] 64 ?p16 (NodePtr 808 LEAF) = Some h' \<and>
          replaced [64 \<mapsto> Node16 example16] h' 64
            (Node16 (example16\<lparr>children16 := (children16 example16)[unat (index ?p16) := NodePtr 808 LEAF]\<rparr>))
            (tagged_self16 64) (NodePtr 808 LEAF) (index ?p16)"
    by (rule replace_writes_one_child [where h = "[64 \<mapsto> Node16 example16]" and self = 64
          and child = "NodePtr 808 LEAF" and ?n16.0 = example16 and pos = ?p16,
          OF cl [of "[64 \<mapsto> Node16 example16]"], THEN conjunct2, THEN conjunct1, THEN mp, OF p16])
  then obtain h16 where h16: "replace16 [64 \<mapsto> Node16 example16] 64 ?p16 (NodePtr 808 LEAF) = Some h16"
    "replaced [64 \<mapsto> Node16 example16] h16 64
       (Node16 (example16\<lparr>children16 := (children16 example16)[unat (index ?p16) := NodePtr 808 LEAF]\<rparr>))
       (tagged_self16 64) (NodePtr 808 LEAF) (index ?p16)"
    by blast
  have r16: "h16 64 = Some (Node16 (example16\<lparr>children16 := (children16 example16)[2 := NodePtr 808 LEAF]\<rparr>))"
    using h16(2) by (simp add: replaced_def)
  have k: "unat (child_indices example48 ! unat (0x55 :: u8)) = 7"
    by (simp add: example48_def nth_append)
  have p48: "get48 [64 \<mapsto> Node48 example48] 64 = Some example48 \<and>
        unat (child_indices example48 ! unat (index ?p48)) < capacity48 \<and>
        length (children48 example48) = 48 \<and> parent ?p48 = tagged_self48 64 \<and>
        node ?p48 = children48 example48 ! unat (child_indices example48 ! unat (index ?p48))"
    using k by (simp add: get48_def capacity48_def tagged_self48_def create_def)
       (simp add: example48_def)
  have "\<exists>h'. replace48 [64 \<mapsto> Node48 example48] 64 ?p48 (NodePtr 808 LEAF) = Some h' \<and>
          replaced [64 \<mapsto> Node48 example48] h' 64
            (Node48 (example48\<lparr>children48 :=
               (children48 example48)[unat (child_indices example48 ! unat (index ?p48)) := NodePtr 808 LEAF]\<rparr>))
            (tagged_self48 64) (NodePtr 808 LEAF) (index ?p48)"
    by (rule replace_writes_one_child [where h = "[64 \<mapsto> Node48 example48]" and self = 64
          and child = "NodePtr 808 LEAF" and ?n48.0 = example48 and pos = ?p48,
          OF cl [of "[64 \<mapsto> Node48 example48]"], THEN conjunct2, THEN conjunct2, THEN conjunct1, THEN mp, OF p48])
  then obtain h48 where h48: "replace48 [64 \<mapsto> Node48 example48] 64 ?p48 (NodePtr 808 LEAF) = Some h48"
    "replaced [64 \<mapsto> Node48 example48] h48 64
       (Node48 (example48\<lparr>children48 :=
          (children48 example48)[unat (child_indices example48 ! unat (index ?p48)) := NodePtr 808 LEAF]\<rparr>))
       (tagged_self48 64) (NodePtr 808 LEAF) (index ?p48)"
    by blast
  have r48: "h48 64 = Some (Node48 (example48\<lparr>children48 := (children48 example48)[7 := NodePtr 808 LEAF]\<rparr>))"
    using h48(2) k by (simp add: replaced_def)
  have p256: "get256 [64 \<mapsto> Node256 example256] 64 = Some example256 \<and>
        parent ?p256 = tagged_self256 64 \<and>
        node ?p256 = children256 example256 ! unat (index ?p256)"
    by (simp add: get256_def tagged_self256_def create_def example256_def nth_append)
  have "\<exists>h'. replace256 [64 \<mapsto> Node256 example256] 64 ?p256 (NodePtr 808 LEAF) = Some h' \<and>
          replaced [64 \<mapsto> Node256 example256] h' 64
            (Node256 (example256\<lparr>children256 := (children256 example256)[unat (index ?p256) := NodePtr 808 LEAF]\<rparr>))
            (tagged_self256 64) (NodePtr 808 LEAF) (index ?p256)"
    by (rule replace_writes_one_child [where h = "[64 \<mapsto> Node256 example256]" and self = 64
          and child = "NodePtr 808 LEAF" and ?n256.0 = example256 and pos = ?p256,
          OF cl [of "[64 \<mapsto> Node256 example256]"], THEN conjunct2, THEN conjunct2, THEN conjunct2, THEN mp, OF p256])
  then obtain h256 where h256: "replace256 [64 \<mapsto> Node256 example256] 64 ?p256 (NodePtr 808 LEAF) = Some h256"
    "replaced [64 \<mapsto> Node256 example256] h256 64
       (Node256 (example256\<lparr>children256 := (children256 example256)[unat (index ?p256) := NodePtr 808 LEAF]\<rparr>))
       (tagged_self256 64) (NodePtr 808 LEAF) (index ?p256)"
    by blast
  have r256: "h256 64 = Some (Node256 (example256\<lparr>children256 := (children256 example256)[3 := NodePtr 808 LEAF]\<rparr>))"
    using h256(2) by (simp add: replaced_def)
  show ?thesis using h4(1) r4 h16(1) r16 h48(1) r48 h256(1) r256 by blast
qed

subsection \<open>leave_last_child\<close>

lemma map_prefix_fields:
  "node_prefix (map_prefix f c) = f (node_prefix c)"
  "node_parent (map_prefix f c) = node_parent c"
  "node_pos_in_parent (map_prefix f c) = node_pos_in_parent c"
  "node_children_count (map_prefix f c) = node_children_count c"
  by (cases c; simp)+

lemma map_prefix_map_prefix: "map_prefix f (map_prefix g c) = map_prefix (f \<circ> g) c"
  by (cases c) simp_all

text \<open>
  Claim C5. For a Node4 at minimum size (\<open>children_count = 2\<close>) and \<open>to_delete \<le> 1\<close>,
  \<^verbatim>\<open>leave_last_child(to_delete)\<close> returns the tagged pointer \<open>children[1 - to_delete]\<close>. A
  survivor that is a leaf is returned and the store is left as it was. A survivor that
  is not a leaf (a node of the store, other than the Node4 itself) gets as prefix the
  prefix of the Node4, then the key byte \<open>keys[1 - to_delete]\<close>, then its own old prefix;
  its parent becomes the null pointer (with position 0); nothing else changes, in the
  survivor or in any other node.
\<close>

theorem leave_last_child_collapse:
  assumes g: "get4 h self = Some n" and m: "is_min_size4 n" and d: "to_delete \<le> 1"
  shows "(tag (children4 n ! unat (1 - to_delete)) = LEAF \<longrightarrow>
            leave_last_child h self to_delete = Some (h, children4 n ! unat (1 - to_delete))) \<and>
         (tag (children4 n ! unat (1 - to_delete)) \<noteq> LEAF \<and>
          get (children4 n ! unat (1 - to_delete)) \<noteq> self \<and>
          h (get (children4 n ! unat (1 - to_delete))) = Some c \<longrightarrow>
            (\<exists>h' c'. leave_last_child h self to_delete = Some (h', children4 n ! unat (1 - to_delete)) \<and>
               h' (get (children4 n ! unat (1 - to_delete))) = Some c' \<and>
               node_prefix c' = prefix n @ [keys4 n ! unat (1 - to_delete)] @ node_prefix c \<and>
               node_parent c' = nullptr \<and> node_pos_in_parent c' = 0 \<and>
               c' = assign_parent nullptr 0
                      (map_prefix (\<lambda>p. prefix n @ keys4 n ! unat (1 - to_delete) # p) c) \<and>
               (\<forall>a. a \<noteq> get (children4 n ! unat (1 - to_delete)) \<longrightarrow> h' a = h a)))"
proof (intro conjI impI)
  let ?s = "children4 n ! unat (1 - to_delete)"
  {
    assume "tag ?s = LEAF"
    then show "leave_last_child h self to_delete = Some (h, ?s)"
      using g m d by (simp add: leave_last_child_def assert_that_def Let_def)
  }
  {
    assume a: "tag ?s \<noteq> LEAF \<and> get ?s \<noteq> self \<and> h (get ?s) = Some c"
    let ?k = "keys4 n ! unat (1 - to_delete)"
    let ?c1 = "map_prefix (\<lambda>p. ?k # p) c"
    let ?h1 = "h(get ?s \<mapsto> ?c1)"
    let ?c2 = "map_prefix (\<lambda>p. prefix n @ p) ?c1"
    let ?h2 = "?h1(get ?s \<mapsto> ?c2)"
    let ?c' = "assign_parent nullptr 0 ?c2"
    have s1: "shift_left_byte h (get ?s) ?k = Some ?h1"
      using a by (simp add: shift_left_byte_def)
    have g1: "get4 ?h1 self = Some n"
      using a g by (simp add: get4_upd_other)
    have s2: "shift_left_prefix ?h1 (get ?s) (prefix n) = Some ?h2"
      by (simp add: shift_left_prefix_def)
    have run: "leave_last_child h self to_delete = Some (?h2(get ?s \<mapsto> ?c'), ?s)"
      using g m d a s1 g1 s2
      by (simp add: leave_last_child_def assert_that_def Let_def)
    have c2: "?c2 = map_prefix (\<lambda>p. prefix n @ ?k # p) c"
      by (simp add: map_prefix_map_prefix comp_def)
    have f: "node_prefix ?c' = prefix n @ [?k] @ node_prefix c"
      "node_parent ?c' = nullptr" "node_pos_in_parent ?c' = 0"
      by (simp_all add: assign_parent_prefix assign_parent_parent assign_parent_pos
          map_prefix_fields)
    show "\<exists>h' c'. leave_last_child h self to_delete = Some (h', ?s) \<and>
               h' (get ?s) = Some c' \<and>
               node_prefix c' = prefix n @ [?k] @ node_prefix c \<and>
               node_parent c' = nullptr \<and> node_pos_in_parent c' = 0 \<and>
               c' = assign_parent nullptr 0 (map_prefix (\<lambda>p. prefix n @ ?k # p) c) \<and>
               (\<forall>a. a \<noteq> get ?s \<longrightarrow> h' a = h a)"
      using run f c2
      by (intro exI [of _ "?h2(get ?s \<mapsto> ?c')"] exI [of _ ?c']) simp
  }
qed

theorem leave_last_child_collapse_witness:
  "(\<exists>h' c'. leave_last_child example_collapse 64 1 = Some (h', NodePtr 128 I4) \<and>
      h' 128 = Some c' \<and> node_prefix c' = [0xAA, 0xBB, 0x10, 0x01, 0x02] \<and>
      node_parent c' = nullptr) \<and>
   leave_last_child example_collapse 64 0 = Some (example_collapse, NodePtr 8 LEAF)"
proof -
  have g: "get4 example_collapse 64 = Some example4_collapse"
    by (simp add: example_collapse_def get4_def)
  have m: "is_min_size4 example4_collapse"
    by (simp add: is_min_size4_def min_size4_def example4_collapse_def)
  have s1: "children4 example4_collapse ! unat (1 - 1 :: u8) = NodePtr 128 I4"
    and s0: "children4 example4_collapse ! unat (1 - 0 :: u8) = NodePtr 8 LEAF"
    and k: "keys4 example4_collapse ! unat (1 - 1 :: u8) = 0x10"
    and p: "prefix example4_collapse = [0xAA, 0xBB]"
    by (simp_all add: example4_collapse_def)
  have a: "tag (children4 example4_collapse ! unat (1 - 1 :: u8)) \<noteq> LEAF \<and>
          get (children4 example4_collapse ! unat (1 - 1 :: u8)) \<noteq> 64 \<and>
          example_collapse (get (children4 example4_collapse ! unat (1 - 1 :: u8))) = Some (Node4 example4_survivor)"
    unfolding s1 by (simp add: example_collapse_def)
  have "\<exists>h' c'. leave_last_child example_collapse 64 1 =
            Some (h', children4 example4_collapse ! unat (1 - 1 :: u8)) \<and>
          h' (get (children4 example4_collapse ! unat (1 - 1 :: u8))) = Some c' \<and>
          node_prefix c' = prefix example4_collapse @ [keys4 example4_collapse ! unat (1 - 1 :: u8)] @
             node_prefix (Node4 example4_survivor) \<and>
          node_parent c' = nullptr \<and> node_pos_in_parent c' = 0 \<and>
          c' = assign_parent nullptr 0
                 (map_prefix (\<lambda>p. prefix example4_collapse @ keys4 example4_collapse ! unat (1 - 1 :: u8) # p)
                    (Node4 example4_survivor)) \<and>
          (\<forall>a. a \<noteq> get (children4 example4_collapse ! unat (1 - 1 :: u8)) \<longrightarrow> h' a = example_collapse a)"
    by (rule leave_last_child_collapse [OF g m order_refl, of "Node4 example4_survivor",
          THEN conjunct2, THEN mp, OF a])
  then have 1: "\<exists>h' c'. leave_last_child example_collapse 64 1 = Some (h', NodePtr 128 I4) \<and>
      h' 128 = Some c' \<and> node_prefix c' = [0xAA, 0xBB, 0x10, 0x01, 0x02] \<and>
      node_parent c' = nullptr"
    unfolding s1 k p by (auto simp add: example4_survivor_def)
  have z: "(0 :: u8) \<le> 1" by simp
  have l: "tag (children4 example4_collapse ! unat (1 - 0 :: u8)) = LEAF"
    unfolding s0 by simp
  have "leave_last_child example_collapse 64 0 =
          Some (example_collapse, children4 example4_collapse ! unat (1 - 0 :: u8))"
    by (rule leave_last_child_collapse [OF g m z, THEN conjunct1, THEN mp, OF l])
  then have 2: "leave_last_child example_collapse 64 0 = Some (example_collapse, NodePtr 8 LEAF)"
    unfolding s0 .
  from 1 2 show ?thesis by blast
qed

subsection \<open>reparent and the store\<close>

lemma reparent_upd_Some:
  assumes "tag c = LEAF \<or> get c \<noteq> a" and "reparent h sp c i = Some h'"
  shows "reparent (h(a \<mapsto> x)) sp c i = Some (h'(a \<mapsto> x))"
  using assms by (auto simp add: reparent_def fun_upd_twist split: option.splits if_splits)

lemma reparent_upd_None:
  assumes "tag c = LEAF \<or> get c \<noteq> a" and "reparent h sp c i = None"
  shows "reparent (h(a \<mapsto> x)) sp c i = None"
  using assms by (auto simp add: reparent_def split: option.splits if_splits)

lemma reparent_all_upd_Some:
  assumes "\<forall>(c, i) \<in> set xs. tag c = LEAF \<or> get c \<noteq> a" and "reparent_all h sp xs = Some h'"
  shows "reparent_all (h(a \<mapsto> x)) sp xs = Some (h'(a \<mapsto> x))"
  using assms
proof (induction xs arbitrary: h)
  case Nil
  then show ?case by simp
next
  case (Cons p xs)
  obtain c i where p: "p = (c, i)" by (cases p)
  with Cons.prems have c: "tag c = LEAF \<or> get c \<noteq> a" by simp
  from Cons.prems(2) p obtain h1 where h1: "reparent h sp c i = Some h1"
    "reparent_all h1 sp xs = Some h'"
    by (auto split: option.splits)
  have "reparent (h(a \<mapsto> x)) sp c i = Some (h1(a \<mapsto> x))"
    using c h1(1) by (rule reparent_upd_Some)
  moreover have "reparent_all (h1(a \<mapsto> x)) sp xs = Some (h'(a \<mapsto> x))"
    by (rule Cons.IH) (use Cons.prems h1 in auto)
  ultimately show ?case unfolding p reparent_all.simps by (simp del: fun_upd_apply)
qed

lemma reparent_all_append:
  "reparent_all h sp (xs @ ys) =
     (case reparent_all h sp xs of None \<Rightarrow> None | Some h' \<Rightarrow> reparent_all h' sp ys)"
  by (induction xs arbitrary: h) (auto split: option.splits)

text \<open>Cells the calls do not name stay as they are; the domain of the store stays.\<close>

lemma reparent_frame:
  assumes "reparent h sp c i = Some h'" and "tag c = LEAF \<or> a \<noteq> get c"
  shows "h' a = h a"
  using assms by (auto simp add: reparent_def split: if_splits option.splits)

lemma reparent_dom:
  assumes "reparent h sp c i = Some h'"
  shows "h' a = None \<longleftrightarrow> h a = None"
  using assms by (auto simp add: reparent_def split: if_splits option.splits)

lemma reparent_all_frame:
  assumes "reparent_all h sp xs = Some h'" and "\<forall>(c, i) \<in> set xs. tag c = LEAF \<or> a \<noteq> get c"
  shows "h' a = h a"
  using assms
proof (induction xs arbitrary: h)
  case Nil
  then show ?case by simp
next
  case (Cons p xs)
  obtain c i where p: "p = (c, i)" by (cases p)
  from Cons.prems(1) p obtain h1 where h1: "reparent h sp c i = Some h1"
    "reparent_all h1 sp xs = Some h'"
    by (auto split: option.splits)
  have "h1 a = h a" using reparent_frame [OF h1(1)] Cons.prems(2) p by auto
  moreover have "h' a = h1 a" using Cons.IH [OF h1(2)] Cons.prems(2) by auto
  ultimately show ?case by simp
qed

lemma reparent_all_dom:
  assumes "reparent_all h sp xs = Some h'"
  shows "h' a = None \<longleftrightarrow> h a = None"
  using assms
proof (induction xs arbitrary: h)
  case Nil
  then show ?case by simp
next
  case (Cons p xs)
  obtain c i where p: "p = (c, i)" by (cases p)
  from Cons.prems(1) p obtain h1 where h1: "reparent h sp c i = Some h1"
    "reparent_all h1 sp xs = Some h'"
    by (auto split: option.splits)
  show ?case using reparent_dom [OF h1(1)] Cons.IH [OF h1(2)] by simp
qed

lemma reparent_all_returns:
  assumes "\<forall>(c, i) \<in> set xs. tag c \<noteq> LEAF \<longrightarrow> h (get c) \<noteq> None"
  shows "\<exists>h'. reparent_all h sp xs = Some h'"
  using assms
proof (induction xs arbitrary: h)
  case Nil
  then show ?case by simp
next
  case (Cons p xs)
  obtain c i where p: "p = (c, i)" by (cases p)
  with Cons.prems have "tag c \<noteq> LEAF \<longrightarrow> h (get c) \<noteq> None" by simp
  then have "\<exists>h1. reparent h sp c i = Some h1"
    by (auto simp add: reparent_def)
  then obtain h1 where h1: "reparent h sp c i = Some h1" ..
  have "\<forall>(c, i) \<in> set xs. tag c \<noteq> LEAF \<longrightarrow> h1 (get c) \<noteq> None"
    using Cons.prems reparent_dom [OF h1] by auto
  from Cons.IH [OF this] show ?case using p h1 by simp
qed

text \<open>
  When the pointers that are not leaves are pairwise distinct, each of them ends with
  the back-reference of its own call.
\<close>

lemma reparent_all_effect:
  assumes "reparent_all h sp xs = Some h'"
    and "distinct (map (\<lambda>p. get (fst p)) (filter (\<lambda>(c, i). tag c \<noteq> LEAF) xs))"
    and "(c, i) \<in> set xs" and "tag c \<noteq> LEAF" and "h (get c) = Some x"
  shows "h' (get c) = Some (assign_parent sp i x)"
  using assms
proof (induction xs arbitrary: h)
  case Nil
  then show ?case by simp
next
  case (Cons p xs)
  obtain c0 i0 where p: "p = (c0, i0)" by (cases p)
  from Cons.prems(1) p obtain h1 where h1: "reparent h sp c0 i0 = Some h1"
    "reparent_all h1 sp xs = Some h'"
    by (auto split: option.splits)
  show ?case
  proof (cases "(c, i) = (c0, i0)")
    case True
    then have "h1 = h(get c \<mapsto> assign_parent sp i x)"
      using h1(1) Cons.prems(4,5) by (simp add: reparent_def)
    then have 1: "h1 (get c) = Some (assign_parent sp i x)" by simp
    have "\<forall>(c', i') \<in> set xs. tag c' = LEAF \<or> get c \<noteq> get c'"
      using Cons.prems(2,4) p True by (auto simp add: image_iff)
    from reparent_all_frame [OF h1(2) this] 1 show ?thesis by simp
  next
    case False
    then have in_xs: "(c, i) \<in> set xs" using Cons.prems(3) p by auto
    have ne: "tag c0 = LEAF \<or> get c \<noteq> get c0"
    proof (cases "tag c0 = LEAF")
      case True
      then show ?thesis by simp
    next
      case nl: False
      have "get c \<in> set (map (\<lambda>p. get (fst p)) (filter (\<lambda>(c, i). tag c \<noteq> LEAF) xs))"
        using in_xs Cons.prems(4) by (auto simp add: image_iff intro!: bexI [of _ "(c, i)"])
      moreover have "get c0 \<notin> set (map (\<lambda>p. get (fst p)) (filter (\<lambda>(c, i). tag c \<noteq> LEAF) xs))"
        using Cons.prems(2) p nl by simp
      ultimately show ?thesis by metis
    qed
    have "h1 (get c) = Some x"
      using reparent_frame [OF h1(1) ne] Cons.prems(5) by simp
    moreover have "distinct (map (\<lambda>p. get (fst p)) (filter (\<lambda>(c, i). tag c \<noteq> LEAF) xs))"
      using Cons.prems(2) p by (auto split: if_splits)
    ultimately show ?thesis
      using Cons.IH [OF h1(2) _ in_xs Cons.prems(4)] by simp
  qed
qed

subsection \<open>The shifting loops on lists\<close>

lemma length_shift_right [simp]: "length (shift_right xs i pos) = length xs"
  by (induction xs i pos rule: shift_right.induct) (subst shift_right.simps, simp)

lemma nth_shift_right:
  "i < length xs \<Longrightarrow>
   shift_right xs i pos ! k = (if pos < k \<and> k \<le> i then xs ! (k - 1) else xs ! k)"
proof (induction xs i pos arbitrary: k rule: shift_right.induct)
  case (1 xs i pos)
  show ?case
  proof (cases "i > pos")
    case True
    have "shift_right xs i pos ! k = shift_right (xs[i := xs ! (i - 1)]) (i - 1) pos ! k"
      using True by (subst shift_right.simps) simp
    also have "\<dots> = (if pos < k \<and> k \<le> i - 1 then (xs[i := xs ! (i - 1)]) ! (k - 1)
                     else (xs[i := xs ! (i - 1)]) ! k)"
      using True "1.prems" by (intro "1.IH") simp_all
    also have "\<dots> = (if pos < k \<and> k \<le> i then xs ! (k - 1) else xs ! k)"
      using True "1.prems" by (auto simp add: nth_list_update)
    finally show ?thesis .
  next
    case False
    then show ?thesis by (subst shift_right.simps) auto
  qed
qed

lemma length_shift_left [simp]: "length (shift_left xs i n) = length xs"
  by (induction xs i n rule: shift_left.induct) (subst shift_left.simps, simp)

lemma nth_shift_left:
  "n \<le> length xs \<Longrightarrow>
   shift_left xs i n ! k = (if i \<le> k \<and> k < n - 1 then xs ! (k + 1) else xs ! k)"
proof (induction xs i n arbitrary: k rule: shift_left.induct)
  case (1 xs i n)
  show ?case
  proof (cases "i < n - 1")
    case True
    have "shift_left xs i n ! k = shift_left (xs[i := xs ! (i + 1)]) (i + 1) n ! k"
      using True by (subst shift_left.simps) simp
    also have "\<dots> = (if i + 1 \<le> k \<and> k < n - 1 then (xs[i := xs ! (i + 1)]) ! (k + 1)
                     else (xs[i := xs ! (i + 1)]) ! k)"
      using True "1.prems" by (intro "1.IH") simp_all
    also have "\<dots> = (if i \<le> k \<and> k < n - 1 then xs ! (k + 1) else xs ! k)"
      using True "1.prems" by (auto simp add: nth_list_update)
    finally show ?thesis .
  next
    case False
    then show ?thesis by (subst shift_left.simps) auto
  qed
qed

lemma copy_backward_shift_right: "copy_backward xs pos cc (cc + 1) = shift_right xs cc pos"
proof (induction xs cc pos rule: shift_right.induct)
  case (1 xs i pos)
  show ?case
  proof (cases "i > pos")
    case True
    then have "copy_backward xs pos i (i + 1) =
               copy_backward (xs[i := xs ! (i - 1)]) pos (i - 1) (i - 1 + 1)"
      by (subst copy_backward.simps) simp
    also have "\<dots> = shift_right (xs[i := xs ! (i - 1)]) (i - 1) pos"
      using True by (rule "1.IH")
    also have "\<dots> = shift_right xs i pos"
      using True by (subst (2) shift_right.simps) simp
    finally show ?thesis .
  next
    case False
    then show ?thesis
      by (subst copy_backward.simps, subst shift_right.simps) simp
  qed
qed

text \<open>Insertion at \<open>pos\<close> after the shift, and removal at \<open>pos\<close>, on the first entries.\<close>

lemma take_insert_shift_right:
  assumes "pos \<le> cc" and "cc < length xs"
  shows "take (cc + 1) ((shift_right xs cc pos)[pos := v]) =
         take pos xs @ [v] @ drop pos (take cc xs)"
proof (rule nth_equalityI)
  show "length (take (cc + 1) ((shift_right xs cc pos)[pos := v])) =
        length (take pos xs @ [v] @ drop pos (take cc xs))"
    using assms by simp
next
  fix k assume "k < length (take (cc + 1) ((shift_right xs cc pos)[pos := v]))"
  then have k: "k \<le> cc" using assms by simp
  show "take (cc + 1) ((shift_right xs cc pos)[pos := v]) ! k =
        (take pos xs @ [v] @ drop pos (take cc xs)) ! k"
    using k assms
    by (auto simp add: nth_append nth_list_update nth_shift_right)
qed

lemma take_shift_left_insert:
  assumes "pos \<le> cc" and "cc < length xs"
  shows "take cc (shift_left ((shift_right xs cc pos)[pos := v]) pos (cc + 1)) = take cc xs"
proof (rule nth_equalityI)
  show "length (take cc (shift_left ((shift_right xs cc pos)[pos := v]) pos (cc + 1))) =
        length (take cc xs)"
    using assms by simp
next
  fix k assume "k < length (take cc (shift_left ((shift_right xs cc pos)[pos := v]) pos (cc + 1)))"
  then have k: "k < cc" using assms by simp
  show "take cc (shift_left ((shift_right xs cc pos)[pos := v]) pos (cc + 1)) ! k = take cc xs ! k"
    using k assms
    by (auto simp add: nth_shift_left nth_list_update nth_shift_right)
qed

subsection \<open>The loops of Node4\<close>

lemma get4_Some: "get4 h a = Some n \<longleftrightarrow> h a = Some (Node4 n)"
  by (auto simp add: get4_def split: option.splits inode.splits)

lemma get16_Some: "get16 h a = Some n \<longleftrightarrow> h a = Some (Node16 n)"
  by (auto simp add: get16_def split: option.splits inode.splits)

lemma get48_Some: "get48 h a = Some n \<longleftrightarrow> h a = Some (Node48 n)"
  by (auto simp add: get48_def split: option.splits inode.splits)

lemma get256_Some: "get256 h a = Some n \<longleftrightarrow> h a = Some (Node256 n)"
  by (auto simp add: get256_def split: option.splits inode.splits)

lemma calls_up_Suc:
  "pos \<le> i \<Longrightarrow> calls_up cs pos (Suc i) = calls_up cs pos i @ [(cs ! i, of_nat (Suc i))]"
  by (simp add: calls_up_def)

lemma calls_up_empty: "i \<le> pos \<Longrightarrow> calls_up cs pos i = []"
  by (simp add: calls_up_def)

lemma calls_up_update: "i \<le> k \<Longrightarrow> calls_up (cs[k := v]) pos i = calls_up cs pos i"
  by (simp add: calls_up_def)

lemma calls_up_set:
  "(c, x) \<in> set (calls_up cs pos i) \<longleftrightarrow> (\<exists>j. pos \<le> j \<and> j < i \<and> c = cs ! j \<and> x = of_nat (Suc j))"
  by (auto simp add: calls_up_def)

lemma add4_shift_eq:
  assumes "get4 h self = Some n" and "i < 4" and "length (children4 n) = 4"
    and "\<forall>j. pos \<le> j \<and> j < i \<longrightarrow> tag (children4 n ! j) = LEAF \<or> get (children4 n ! j) \<noteq> self"
    and "reparent_all h (tagged_self4 self) (rev (calls_up (children4 n) pos i)) = Some h'"
  shows "add4_shift h self i pos =
           Some (h'(self \<mapsto> Node4 (n\<lparr>keys4 := shift_right (keys4 n) i pos,
                                        children4 := shift_right (children4 n) i pos\<rparr>)))"
  using assms
proof (induction i arbitrary: h n h')
  case 0
  then have "h' = h" by (simp add: calls_up_empty)
  moreover have "h(self \<mapsto> Node4 n) = h"
    using "0.prems"(1) by (simp add: get4_Some fun_upd_idem)
  ultimately show ?case
    by (subst add4_shift.simps, subst shift_right.simps, subst shift_right.simps) simp
next
  case (Suc i)
  let ?ks = "keys4 n" and ?cs = "children4 n" and ?sp = "tagged_self4 self"
  show ?case
  proof (cases "pos \<le> i")
    case False
    then have "h' = h" using Suc.prems(5) by (simp add: calls_up_empty)
    moreover have "h(self \<mapsto> Node4 n) = h"
      using Suc.prems(1) by (simp add: get4_Some fun_upd_idem)
    ultimately show ?thesis using False
      by (subst add4_shift.simps, subst shift_right.simps, subst shift_right.simps) simp
  next
    case True
    let ?n2 = "n\<lparr>keys4 := ?ks[Suc i := ?ks ! i], children4 := ?cs[Suc i := ?cs ! i]\<rparr>"
    from Suc.prems(5) True obtain h1 where h1: "reparent h ?sp (?cs ! i) (of_nat (Suc i)) = Some h1"
      "reparent_all h1 ?sp (rev (calls_up ?cs pos i)) = Some h'"
      by (auto simp add: calls_up_Suc split: option.splits)
    have na_i: "tag (?cs ! i) = LEAF \<or> get (?cs ! i) \<noteq> self"
      using Suc.prems(4) True by simp
    have r1: "reparent (h(self \<mapsto> Node4 ?n2)) ?sp (?cs ! i) (of_nat (Suc i)) = Some (h1(self \<mapsto> Node4 ?n2))"
      using na_i h1(1) by (rule reparent_upd_Some)
    have c2: "children4 ?n2 ! i = ?cs ! i"
      using Suc.prems(2,3) by simp
    have na2: "\<forall>j. pos \<le> j \<and> j < i \<longrightarrow> tag (children4 ?n2 ! j) = LEAF \<or> get (children4 ?n2 ! j) \<noteq> self"
      using Suc.prems(4) by simp
    have na_all: "\<forall>(c, x) \<in> set (rev (calls_up ?cs pos i)). tag c = LEAF \<or> get c \<noteq> self"
    proof -
      have "tag c = LEAF \<or> get c \<noteq> self" if "(c, x) \<in> set (rev (calls_up ?cs pos i))" for c x
      proof -
        from that obtain j where "pos \<le> j" "j < i" "c = ?cs ! j"
          by (auto simp add: calls_up_set)
        then show ?thesis using Suc.prems(4) less_SucI by blast
      qed
      then show ?thesis by blast
    qed
    have ra2: "reparent_all (h1(self \<mapsto> Node4 ?n2)) ?sp (rev (calls_up (children4 ?n2) pos i)) =
               Some (h'(self \<mapsto> Node4 ?n2))"
      using reparent_all_upd_Some [OF na_all h1(2)] by (simp add: calls_up_update del: fun_upd_apply)
    have g2: "get4 (h1(self \<mapsto> Node4 ?n2)) self = Some ?n2" by (rule get4_upd)
    have i4: "i < 4" using Suc.prems(2) by simp
    have l2: "length (children4 ?n2) = 4" using Suc.prems(3) by simp
    have ih: "add4_shift (h1(self \<mapsto> Node4 ?n2)) self i pos =
        Some ((h'(self \<mapsto> Node4 ?n2))(self \<mapsto> Node4 (?n2\<lparr>keys4 := shift_right (keys4 ?n2) i pos,
                                        children4 := shift_right (children4 ?n2) i pos\<rparr>)))"
      by (rule Suc.IH [OF g2 i4 l2 na2 ra2])
    have sk: "shift_right ?ks (Suc i) pos = shift_right (?ks[Suc i := ?ks ! i]) i pos"
      and sc: "shift_right ?cs (Suc i) pos = shift_right (?cs[Suc i := ?cs ! i]) i pos"
      using True by (subst shift_right.simps, simp)+
    have "add4_shift h self (Suc i) pos = add4_shift (h1(self \<mapsto> Node4 ?n2)) self i pos"
      using True Suc.prems(1,2) r1 c2
      by (subst add4_shift.simps) (simp add: capacity4_def Let_def del: fun_upd_apply)
    then show ?thesis unfolding ih sk sc by (simp del: fun_upd_apply)
  qed
qed

subsection \<open>Node4: add\<close>

lemma sorted_insert_position:
  assumes "sorted_wrt (<) (xs :: u8 list)" and "b \<notin> set xs"
  shows "sorted_wrt (<) (take (length (filter (\<lambda>k. k < b) xs)) xs @ [b] @
                         drop (length (filter (\<lambda>k. k < b) xs)) xs)"
  using assms
proof (induction xs)
  case Nil
  then show ?case by simp
next
  case (Cons x xs)
  show ?case
  proof (cases "x < b")
    case True
    then have "\<forall>y \<in> set (take (length (filter (\<lambda>k. k < b) xs)) xs @ [b] @
                 drop (length (filter (\<lambda>k. k < b) xs)) xs). x < y"
      using Cons.prems by (auto dest: in_set_takeD in_set_dropD)
    then show ?thesis using True Cons by simp
  next
    case False
    then have xb: "b < x" using Cons.prems by auto
    then have "\<forall>y \<in> set xs. b < y" using Cons.prems by auto
    then have "filter (\<lambda>k. k < b) xs = []" by (auto simp add: filter_empty_conv)
    then show ?thesis using False xb Cons.prems by auto
  qed
qed

lemma list2_take: "length ks = 4 \<Longrightarrow> take 2 ks = [ks ! 0, ks ! 1]"
  by (subst list4, assumption) simp

lemma list3_take: "length ks = 4 \<Longrightarrow> take 3 ks = [ks ! 0, ks ! 1, ks ! 2]"
  by (subst list4, assumption) simp

lemma insert_pos4:
  assumes "length ks = 4" and "unat cc = 2 \<or> unat cc = 3"
  shows "(if keys_integer ks AND 0xFF < ucast b then 1 else 0 :: nat) +
         (if drop_bit 8 (keys_integer ks) AND 0xFF < ucast b then 1 else 0) +
         (if (cc :: u8) = 3 \<and> drop_bit 16 (keys_integer ks) AND 0xFF < ucast b then 1 else 0) =
         length (filter (\<lambda>k. k < b) (take (unat cc) ks))"
proof -
  have c3: "cc = 3 \<longleftrightarrow> unat cc = 3"
    by (simp add: word_unat_eq_iff)
  show ?thesis
    using assms(2)
    unfolding keys_integer_0 keys_integer_1 keys_integer_2 ucast_u8_less c3
    by (auto simp add: list2_take [OF assms(1)] list3_take [OF assms(1)])
qed

lemma add4_result:
  assumes g: "get4 h self = Some n"
    and len: "length (keys4 n) = 4" "length (children4 n) = 4"
    and cnt: "unat (children_count n) = 2 \<or> unat (children_count n) = 3"
    and srt: "sorted_wrt (<) (take (unat (children_count n)) (keys4 n))"
    and new: "b \<notin> set (take (unat (children_count n)) (keys4 n))"
    and na: "\<forall>j < unat (children_count n).
               tag (children4 n ! j) = LEAF \<or> get (children4 n ! j) \<noteq> self"
    and pos: "pos = length (filter (\<lambda>k. k < b) (take (unat (children_count n)) (keys4 n)))"
    and ra: "reparent_all h (tagged_self4 self)
               (rev (calls_up (children4 n) pos (unat (children_count n)))) = Some h'"
  shows "add4 h self leaf b =
           Some (h'(self \<mapsto> Node4 (n\<lparr>keys4 := (shift_right (keys4 n) (unat (children_count n)) pos)[pos := b],
                     children4 := (shift_right (children4 n) (unat (children_count n)) pos)
                                    [pos := create leaf LEAF],
                     children_count := children_count n + 1\<rparr>)),
                 Iterator (create leaf LEAF) (of_nat pos) (tagged_self4 self))"
    and "take (unat (children_count n) + 1)
           ((shift_right (keys4 n) (unat (children_count n)) pos)[pos := b]) =
         take pos (keys4 n) @ [b] @ drop pos (take (unat (children_count n)) (keys4 n))"
    and "sorted_wrt (<) (take pos (keys4 n) @ [b] @ drop pos (take (unat (children_count n)) (keys4 n)))"
    and "pos \<le> unat (children_count n)"
proof -
  let ?cc = "unat (children_count n)"
  let ?ks = "keys4 n" and ?cs = "children4 n" and ?sp = "tagged_self4 self"
  have ple: "pos \<le> ?cc"
    unfolding pos using length_filter_le [of "\<lambda>k. k < b" "take ?cc ?ks"] len cnt by auto
  then show "pos \<le> ?cc" .
  have c4: "?cc < 4" using cnt by auto
  have ip: "(if keys_integer ?ks AND 0xFF < ucast b then 1 else 0 :: nat) +
         (if drop_bit 8 (keys_integer ?ks) AND 0xFF < ucast b then 1 else 0) +
         (if children_count n = 3 \<and> drop_bit 16 (keys_integer ?ks) AND 0xFF < ucast b then 1 else 0) = pos"
    unfolding pos by (rule insert_pos4 [OF len(1) cnt])
  have na': "\<forall>j. pos \<le> j \<and> j < ?cc \<longrightarrow> tag (?cs ! j) = LEAF \<or> get (?cs ! j) \<noteq> self"
    using na by simp
  have sh: "add4_shift h self ?cc pos =
           Some (h'(self \<mapsto> Node4 (n\<lparr>keys4 := shift_right ?ks ?cc pos,
                                        children4 := shift_right ?cs ?cc pos\<rparr>)))"
    by (rule add4_shift_eq [OF g c4 len(2) na' ra])
  have tk: "take (?cc + 1) ((shift_right ?ks ?cc pos)[pos := b]) =
         take pos ?ks @ [b] @ drop pos (take ?cc ?ks)"
    using ple c4 len by (intro take_insert_shift_right) simp_all
  then show "take (?cc + 1) ((shift_right ?ks ?cc pos)[pos := b]) =
         take pos ?ks @ [b] @ drop pos (take ?cc ?ks)" .
  have "take pos (take ?cc ?ks) = take pos ?ks" using ple by (simp add: min_def)
  then have so: "sorted_wrt (<) (take pos ?ks @ [b] @ drop pos (take ?cc ?ks))"
    using sorted_insert_position [OF srt new] pos by simp
  then show "sorted_wrt (<) (take pos ?ks @ [b] @ drop pos (take ?cc ?ks))" .
  have u1: "unat (children_count n + 1) = ?cc + 1"
    using c4 by (simp add: unat_u8_succ)
  have a1: "is_sorted (take ?cc ?ks)" using srt by (rule strictly_sorted_is_sorted)
  have a2: "is_sorted (take (unat (children_count n + 1)) ((shift_right ?ks ?cc pos)[pos := b]))"
    unfolding u1 tk using so by (rule strictly_sorted_is_sorted)
  have nth: "(shift_right ?cs ?cc pos)[pos := create leaf LEAF] ! pos = create leaf LEAF"
    using ple c4 len by simp
  show "add4 h self leaf b =
           Some (h'(self \<mapsto> Node4 (n\<lparr>keys4 := (shift_right ?ks ?cc pos)[pos := b],
                     children4 := (shift_right ?cs ?cc pos)[pos := create leaf LEAF],
                     children_count := children_count n + 1\<rparr>)),
                 Iterator (create leaf LEAF) (of_nat pos) ?sp)"
    apply (simp only: add4_def g Option.bind.bind_lunit Let_def ip)
    using a1 a2 nth
    apply (simp add: sh get4_upd assert_that_def del: fun_upd_apply)
    done
qed

lemma example_S1:
  "do {
     (h1, _) \<leftarrow> add_two_to_empty [64 \<mapsto> Node4 (inode4_new key [k0, k1, k2, k3] [c0, c1, c2, c3])]
                   64 0x20 (create l1 LEAF) 0x10 l2;
     (h2, _) \<leftarrow> add4 h1 64 l3 0x30;
     (h3, _) \<leftarrow> add4 h2 64 l4 0x05;
     n \<leftarrow> get4 h3 64;
     Some (keys4 n, children_count n, is_full4 n,
           children4 n = [create l4 LEAF, create l2 LEAF, create l1 LEAF, create l3 LEAF])
   } = Some ([0x05, 0x10, 0x20, 0x30], 4, True, True)"
proof -
  let ?h0 = "[64 \<mapsto> Node4 (inode4_new key [k0, k1, k2, k3] [c0, c1, c2, c3])]"
  let ?n1 = "\<lparr>prefix = key, parent_ptr = nullptr, pos_in_parent = 0, children_count = 2,
              keys4 = [0x10, 0x20, 0, 0],
              children4 = [create l2 LEAF, create l1 LEAF, c2, c3]\<rparr>"
  let ?n2 = "\<lparr>prefix = key, parent_ptr = nullptr, pos_in_parent = 0, children_count = 3,
              keys4 = [0x10, 0x20, 0x30, 0],
              children4 = [create l2 LEAF, create l1 LEAF, create l3 LEAF, c3]\<rparr>"
  let ?n3 = "\<lparr>prefix = key, parent_ptr = nullptr, pos_in_parent = 0, children_count = 4,
              keys4 = [0x05, 0x10, 0x20, 0x30],
              children4 = [create l4 LEAF, create l2 LEAF, create l1 LEAF, create l3 LEAF]\<rparr>"
  have 1: "add_two_to_empty ?h0 64 0x20 (create l1 LEAF) 0x10 l2 =
             Some ([64 \<mapsto> Node4 ?n1], Iterator (create l2 LEAF) 0 (tagged_self4 64))"
    by (simp add: add_two_to_empty_def inode4_new_def min_size4_def get4_def assert_that_def
        reparent_def create_def is_sorted_def Let_def)
  have 2: "add4 [64 \<mapsto> Node4 ?n1] 64 l3 0x30 =
             Some ([64 \<mapsto> Node4 ?n2], Iterator (create l3 LEAF) 2 (tagged_self4 64))"
    by (simp add: add4_def get4_def assert_that_def keys_integer_0 keys_integer_1 keys_integer_2
        ucast_u8_less add4_shift.simps capacity4_def reparent_def create_def is_sorted_def Let_def)
  have 3: "add4 [64 \<mapsto> Node4 ?n2] 64 l4 0x05 =
             Some ([64 \<mapsto> Node4 ?n3], Iterator (create l4 LEAF) 0 (tagged_self4 64))"
    by (simp add: add4_def get4_def assert_that_def keys_integer_0 keys_integer_1 keys_integer_2
        ucast_u8_less add4_shift.simps capacity4_def reparent_def create_def is_sorted_def Let_def)
  show ?thesis
    by (simp add: 1 2 3 get4_def is_full4_def capacity4_def)
qed

lemma calls_up_fst: "cc \<le> length cs \<Longrightarrow> map fst (calls_up cs pos cc) = drop pos (take cc cs)"
  by (rule nth_equalityI) (auto simp add: calls_up_def)

lemma calls_filter_map:
  "map (\<lambda>p. get (fst p)) (filter (\<lambda>(c, i). tag c \<noteq> LEAF) xs) =
   map get (filter (\<lambda>c. tag c \<noteq> LEAF) (map fst xs))"
  by (induction xs) auto

lemma distinct_drop_filter:
  assumes "distinct (map get (filter P xs))"
  shows "distinct (map get (filter P (drop k xs)))"
proof -
  have "xs = take k xs @ drop k xs" by simp
  then have "map get (filter P xs) = map get (filter P (take k xs)) @ map get (filter P (drop k xs))"
    by (metis filter_append map_append)
  then show ?thesis using assms by (metis distinct_append)
qed

lemma calls_up_distinct:
  assumes "distinct (map get (filter (\<lambda>c. tag c \<noteq> LEAF) (take cc cs)))" and "cc \<le> length cs"
  shows "distinct (map (\<lambda>p. get (fst p)) (filter (\<lambda>(c, i). tag c \<noteq> LEAF) (calls_up cs pos cc)))"
  unfolding calls_filter_map calls_up_fst [OF assms(2)]
  using assms(1) by (rule distinct_drop_filter)

lemma distinct_rev_calls:
  "distinct (map (\<lambda>p. get (fst p)) (filter (\<lambda>(c, i). tag c \<noteq> LEAF) (rev xs))) \<longleftrightarrow>
   distinct (map (\<lambda>p. get (fst p)) (filter (\<lambda>(c, i). tag c \<noteq> LEAF) xs))"
  by (simp add: rev_filter [symmetric] rev_map [symmetric])

text \<open>
  Claim C3. For a Node4 with \<open>2 \<le> children_count < 4\<close> whose first \<open>children_count\<close> keys
  are strictly increasing and do not contain \<open>b\<close>, \<^verbatim>\<open>add(leaf, b)\<close> returns, and with
  \<open>pos\<close> the number of present keys less than \<open>b\<close>: the first \<open>children_count + 1\<close> keys are
  the old keys with \<open>b\<close> inserted at \<open>pos\<close>, the children are the old children with the
  Leaf-tagged pointer inserted at \<open>pos\<close>, the counter is incremented, the keys are again
  strictly increasing, and the fields of the node other than the arrays and the counter
  are unchanged. Every shifted child that is not a leaf (the children of a node are
  distinct nodes of the store, other than the node itself) has the node and its new
  index \<open>j + 1\<close> as back-reference; no other node changes. The iterator returned points to
  the new leaf at \<open>pos\<close>. And seeding an empty Node4 with the key bytes 0x20 and 0x10 and
  adding 0x30 and 0x05 gives the keys [0x05, 0x10, 0x20, 0x30], 4 children, and a full
  node, whatever the arrays of the fresh node held.
\<close>

theorem node4_add_sorted_insert:
  assumes g: "get4 h self = Some n"
    and len: "length (keys4 n) = 4" "length (children4 n) = 4"
    and cnt: "2 \<le> unat (children_count n)" "unat (children_count n) < 4"
    and srt: "sorted_wrt (<) (take (unat (children_count n)) (keys4 n))"
    and new: "b \<notin> set (take (unat (children_count n)) (keys4 n))"
    and kids: "\<forall>j < unat (children_count n). tag (children4 n ! j) \<noteq> LEAF \<longrightarrow>
                 get (children4 n ! j) \<noteq> self \<and> h (get (children4 n ! j)) \<noteq> None"
    and dist: "distinct (map get (filter (\<lambda>c. tag c \<noteq> LEAF)
                 (take (unat (children_count n)) (children4 n))))"
  shows "(\<exists>h' it n' pos. add4 h self leaf b = Some (h', it) \<and> get4 h' self = Some n' \<and>
            pos = length (filter (\<lambda>k. k < b) (take (unat (children_count n)) (keys4 n))) \<and>
            take (unat (children_count n) + 1) (keys4 n') =
              take pos (keys4 n) @ [b] @ drop pos (take (unat (children_count n)) (keys4 n)) \<and>
            take (unat (children_count n) + 1) (children4 n') =
              take pos (children4 n) @ [create leaf LEAF] @
              drop pos (take (unat (children_count n)) (children4 n)) \<and>
            children_count n' = children_count n + 1 \<and>
            sorted_wrt (<) (take (unat (children_count n')) (keys4 n')) \<and>
            prefix n' = prefix n \<and> parent_ptr n' = parent_ptr n \<and>
            pos_in_parent n' = pos_in_parent n \<and>
            it = Iterator (create leaf LEAF) (of_nat pos) (tagged_self4 self) \<and>
            (\<forall>j. pos \<le> j \<and> j < unat (children_count n) \<and> tag (children4 n ! j) \<noteq> LEAF \<longrightarrow>
               (\<exists>c. h (get (children4 n ! j)) = Some c \<and>
                    h' (get (children4 n ! j)) =
                      Some (assign_parent (tagged_self4 self) (of_nat (Suc j)) c))) \<and>
            (\<forall>a. a \<noteq> self \<and>
                 (\<forall>j. pos \<le> j \<and> j < unat (children_count n) \<and> tag (children4 n ! j) \<noteq> LEAF \<longrightarrow>
                      a \<noteq> get (children4 n ! j)) \<longrightarrow> h' a = h a)) \<and>
         do {
           (h1, _) \<leftarrow> add_two_to_empty [64 \<mapsto> Node4 (inode4_new key [k0, k1, k2, k3] [c0, c1, c2, c3])]
                        64 0x20 (create l1 LEAF) 0x10 l2;
           (h2, _) \<leftarrow> add4 h1 64 l3 0x30;
           (h3, _) \<leftarrow> add4 h2 64 l4 0x05;
           n \<leftarrow> get4 h3 64;
           Some (keys4 n, children_count n, is_full4 n,
                 children4 n = [create l4 LEAF, create l2 LEAF, create l1 LEAF, create l3 LEAF])
         } = Some ([0x05, 0x10, 0x20, 0x30], 4, True, True)"
proof (rule conjI [OF _ example_S1])
  let ?cc = "unat (children_count n)"
  let ?ks = "keys4 n" and ?cs = "children4 n" and ?sp = "tagged_self4 self"
  define pos where "pos = length (filter (\<lambda>k. k < b) (take ?cc ?ks))"
  let ?calls = "rev (calls_up ?cs pos ?cc)"
  have cnt': "?cc = 2 \<or> ?cc = 3" using cnt by auto
  have na: "\<forall>j < ?cc. tag (?cs ! j) = LEAF \<or> get (?cs ! j) \<noteq> self"
    using kids by blast
  have alloc: "\<forall>(c, i) \<in> set ?calls. tag c \<noteq> LEAF \<longrightarrow> h (get c) \<noteq> None"
    using kids by (auto simp add: calls_up_set)
  from reparent_all_returns [OF alloc]
  obtain h' where ra: "reparent_all h ?sp ?calls = Some h'" by blast
  let ?n' = "n\<lparr>keys4 := (shift_right ?ks ?cc pos)[pos := b],
                children4 := (shift_right ?cs ?cc pos)[pos := create leaf LEAF],
                children_count := children_count n + 1\<rparr>"
  let ?it = "Iterator (create leaf LEAF) (of_nat pos) ?sp"
  note res = add4_result [OF g len cnt' srt new na pos_def ra]
  have run: "add4 h self leaf b = Some (h'(self \<mapsto> Node4 ?n'), ?it)" by (rule res(1))
  have g': "get4 (h'(self \<mapsto> Node4 ?n')) self = Some ?n'" by (rule get4_upd)
  have ple: "pos \<le> ?cc" by (rule res(4))
  have tk: "take (?cc + 1) (keys4 ?n') = take pos ?ks @ [b] @ drop pos (take ?cc ?ks)"
    using res(2) by simp
  have "take (?cc + 1) ((shift_right ?cs ?cc pos)[pos := create leaf LEAF]) =
              take pos ?cs @ [create leaf LEAF] @ drop pos (take ?cc ?cs)"
    using ple cnt len by (intro take_insert_shift_right) simp_all
  then have tc: "take (?cc + 1) (children4 ?n') =
              take pos ?cs @ [create leaf LEAF] @ drop pos (take ?cc ?cs)"
    by simp
  have u1: "unat (children_count ?n') = ?cc + 1"
    using cnt by (simp add: unat_u8_succ)
  have so: "sorted_wrt (<) (take (unat (children_count ?n')) (keys4 ?n'))"
    unfolding u1 tk by (rule res(3))
  have dc: "distinct (map (\<lambda>p. get (fst p)) (filter (\<lambda>(c, i). tag c \<noteq> LEAF) ?calls))"
    unfolding distinct_rev_calls using dist cnt len by (intro calls_up_distinct) simp_all
  have eff: "\<exists>c. h (get (?cs ! j)) = Some c \<and>
                 (h'(self \<mapsto> Node4 ?n')) (get (?cs ! j)) = Some (assign_parent ?sp (of_nat (Suc j)) c)"
    if j: "pos \<le> j \<and> j < ?cc \<and> tag (?cs ! j) \<noteq> LEAF" for j
  proof -
    from kids j obtain c where c: "h (get (?cs ! j)) = Some c" and ns: "get (?cs ! j) \<noteq> self"
      by auto
    have "(?cs ! j, of_nat (Suc j)) \<in> set ?calls" using j by (auto simp add: calls_up_set)
    from reparent_all_effect [OF ra dc this _ c] j
    have "h' (get (?cs ! j)) = Some (assign_parent ?sp (of_nat (Suc j)) c)" by simp
    then show ?thesis using c ns by simp
  qed
  have frame: "(h'(self \<mapsto> Node4 ?n')) a = h a"
    if a: "a \<noteq> self \<and> (\<forall>j. pos \<le> j \<and> j < ?cc \<and> tag (?cs ! j) \<noteq> LEAF \<longrightarrow> a \<noteq> get (?cs ! j))" for a
  proof -
    have "\<forall>(c, i) \<in> set ?calls. tag c = LEAF \<or> a \<noteq> get c"
      using a by (auto simp add: calls_up_set)
    from reparent_all_frame [OF ra this] a show ?thesis by simp
  qed
  have f: "prefix ?n' = prefix n" "parent_ptr ?n' = parent_ptr n" "pos_in_parent ?n' = pos_in_parent n"
    "children_count ?n' = children_count n + 1"
    by simp_all
  show "\<exists>h' it n' pos. add4 h self leaf b = Some (h', it) \<and> get4 h' self = Some n' \<and>
            pos = length (filter (\<lambda>k. k < b) (take ?cc ?ks)) \<and>
            take (?cc + 1) (keys4 n') = take pos ?ks @ [b] @ drop pos (take ?cc ?ks) \<and>
            take (?cc + 1) (children4 n') =
              take pos ?cs @ [create leaf LEAF] @ drop pos (take ?cc ?cs) \<and>
            children_count n' = children_count n + 1 \<and>
            sorted_wrt (<) (take (unat (children_count n')) (keys4 n')) \<and>
            prefix n' = prefix n \<and> parent_ptr n' = parent_ptr n \<and>
            pos_in_parent n' = pos_in_parent n \<and>
            it = Iterator (create leaf LEAF) (of_nat pos) ?sp \<and>
            (\<forall>j. pos \<le> j \<and> j < ?cc \<and> tag (?cs ! j) \<noteq> LEAF \<longrightarrow>
               (\<exists>c. h (get (?cs ! j)) = Some c \<and>
                    h' (get (?cs ! j)) = Some (assign_parent ?sp (of_nat (Suc j)) c))) \<and>
            (\<forall>a. a \<noteq> self \<and>
                 (\<forall>j. pos \<le> j \<and> j < ?cc \<and> tag (?cs ! j) \<noteq> LEAF \<longrightarrow> a \<noteq> get (?cs ! j)) \<longrightarrow>
                 h' a = h a)"
    apply (rule exI [of _ "h'(self \<mapsto> Node4 ?n')"])
    apply (rule exI [of _ ?it])
    apply (rule exI [of _ ?n'])
    apply (rule exI [of _ pos])
    apply (intro conjI allI impI)
                apply (rule run)
               apply (rule g')
              apply (rule pos_def)
             apply (rule tk)
            apply (rule tc)
           apply (rule f(4))
          apply (rule so)
         apply (rule f(1))
        apply (rule f(2))
       apply (rule f(3))
      apply (rule refl)
     apply (erule eff)
    apply (erule frame)
    done
qed

theorem node4_add_sorted_insert_witness:
  "\<exists>h' n'. add4 example_tree 64 40 0x18 =
       Some (h', Iterator (NodePtr 40 LEAF) 1 (NodePtr 64 I4)) \<and>
     get4 h' 64 = Some n' \<and> take 4 (keys4 n') = [0x10, 0x18, 0x20, 0x30] \<and>
     take 4 (children4 n') = [NodePtr 8 LEAF, NodePtr 40 LEAF, NodePtr 128 I4, NodePtr 16 LEAF] \<and>
     children_count n' = 4 \<and>
     h' 128 = Some (Node4 (example4_inner\<lparr>parent_ptr := NodePtr 64 I4, pos_in_parent := 2\<rparr>))"
proof -
  have g: "get4 example_tree 64 = Some example4_root"
    by (simp add: example_tree_def get4_def)
  have cc: "unat (children_count example4_root) = 3"
    and ks: "keys4 example4_root = [0x10, 0x20, 0x30, 0]"
    and cs: "children4 example4_root = [NodePtr 8 LEAF, NodePtr 128 I4, NodePtr 16 LEAF, nullptr]"
    by (simp_all add: example4_root_def)
  have len: "length (keys4 example4_root) = 4" "length (children4 example4_root) = 4"
    by (simp_all add: ks cs)
  have cnt: "2 \<le> unat (children_count example4_root)" "unat (children_count example4_root) < 4"
    by (simp_all add: cc)
  have srt: "sorted_wrt (<) (take (unat (children_count example4_root)) (keys4 example4_root))"
    by (simp add: cc ks)
  have new: "0x18 \<notin> set (take (unat (children_count example4_root)) (keys4 example4_root))"
    by (simp add: cc ks)
  have kids: "\<forall>j < unat (children_count example4_root).
      tag (children4 example4_root ! j) \<noteq> LEAF \<longrightarrow>
      get (children4 example4_root ! j) \<noteq> 64 \<and>
      example_tree (get (children4 example4_root ! j)) \<noteq> None"
    by (simp add: cc cs example_tree_def less_Suc_eq numeral_3_eq_3)
  have dist: "distinct (map get (filter (\<lambda>c. tag c \<noteq> LEAF)
      (take (unat (children_count example4_root)) (children4 example4_root))))"
    by (simp add: cc cs)
  have pos: "length (filter (\<lambda>k. k < 0x18) (take (unat (children_count example4_root))
      (keys4 example4_root))) = 1"
    by (simp add: cc ks)
  from node4_add_sorted_insert [OF g len cnt srt new kids dist, THEN conjunct1, of 40]
  obtain h' it n' pos where
    r: "add4 example_tree 64 40 0x18 = Some (h', it)" "get4 h' 64 = Some n'"
      "pos = length (filter (\<lambda>k. k < 0x18) (take (unat (children_count example4_root))
         (keys4 example4_root)))"
      "take (unat (children_count example4_root) + 1) (keys4 n') =
         take pos (keys4 example4_root) @ [0x18] @
         drop pos (take (unat (children_count example4_root)) (keys4 example4_root))"
      "take (unat (children_count example4_root) + 1) (children4 n') =
         take pos (children4 example4_root) @ [create 40 LEAF] @
         drop pos (take (unat (children_count example4_root)) (children4 example4_root))"
      "children_count n' = children_count example4_root + 1"
      "it = Iterator (create 40 LEAF) (of_nat pos) (tagged_self4 64)"
      and e: "\<forall>j. pos \<le> j \<and> j < unat (children_count example4_root) \<and>
               tag (children4 example4_root ! j) \<noteq> LEAF \<longrightarrow>
               (\<exists>c. example_tree (get (children4 example4_root ! j)) = Some c \<and>
                    h' (get (children4 example4_root ! j)) =
                      Some (assign_parent (tagged_self4 64) (of_nat (Suc j)) c))"
    by blast
  have p1: "pos = 1" using r(3) pos by simp
  from e [rule_format, of 1]
  have h128: "h' 128 = Some (Node4 (example4_inner\<lparr>parent_ptr := NodePtr 64 I4, pos_in_parent := 2\<rparr>))"
    by (simp add: p1 cc cs example_tree_def tagged_self4_def create_def assign_parent_impl_def)
  have "take 4 (keys4 n') = [0x10, 0x18, 0x20, 0x30]"
    using r(4) by (simp add: p1 cc ks)
  moreover have "take 4 (children4 n') = [NodePtr 8 LEAF, NodePtr 40 LEAF, NodePtr 128 I4, NodePtr 16 LEAF]"
    using r(5) by (simp add: p1 cc cs create_def)
  moreover have "children_count n' = 4"
    using r(6) by (simp add: example4_root_def)
  moreover have "it = Iterator (NodePtr 40 LEAF) 1 (NodePtr 64 I4)"
    using r(7) by (simp add: p1 create_def tagged_self4_def)
  ultimately show ?thesis using r(1,2) h128 by blast
qed

subsection \<open>The loops of remove and of Node16\<close>

lemma calls_down_Cons:
  "i + 1 < cc \<Longrightarrow> calls_down cs i cc = (cs ! (i + 1), of_nat i) # calls_down cs (i + 1) cc"
  by (simp add: calls_down_def upt_conv_Cons)

lemma calls_down_empty: "cc \<le> i + 1 \<Longrightarrow> calls_down cs i cc = []"
  by (simp add: calls_down_def)

lemma calls_down_update: "k \<le> i \<Longrightarrow> calls_down (cs[k := v]) i cc = calls_down cs i cc"
  by (simp add: calls_down_def)

lemma calls_down_set:
  "(c, x) \<in> set (calls_down cs i cc) \<longleftrightarrow> (\<exists>j. i < j \<and> j < cc \<and> c = cs ! j \<and> x = of_nat (j - 1))"
proof
  assume "(c, x) \<in> set (calls_down cs i cc)"
  then obtain j where "j \<in> set [i + 1..<cc]" and "(c, x) = (cs ! j, of_nat (j - 1))"
    unfolding calls_down_def set_map by blast
  then have "i < j \<and> j < cc \<and> c = cs ! j \<and> x = of_nat (j - 1)"
    by (simp only: set_upt atLeastLessThan_iff prod.inject) arith
  then show "\<exists>j. i < j \<and> j < cc \<and> c = cs ! j \<and> x = of_nat (j - 1)" ..
next
  assume "\<exists>j. i < j \<and> j < cc \<and> c = cs ! j \<and> x = of_nat (j - 1)"
  then obtain j where j: "i < j" "j < cc" and e: "c = cs ! j" "x = of_nat (j - 1)" by blast
  from j have "j \<in> set [i + 1..<cc]" by simp
  then have "(cs ! j, of_nat (j - 1)) \<in> (\<lambda>j. (cs ! j, of_nat (j - 1))) ` set [i + 1..<cc]"
    by (rule imageI)
  then show "(c, x) \<in> set (calls_down cs i cc)"
    unfolding calls_down_def set_map e .
qed

lemma shift_left_stop: "\<not> i < n - 1 \<Longrightarrow> shift_left xs i n = xs"
  by (subst shift_left.simps) simp

lemma shift_left_rec:
  assumes "i + 1 < n"
  shows "shift_left xs i n = shift_left (xs[i := xs ! (i + 1)]) (i + 1) n"
proof -
  have "i < n - 1" using assms by arith
  then show ?thesis by (subst shift_left.simps) (simp only: if_True)
qed

lemma calls_up_Cons:
  "i < cc \<Longrightarrow> calls_up cs i cc = (cs ! i, of_nat (Suc i)) # calls_up cs (Suc i) cc"
  by (simp add: calls_up_def upt_conv_Cons)

lemma remove4_loop_eq:
  assumes "get4 h self = Some n" and "unat (children_count n) \<le> 4" and "length (children4 n) = 4"
    and "\<forall>j. i < j \<and> j < unat (children_count n) \<longrightarrow>
           tag (children4 n ! j) = LEAF \<or> get (children4 n ! j) \<noteq> self"
    and "reparent_all h (tagged_self4 self) (calls_down (children4 n) i (unat (children_count n))) = Some h'"
  shows "remove4_loop h self i =
           Some (h'(self \<mapsto> Node4 (n\<lparr>keys4 := shift_left (keys4 n) i (unat (children_count n)),
                                        children4 := shift_left (children4 n) i (unat (children_count n))\<rparr>)))"
  using assms
proof (induction "unat (children_count n) - i" arbitrary: i h n h')
  case 0
  then have e: "unat (children_count n) \<le> i + 1" by simp
  then have "h' = h" using "0.prems"(5) by (simp add: calls_down_empty)
  moreover have "h(self \<mapsto> Node4 n) = h"
    using "0.prems"(1) by (simp add: get4_Some fun_upd_idem)
  moreover have "\<not> i < unat (children_count n) - 1" using e by arith
  ultimately show ?case using "0.prems"(1)
    by (subst remove4_loop.simps) (simp add: shift_left_stop)
next
  case (Suc d)
  let ?cc = "unat (children_count n)"
  let ?ks = "keys4 n" and ?cs = "children4 n" and ?sp = "tagged_self4 self"
  show ?case
  proof (cases "i + 1 < ?cc")
    case False
    then have e: "?cc \<le> i + 1" by simp
    then have "h' = h" using Suc.prems(5) by (simp add: calls_down_empty)
    moreover have "h(self \<mapsto> Node4 n) = h"
      using Suc.prems(1) by (simp add: get4_Some fun_upd_idem)
    moreover have "\<not> i < ?cc - 1" using e by arith
    ultimately show ?thesis using Suc.prems(1)
      by (subst remove4_loop.simps) (simp add: shift_left_stop)
  next
    case True
    let ?n2 = "n\<lparr>keys4 := ?ks[i := ?ks ! (i + 1)], children4 := ?cs[i := ?cs ! (i + 1)]\<rparr>"
    from Suc.prems(5) True obtain h1 where h1: "reparent h ?sp (?cs ! (i + 1)) (of_nat i) = Some h1"
      "reparent_all h1 ?sp (calls_down ?cs (i + 1) ?cc) = Some h'"
      by (auto simp add: calls_down_Cons split: option.splits)
    have na_i: "tag (?cs ! (i + 1)) = LEAF \<or> get (?cs ! (i + 1)) \<noteq> self"
      using Suc.prems(4) True by simp
    have r1: "reparent (h(self \<mapsto> Node4 ?n2)) ?sp (?cs ! (i + 1)) (of_nat i) = Some (h1(self \<mapsto> Node4 ?n2))"
      using na_i h1(1) by (rule reparent_upd_Some)
    have c2: "children4 ?n2 ! (i + 1) = ?cs ! (i + 1)"
      by simp
    have na2: "\<forall>j. i + 1 < j \<and> j < unat (children_count ?n2) \<longrightarrow>
                 tag (children4 ?n2 ! j) = LEAF \<or> get (children4 ?n2 ! j) \<noteq> self"
      using Suc.prems(4) by simp
    have na_all: "\<forall>(c, x) \<in> set (calls_down ?cs (i + 1) ?cc). tag c = LEAF \<or> get c \<noteq> self"
    proof -
      have "tag c = LEAF \<or> get c \<noteq> self" if "(c, x) \<in> set (calls_down ?cs (i + 1) ?cc)" for c x
      proof -
        from that obtain j where "i + 1 < j" "j < ?cc" "c = ?cs ! j"
          by (auto simp add: calls_down_set)
        then show ?thesis using Suc.prems(4) by simp
      qed
      then show ?thesis by blast
    qed
    have ra2: "reparent_all (h1(self \<mapsto> Node4 ?n2)) ?sp
                 (calls_down (children4 ?n2) (i + 1) (unat (children_count ?n2))) =
               Some (h'(self \<mapsto> Node4 ?n2))"
      using reparent_all_upd_Some [OF na_all h1(2)] by (simp add: calls_down_update del: fun_upd_apply)
    have g2: "get4 (h1(self \<mapsto> Node4 ?n2)) self = Some ?n2" by (rule get4_upd)
    have d: "d = unat (children_count ?n2) - (i + 1)" using Suc.hyps(2) by simp
    have c4: "unat (children_count ?n2) \<le> 4" using Suc.prems(2) by simp
    have l2: "length (children4 ?n2) = 4" using Suc.prems(3) by simp
    have ih: "remove4_loop (h1(self \<mapsto> Node4 ?n2)) self (i + 1) =
        Some ((h'(self \<mapsto> Node4 ?n2))(self \<mapsto> Node4 (?n2\<lparr>
            keys4 := shift_left (keys4 ?n2) (i + 1) (unat (children_count ?n2)),
            children4 := shift_left (children4 ?n2) (i + 1) (unat (children_count ?n2))\<rparr>)))"
      by (rule Suc.hyps(1) [OF d g2 c4 l2 na2 ra2])
    have sk: "shift_left ?ks i ?cc = shift_left (?ks[i := ?ks ! (i + 1)]) (i + 1) ?cc"
      and sc: "shift_left ?cs i ?cc = shift_left (?cs[i := ?cs ! (i + 1)]) (i + 1) ?cc"
      using True by (rule shift_left_rec)+
    have lt: "i < ?cc - 1" using True by arith
    have "remove4_loop h self i = remove4_loop (h1(self \<mapsto> Node4 ?n2)) self (i + 1)"
      using True lt Suc.prems(1,2) r1 c2
      by (subst remove4_loop.simps) (simp add: capacity4_def Let_def del: fun_upd_apply)
    then show ?thesis unfolding ih sk sc by (simp del: fun_upd_apply)
  qed
qed

lemma add16_reparent_eq:
  assumes "get16 h self = Some n" and "i \<le> cc" and "cc \<le> 16"
    and "\<forall>j. i \<le> j \<and> j < cc \<longrightarrow> tag (children16 n ! j) = LEAF \<or> get (children16 n ! j) \<noteq> self"
    and "reparent_all h (tagged_self16 self) (calls_up (children16 n) i cc) = Some h'"
  shows "add16_reparent h self i cc = Some h'"
  using assms
proof (induction "cc - i" arbitrary: i h)
  case 0
  then have "i = cc" by simp
  then show ?case using "0.prems"(5)
    by (subst add16_reparent.simps) (simp add: calls_up_empty)
next
  case (Suc d)
  let ?cs = "children16 n" and ?sp = "tagged_self16 self"
  have lt: "i < cc" using Suc.hyps(2) by simp
  from Suc.prems(5) lt obtain h1 where h1: "reparent h ?sp (?cs ! i) (of_nat (Suc i)) = Some h1"
    "reparent_all h1 ?sp (calls_up ?cs (Suc i) cc) = Some h'"
    by (auto simp add: calls_up_Cons split: option.splits)
  have na_i: "tag (?cs ! i) = LEAF \<or> self \<noteq> get (?cs ! i)"
    using Suc.prems(4) lt by auto
  have "h1 self = h self" using h1(1) na_i by (rule reparent_frame)
  then have g1: "get16 h1 self = Some n" using Suc.prems(1) by (simp add: get16_def)
  have ih: "add16_reparent h1 self (Suc i) cc = Some h'"
    using Suc.hyps(2) lt Suc.prems(3,4) h1(2) g1
    by (intro Suc.hyps(1)) simp_all
  show ?case using lt Suc.prems(1,3) h1(1) ih
    by (subst add16_reparent.simps) (simp add: capacity16_def)
qed

lemma remove16_loop_eq:
  assumes "get16 h self = Some n" and "cc \<le> 16" and "length (children16 n) = 16"
    and "\<forall>j. i < j \<and> j < cc \<longrightarrow> tag (children16 n ! j) = LEAF \<or> get (children16 n ! j) \<noteq> self"
    and "reparent_all h (tagged_self16 self) (calls_down (children16 n) i cc) = Some h'"
  shows "remove16_loop h self (i + 1) cc =
           Some (h'(self \<mapsto> Node16 (n\<lparr>keys16 := shift_left (keys16 n) i cc,
                                          children16 := shift_left (children16 n) i cc\<rparr>)))"
  using assms
proof (induction "cc - i" arbitrary: i h n h')
  case 0
  then have e: "cc \<le> i + 1" by simp
  then have "h' = h" using "0.prems"(5) by (simp add: calls_down_empty)
  moreover have "h(self \<mapsto> Node16 n) = h"
    using "0.prems"(1) by (simp add: get16_Some fun_upd_idem)
  moreover have "\<not> i < cc - 1" using e by arith
  ultimately show ?case using e
    by (subst remove16_loop.simps) (simp add: shift_left_stop)
next
  case (Suc d)
  let ?ks = "keys16 n" and ?cs = "children16 n" and ?sp = "tagged_self16 self"
  show ?case
  proof (cases "i + 1 < cc")
    case False
    then have e: "cc \<le> i + 1" by simp
    then have "h' = h" using Suc.prems(5) by (simp add: calls_down_empty)
    moreover have "h(self \<mapsto> Node16 n) = h"
      using Suc.prems(1) by (simp add: get16_Some fun_upd_idem)
    moreover have "\<not> i < cc - 1" using e by arith
    ultimately show ?thesis using e
      by (subst remove16_loop.simps) (simp add: shift_left_stop)
  next
    case True
    let ?n2 = "n\<lparr>keys16 := ?ks[i := ?ks ! (i + 1)], children16 := ?cs[i := ?cs ! (i + 1)]\<rparr>"
    from Suc.prems(5) True obtain h1 where h1: "reparent h ?sp (?cs ! (i + 1)) (of_nat i) = Some h1"
      "reparent_all h1 ?sp (calls_down ?cs (i + 1) cc) = Some h'"
      by (auto simp add: calls_down_Cons split: option.splits)
    have na_i: "tag (?cs ! (i + 1)) = LEAF \<or> get (?cs ! (i + 1)) \<noteq> self"
      using Suc.prems(4) True by simp
    have r1: "reparent (h(self \<mapsto> Node16 ?n2)) ?sp (?cs ! (i + 1)) (of_nat i) = Some (h1(self \<mapsto> Node16 ?n2))"
      using na_i h1(1) by (rule reparent_upd_Some)
    have c2: "children16 ?n2 ! (i + 1) = ?cs ! (i + 1)"
      by simp
    have na2: "\<forall>j. i + 1 < j \<and> j < cc \<longrightarrow>
                 tag (children16 ?n2 ! j) = LEAF \<or> get (children16 ?n2 ! j) \<noteq> self"
      using Suc.prems(4) by simp
    have na_all: "\<forall>(c, x) \<in> set (calls_down ?cs (i + 1) cc). tag c = LEAF \<or> get c \<noteq> self"
    proof -
      have "tag c = LEAF \<or> get c \<noteq> self" if "(c, x) \<in> set (calls_down ?cs (i + 1) cc)" for c x
      proof -
        from that obtain j where "i + 1 < j" "j < cc" "c = ?cs ! j"
          by (auto simp add: calls_down_set)
        then show ?thesis using Suc.prems(4) by simp
      qed
      then show ?thesis by blast
    qed
    have ra2: "reparent_all (h1(self \<mapsto> Node16 ?n2)) ?sp (calls_down (children16 ?n2) (i + 1) cc) =
               Some (h'(self \<mapsto> Node16 ?n2))"
      using reparent_all_upd_Some [OF na_all h1(2)] by (simp add: calls_down_update del: fun_upd_apply)
    have g2: "get16 (h1(self \<mapsto> Node16 ?n2)) self = Some ?n2" by (rule get16_upd)
    have d: "d = cc - (i + 1)" using Suc.hyps(2) by simp
    have l2: "length (children16 ?n2) = 16" using Suc.prems(3) by simp
    have ih: "remove16_loop (h1(self \<mapsto> Node16 ?n2)) self (i + 1 + 1) cc =
        Some ((h'(self \<mapsto> Node16 ?n2))(self \<mapsto> Node16 (?n2\<lparr>
            keys16 := shift_left (keys16 ?n2) (i + 1) cc,
            children16 := shift_left (children16 ?n2) (i + 1) cc\<rparr>)))"
      by (rule Suc.hyps(1) [OF d g2 Suc.prems(2) l2 na2 ra2])
    have sk: "shift_left ?ks i cc = shift_left (?ks[i := ?ks ! (i + 1)]) (i + 1) cc"
      and sc: "shift_left ?cs i cc = shift_left (?cs[i := ?cs ! (i + 1)]) (i + 1) cc"
      using True by (rule shift_left_rec)+
    have "remove16_loop h self (i + 1) cc = remove16_loop (h1(self \<mapsto> Node16 ?n2)) self (i + 1 + 1) cc"
      using True Suc.prems(1,2) r1 c2
      by (subst remove16_loop.simps) (simp add: capacity16_def Let_def del: fun_upd_apply)
    then show ?thesis unfolding ih sk sc by (simp del: fun_upd_apply)
  qed
qed

subsection \<open>add and remove of the sorted nodes\<close>

lemma remove4_result:
  assumes g: "get4 h self = Some n" and len: "length (children4 n) = 4"
    and cnt: "unat (children_count n) \<le> 4" and idx: "child_index < children_count n"
    and srt: "is_sorted (take (unat (children_count n)) (keys4 n))"
    and na: "\<forall>j. unat child_index < j \<and> j < unat (children_count n) \<longrightarrow>
               tag (children4 n ! j) = LEAF \<or> get (children4 n ! j) \<noteq> self"
    and ra: "reparent_all h (tagged_self4 self)
               (calls_down (children4 n) (unat child_index) (unat (children_count n))) = Some h'"
    and post: "is_sorted (take (unat (children_count n - 1))
                 (shift_left (keys4 n) (unat child_index) (unat (children_count n))))"
  shows "remove4 h self child_index =
           Some (h'(self \<mapsto> Node4 (n\<lparr>keys4 := shift_left (keys4 n) (unat child_index) (unat (children_count n)),
                     children4 := shift_left (children4 n) (unat child_index) (unat (children_count n)),
                     children_count := children_count n - 1\<rparr>)))"
proof -
  have lp: "remove4_loop h self (unat child_index) =
        Some (h'(self \<mapsto> Node4 (n\<lparr>keys4 := shift_left (keys4 n) (unat child_index) (unat (children_count n)),
           children4 := shift_left (children4 n) (unat child_index) (unat (children_count n))\<rparr>)))"
    by (rule remove4_loop_eq [OF g cnt len na ra])
  show ?thesis
    apply (simp only: remove4_def g Option.bind.bind_lunit Let_def lp)
    using idx srt post
    apply (simp add: get4_upd assert_that_def del: fun_upd_apply)
    done
qed

lemma remove16_result:
  assumes g: "get16 h self = Some n" and len: "length (children16 n) = 16"
    and cnt: "unat (children_count n) \<le> 16" and idx: "child_index < children_count n"
    and srt: "is_sorted (take (unat (children_count n)) (keys16 n))"
    and na: "\<forall>j. unat child_index < j \<and> j < unat (children_count n) \<longrightarrow>
               tag (children16 n ! j) = LEAF \<or> get (children16 n ! j) \<noteq> self"
    and ra: "reparent_all h (tagged_self16 self)
               (calls_down (children16 n) (unat child_index) (unat (children_count n))) = Some h'"
    and post: "is_sorted (take (unat (children_count n - 1))
                 (shift_left (keys16 n) (unat child_index) (unat (children_count n))))"
  shows "remove16 h self child_index =
           Some (h'(self \<mapsto> Node16 (n\<lparr>keys16 := shift_left (keys16 n) (unat child_index) (unat (children_count n)),
                     children16 := shift_left (children16 n) (unat child_index) (unat (children_count n)),
                     children_count := children_count n - 1\<rparr>)))"
proof -
  have lp: "remove16_loop h self (unat child_index + 1) (unat (children_count n)) =
        Some (h'(self \<mapsto> Node16 (n\<lparr>keys16 := shift_left (keys16 n) (unat child_index) (unat (children_count n)),
           children16 := shift_left (children16 n) (unat child_index) (unat (children_count n))\<rparr>)))"
    by (rule remove16_loop_eq [OF g cnt len na ra])
  show ?thesis
    apply (simp only: remove16_def g Option.bind.bind_lunit Let_def lp)
    using idx srt post
    apply (simp add: get16_upd assert_that_def del: fun_upd_apply)
    done
qed

lemma shift_right_stop: "shift_right xs cc cc = xs"
  by (subst shift_right.simps) simp

lemma copy_backward_shift_right_Suc: "copy_backward xs pos cc (Suc cc) = shift_right xs cc pos"
  using copy_backward_shift_right [of xs pos cc] by simp

lemma add16_result:
  assumes g: "get16 h self = Some n"
    and len: "length (keys16 n) = 16" "length (children16 n) = 16"
    and cnt: "unat (children_count n) < 16"
    and srt: "sorted_wrt (<) (take (unat (children_count n)) (keys16 n))"
    and new: "b \<notin> set (take (unat (children_count n)) (keys16 n))"
    and na: "\<forall>j < unat (children_count n).
               tag (children16 n ! j) = LEAF \<or> get (children16 n ! j) \<noteq> self"
    and pos: "pos = length (filter (\<lambda>k. k < b) (take (unat (children_count n)) (keys16 n)))"
    and ra: "reparent_all h (tagged_self16 self)
               (calls_up (children16 n) pos (unat (children_count n))) = Some h'"
  shows "add16 h self leaf b =
           Some (h'(self \<mapsto> Node16 (n\<lparr>keys16 := (shift_right (keys16 n) (unat (children_count n)) pos)[pos := b],
                     children16 := (shift_right (children16 n) (unat (children_count n)) pos)
                                    [pos := create leaf LEAF],
                     children_count := children_count n + 1\<rparr>)),
                 Iterator (create leaf LEAF) (of_nat pos) (tagged_self16 self))"
    and "take (unat (children_count n) + 1)
           ((shift_right (keys16 n) (unat (children_count n)) pos)[pos := b]) =
         take pos (keys16 n) @ [b] @ drop pos (take (unat (children_count n)) (keys16 n))"
    and "sorted_wrt (<) (take pos (keys16 n) @ [b] @ drop pos (take (unat (children_count n)) (keys16 n)))"
    and "pos \<le> unat (children_count n)"
proof -
  let ?cc = "unat (children_count n)"
  let ?ks = "keys16 n" and ?cs = "children16 n" and ?sp = "tagged_self16 self"
  have ple: "pos \<le> ?cc"
    unfolding pos using length_filter_le [of "\<lambda>k. k < b" "take ?cc ?ks"] len cnt by auto
  then show "pos \<le> ?cc" .
  from insert_position16 [OF len(1) cnt srt new] pos
  obtain r where r: "get_sorted_key_array_insert_position n b = Some r"
    "r = children_count n \<or> (r < children_count n \<and> b < ?ks ! unat r)" "unat r = pos"
    by auto
  have rp: "r = of_nat pos" unfolding r(3) [symmetric] by simp
  have tk: "take (?cc + 1) ((shift_right ?ks ?cc pos)[pos := b]) =
         take pos ?ks @ [b] @ drop pos (take ?cc ?ks)"
    using ple cnt len by (intro take_insert_shift_right) simp_all
  then show "take (?cc + 1) ((shift_right ?ks ?cc pos)[pos := b]) =
         take pos ?ks @ [b] @ drop pos (take ?cc ?ks)" .
  have "take pos (take ?cc ?ks) = take pos ?ks" using ple by (simp add: min_def)
  then have so: "sorted_wrt (<) (take pos ?ks @ [b] @ drop pos (take ?cc ?ks))"
    using sorted_insert_position [OF srt new] pos by simp
  then show "sorted_wrt (<) (take pos ?ks @ [b] @ drop pos (take ?cc ?ks))" .
  have u1: "unat (children_count n + 1) = ?cc + 1"
    using cnt by (simp add: unat_u8_succ)
  have a2: "is_sorted (take (unat (children_count n + 1)) ((shift_right ?ks ?cc pos)[pos := b]))"
    unfolding u1 tk using so by (rule strictly_sorted_is_sorted)
  have nth: "(shift_right ?cs ?cc pos)[pos := create leaf LEAF] ! pos = create leaf LEAF"
    using ple cnt len by simp
  let ?n1 = "n\<lparr>keys16 := shift_right ?ks ?cc pos\<rparr>"
  have main: "add16 h self leaf b =
           Some (h'(self \<mapsto> Node16 (n\<lparr>keys16 := (shift_right ?ks ?cc pos)[pos := b],
                     children16 := (shift_right ?cs ?cc pos)[pos := create leaf LEAF],
                     children_count := children_count n + 1\<rparr>)),
                 Iterator (create leaf LEAF) r ?sp)"
  proof (cases "r = children_count n")
    case True
    then have pc: "pos = ?cc" using r(3) by simp
    then have "h' = h" using ra by (simp add: calls_up_empty)
    then show ?thesis using True pc [symmetric] g r(1) a2 nth
      by (simp add: add16_def Let_def assert_that_def shift_right_stop del: fun_upd_apply)
  next
    case False
    then have ne: "?ks ! pos \<noteq> b" using r(2,3) by auto
    have na_all: "\<forall>(c, x) \<in> set (calls_up ?cs pos ?cc). tag c = LEAF \<or> get c \<noteq> self"
      using na by (auto simp add: calls_up_set)
    have ra1: "reparent_all (h(self \<mapsto> Node16 ?n1)) ?sp (calls_up (children16 ?n1) pos ?cc) =
                 Some (h'(self \<mapsto> Node16 ?n1))"
      using reparent_all_upd_Some [OF na_all ra] by (simp del: fun_upd_apply)
    have g1: "get16 (h(self \<mapsto> Node16 ?n1)) self = Some ?n1" by (rule get16_upd)
    have na1: "\<forall>j. pos \<le> j \<and> j < ?cc \<longrightarrow>
                 tag (children16 ?n1 ! j) = LEAF \<or> get (children16 ?n1 ! j) \<noteq> self"
      using na by simp
    have c16: "?cc \<le> 16" using cnt by simp
    have lp: "add16_reparent (h(self \<mapsto> Node16 ?n1)) self pos ?cc = Some (h'(self \<mapsto> Node16 ?n1))"
      by (rule add16_reparent_eq [OF g1 ple c16 na1 ra1])
    show ?thesis using False g r(1) ne lp a2 nth
      by (simp add: add16_def Let_def r(3) assert_that_def copy_backward_shift_right_Suc get16_upd
          del: fun_upd_apply)
  qed
  show "add16 h self leaf b =
           Some (h'(self \<mapsto> Node16 (n\<lparr>keys16 := (shift_right ?ks ?cc pos)[pos := b],
                     children16 := (shift_right ?cs ?cc pos)[pos := create leaf LEAF],
                     children_count := children_count n + 1\<rparr>)),
                 Iterator (create leaf LEAF) (of_nat pos) ?sp)"
    unfolding main rp ..
qed

subsection \<open>add followed by remove\<close>

lemma roundtrip_child_map:
  assumes "pos \<le> cc" and "cc < length ks" and "cc < length cs"
  shows "map_of (zip (take cc (shift_left ((shift_right ks cc pos)[pos := b]) pos (cc + 1)))
                     (shift_left ((shift_right cs cc pos)[pos := v]) pos (cc + 1)))
         = map_of (zip (take cc ks) cs)"
proof -
  let ?K = "shift_left ((shift_right ks cc pos)[pos := b]) pos (cc + 1)"
  let ?C = "shift_left ((shift_right cs cc pos)[pos := v]) pos (cc + 1)"
  have k: "take cc ?K = take cc ks" using assms(1,2) by (rule take_shift_left_insert)
  have c: "take cc ?C = take cc cs" using assms(1,3) by (rule take_shift_left_insert)
  have l: "length (take cc ks) = cc" using assms(2) by simp
  have "zip (take cc ?K) ?C = zip (take cc ks) (take cc ?C)"
    unfolding k using zip_take_right [of "take cc ks" ?C] l by simp
  also have "\<dots> = zip (take cc ks) (take cc cs)" unfolding c ..
  also have "\<dots> = zip (take cc ks) cs"
    using zip_take_right [of "take cc ks" cs] l by simp
  finally show ?thesis by simp
qed

lemma add_remove4:
  assumes g: "get4 h self = Some n" and wf: "node4_wf n" and nf: "\<not> is_full4 n"
    and new: "b \<notin> dom (child_map (Node4 n))"
    and kids: "\<forall>j < unat (children_count n). tag (children4 n ! j) \<noteq> LEAF \<longrightarrow>
                 get (children4 n ! j) \<noteq> self \<and> h (get (children4 n ! j)) \<noteq> None"
  shows "\<exists>h1 it n1 h2 n2. add4 h self leaf b = Some (h1, it) \<and> get4 h1 self = Some n1 \<and>
           index_key (Node4 n1) (index it) = b \<and> children_count n1 = children_count n + 1 \<and>
           remove4 h1 self (index it) = Some h2 \<and> get4 h2 self = Some n2 \<and>
           child_map (Node4 n2) = child_map (Node4 n) \<and>
           children_count n2 = children_count n \<and>
           prefix n2 = prefix n \<and> parent_ptr n2 = parent_ptr n \<and> pos_in_parent n2 = pos_in_parent n"
proof -
  let ?cc = "unat (children_count n)"
  let ?ks = "keys4 n" and ?cs = "children4 n" and ?sp = "tagged_self4 self"
  from wf have len: "length ?ks = 4" "length ?cs = 4" and lo: "2 \<le> ?cc" and hi: "?cc \<le> 4"
    and srt: "sorted_wrt (<) (take ?cc ?ks)"
    by (simp_all add: node4_wf_def min_size4_def capacity4_def)
  have c4: "?cc < 4" using nf hi by (simp add: is_full4_def capacity4_def)
  have cnt': "?cc = 2 \<or> ?cc = 3" using lo c4 by auto
  have new': "b \<notin> set (take ?cc ?ks)"
    using new dom_map_of_take_zip [of ?cc ?ks ?cs] len hi by simp
  define pos where "pos = length (filter (\<lambda>k. k < b) (take ?cc ?ks))"
  have na: "\<forall>j < ?cc. tag (?cs ! j) = LEAF \<or> get (?cs ! j) \<noteq> self"
    using kids by blast
  have alloc: "\<forall>(c, i) \<in> set (rev (calls_up ?cs pos ?cc)). tag c \<noteq> LEAF \<longrightarrow> h (get c) \<noteq> None"
    using kids by (auto simp add: calls_up_set)
  from reparent_all_returns [OF alloc]
  obtain h' where ra: "reparent_all h ?sp (rev (calls_up ?cs pos ?cc)) = Some h'" by blast
  let ?K1 = "(shift_right ?ks ?cc pos)[pos := b]"
  let ?C1 = "(shift_right ?cs ?cc pos)[pos := create leaf LEAF]"
  let ?n1 = "n\<lparr>keys4 := ?K1, children4 := ?C1, children_count := children_count n + 1\<rparr>"
  let ?h1 = "h'(self \<mapsto> Node4 ?n1)"
  let ?i = "of_nat pos :: u8"
  note res = add4_result [OF g len cnt' srt new' na pos_def ra]
  have run: "add4 h self leaf b = Some (?h1, Iterator (create leaf LEAF) ?i ?sp)" by (rule res(1))
  have ple: "pos \<le> ?cc" by (rule res(4))
  have g1: "get4 ?h1 self = Some ?n1" by (rule get4_upd)
  have u1: "unat (children_count ?n1) = ?cc + 1" using c4 by (simp add: unat_u8_succ)
  have u1': "unat (children_count n + 1) = ?cc + 1" using c4 by (simp add: unat_u8_succ)
  have up: "unat ?i = pos" using ple c4 by (simp add: unat_of_nat_u8)
  have l1: "length (children4 ?n1) = 4" using len by simp
  have c1: "unat (children_count ?n1) \<le> 4" using u1 c4 by simp
  have idx: "?i < children_count ?n1"
    unfolding word_less_nat_alt up u1 using ple by simp
  have srt1: "is_sorted (take (unat (children_count ?n1)) (keys4 ?n1))"
    unfolding u1 using res(2,3) by (simp add: strictly_sorted_is_sorted)
  have nth1: "?C1 ! j = ?cs ! (j - 1)" if "pos < j" "j \<le> ?cc" for j
    using that len c4 by (simp add: nth_shift_right)
  have na1: "\<forall>j. unat ?i < j \<and> j < unat (children_count ?n1) \<longrightarrow>
               tag (children4 ?n1 ! j) = LEAF \<or> get (children4 ?n1 ! j) \<noteq> self"
  proof (intro allI impI)
    fix j assume "unat ?i < j \<and> j < unat (children_count ?n1)"
    then have j: "pos < j" "j \<le> ?cc" unfolding up u1 by simp_all
    then have "j - 1 < ?cc" by simp
    then have "tag (?cs ! (j - 1)) = LEAF \<or> get (?cs ! (j - 1)) \<noteq> self" using na by blast
    then show "tag (children4 ?n1 ! j) = LEAF \<or> get (children4 ?n1 ! j) \<noteq> self"
      using nth1 [OF j] by simp
  qed
  have alloc1: "\<forall>(c, i) \<in> set (calls_down (children4 ?n1) (unat ?i) (unat (children_count ?n1))).
                  tag c \<noteq> LEAF \<longrightarrow> ?h1 (get c) \<noteq> None"
  proof -
    have "?h1 (get c) \<noteq> None"
      if "(c, i) \<in> set (calls_down (children4 ?n1) (unat ?i) (unat (children_count ?n1)))"
        and t: "tag c \<noteq> LEAF" for c i
    proof -
      from that(1) obtain j where j: "pos < j" "j \<le> ?cc" and c: "c = ?C1 ! j"
        unfolding up u1 by (auto simp add: calls_down_set)
      have c': "c = ?cs ! (j - 1)" using c nth1 [OF j] by simp
      have "j - 1 < ?cc" using j by simp
      then have "h (get c) \<noteq> None" using kids t c' by blast
      then have "h' (get c) \<noteq> None" using reparent_all_dom [OF ra] by simp
      then show ?thesis by simp
    qed
    then show ?thesis by blast
  qed
  from reparent_all_returns [OF alloc1]
  obtain h2 where ra2: "reparent_all ?h1 ?sp
       (calls_down (children4 ?n1) (unat ?i) (unat (children_count ?n1))) = Some h2"
    by blast
  have bk: "children_count ?n1 - 1 = children_count n" by simp
  have tk: "take ?cc (shift_left ?K1 pos (?cc + 1)) = take ?cc ?ks"
    using ple c4 len by (intro take_shift_left_insert) simp_all
  have post: "is_sorted (take (unat (children_count ?n1 - 1))
                (shift_left (keys4 ?n1) (unat ?i) (unat (children_count ?n1))))"
    unfolding bk up u1 using tk srt by (simp add: strictly_sorted_is_sorted)
  let ?n2 = "?n1\<lparr>keys4 := shift_left (keys4 ?n1) (unat ?i) (unat (children_count ?n1)),
                  children4 := shift_left (children4 ?n1) (unat ?i) (unat (children_count ?n1)),
                  children_count := children_count ?n1 - 1\<rparr>"
  have rem: "remove4 ?h1 self ?i = Some (h2(self \<mapsto> Node4 ?n2))"
    by (rule remove4_result [OF g1 l1 c1 idx srt1 na1 ra2 post])
  have g2: "get4 (h2(self \<mapsto> Node4 ?n2)) self = Some ?n2" by (rule get4_upd)
  have cm: "child_map (Node4 ?n2) = child_map (Node4 n)"
    using roundtrip_child_map [of pos ?cc ?ks ?cs b "create leaf LEAF"] ple c4 len
    by (simp add: up u1')
  have ik: "index_key (Node4 ?n1) ?i = b"
    using ple c4 len by (simp add: up)
  have f: "children_count ?n1 = children_count n + 1" "children_count ?n2 = children_count n"
    "prefix ?n2 = prefix n" "parent_ptr ?n2 = parent_ptr n" "pos_in_parent ?n2 = pos_in_parent n"
    by simp_all
  have ii: "index (Iterator (create leaf LEAF) ?i ?sp) = ?i" by simp
  show ?thesis
    apply (rule exI [of _ ?h1])
    apply (rule exI [of _ "Iterator (create leaf LEAF) ?i ?sp"])
    apply (rule exI [of _ ?n1])
    apply (rule exI [of _ "h2(self \<mapsto> Node4 ?n2)"])
    apply (rule exI [of _ ?n2])
    unfolding ii
    apply (intro conjI)
              apply (rule run)
             apply (rule g1)
            apply (rule ik)
           apply (rule f(1))
          apply (rule rem)
         apply (rule g2)
        apply (rule cm)
       apply (rule f(2))
      apply (rule f(3))
     apply (rule f(4))
    apply (rule f(5))
    done
qed

lemma add_remove16:
  assumes g: "get16 h self = Some n" and wf: "node16_wf n" and nf: "\<not> is_full16 n"
    and new: "b \<notin> dom (child_map (Node16 n))"
    and kids: "\<forall>j < unat (children_count n). tag (children16 n ! j) \<noteq> LEAF \<longrightarrow>
                 get (children16 n ! j) \<noteq> self \<and> h (get (children16 n ! j)) \<noteq> None"
  shows "\<exists>h1 it n1 h2 n2. add16 h self leaf b = Some (h1, it) \<and> get16 h1 self = Some n1 \<and>
           index_key (Node16 n1) (index it) = b \<and> children_count n1 = children_count n + 1 \<and>
           remove16 h1 self (index it) = Some h2 \<and> get16 h2 self = Some n2 \<and>
           child_map (Node16 n2) = child_map (Node16 n) \<and>
           children_count n2 = children_count n \<and>
           prefix n2 = prefix n \<and> parent_ptr n2 = parent_ptr n \<and> pos_in_parent n2 = pos_in_parent n"
proof -
  let ?cc = "unat (children_count n)"
  let ?ks = "keys16 n" and ?cs = "children16 n" and ?sp = "tagged_self16 self"
  from wf have len: "length ?ks = 16" "length ?cs = 16" and lo: "5 \<le> ?cc" and hi: "?cc \<le> 16"
    and srt: "sorted_wrt (<) (take ?cc ?ks)"
    by (simp_all add: node16_wf_def min_size16_def capacity16_def)
  have c16: "?cc < 16" using nf hi by (simp add: is_full16_def capacity16_def)
  have new': "b \<notin> set (take ?cc ?ks)"
    using new dom_map_of_take_zip [of ?cc ?ks ?cs] len hi by simp
  define pos where "pos = length (filter (\<lambda>k. k < b) (take ?cc ?ks))"
  have na: "\<forall>j < ?cc. tag (?cs ! j) = LEAF \<or> get (?cs ! j) \<noteq> self"
    using kids by blast
  have alloc: "\<forall>(c, i) \<in> set (calls_up ?cs pos ?cc). tag c \<noteq> LEAF \<longrightarrow> h (get c) \<noteq> None"
    using kids by (auto simp add: calls_up_set)
  from reparent_all_returns [OF alloc]
  obtain h' where ra: "reparent_all h ?sp (calls_up ?cs pos ?cc) = Some h'" by blast
  let ?K1 = "(shift_right ?ks ?cc pos)[pos := b]"
  let ?C1 = "(shift_right ?cs ?cc pos)[pos := create leaf LEAF]"
  let ?n1 = "n\<lparr>keys16 := ?K1, children16 := ?C1, children_count := children_count n + 1\<rparr>"
  let ?h1 = "h'(self \<mapsto> Node16 ?n1)"
  let ?i = "of_nat pos :: u8"
  note res = add16_result [OF g len c16 srt new' na pos_def ra]
  have run: "add16 h self leaf b = Some (?h1, Iterator (create leaf LEAF) ?i ?sp)" by (rule res(1))
  have ple: "pos \<le> ?cc" by (rule res(4))
  have g1: "get16 ?h1 self = Some ?n1" by (rule get16_upd)
  have u1: "unat (children_count ?n1) = ?cc + 1" using c16 by (simp add: unat_u8_succ)
  have u1': "unat (children_count n + 1) = ?cc + 1" using c16 by (simp add: unat_u8_succ)
  have up: "unat ?i = pos" using ple c16 by (simp add: unat_of_nat_u8)
  have l1: "length (children16 ?n1) = 16" using len by simp
  have c1: "unat (children_count ?n1) \<le> 16" using u1 c16 by simp
  have idx: "?i < children_count ?n1"
    unfolding word_less_nat_alt up u1 using ple by simp
  have srt1: "is_sorted (take (unat (children_count ?n1)) (keys16 ?n1))"
    unfolding u1 using res(2,3) by (simp add: strictly_sorted_is_sorted)
  have nth1: "?C1 ! j = ?cs ! (j - 1)" if "pos < j" "j \<le> ?cc" for j
    using that len c16 by (simp add: nth_shift_right)
  have na1: "\<forall>j. unat ?i < j \<and> j < unat (children_count ?n1) \<longrightarrow>
               tag (children16 ?n1 ! j) = LEAF \<or> get (children16 ?n1 ! j) \<noteq> self"
  proof (intro allI impI)
    fix j assume "unat ?i < j \<and> j < unat (children_count ?n1)"
    then have j: "pos < j" "j \<le> ?cc" unfolding up u1 by simp_all
    then have "j - 1 < ?cc" by simp
    then have "tag (?cs ! (j - 1)) = LEAF \<or> get (?cs ! (j - 1)) \<noteq> self" using na by blast
    then show "tag (children16 ?n1 ! j) = LEAF \<or> get (children16 ?n1 ! j) \<noteq> self"
      using nth1 [OF j] by simp
  qed
  have alloc1: "\<forall>(c, i) \<in> set (calls_down (children16 ?n1) (unat ?i) (unat (children_count ?n1))).
                  tag c \<noteq> LEAF \<longrightarrow> ?h1 (get c) \<noteq> None"
  proof -
    have "?h1 (get c) \<noteq> None"
      if "(c, i) \<in> set (calls_down (children16 ?n1) (unat ?i) (unat (children_count ?n1)))"
        and t: "tag c \<noteq> LEAF" for c i
    proof -
      from that(1) obtain j where j: "pos < j" "j \<le> ?cc" and c: "c = ?C1 ! j"
        unfolding up u1 by (auto simp add: calls_down_set)
      have c': "c = ?cs ! (j - 1)" using c nth1 [OF j] by simp
      have "j - 1 < ?cc" using j by simp
      then have "h (get c) \<noteq> None" using kids t c' by blast
      then have "h' (get c) \<noteq> None" using reparent_all_dom [OF ra] by simp
      then show ?thesis by simp
    qed
    then show ?thesis by blast
  qed
  from reparent_all_returns [OF alloc1]
  obtain h2 where ra2: "reparent_all ?h1 ?sp
       (calls_down (children16 ?n1) (unat ?i) (unat (children_count ?n1))) = Some h2"
    by blast
  have bk: "children_count ?n1 - 1 = children_count n" by simp
  have tk: "take ?cc (shift_left ?K1 pos (?cc + 1)) = take ?cc ?ks"
    using ple c16 len by (intro take_shift_left_insert) simp_all
  have post: "is_sorted (take (unat (children_count ?n1 - 1))
                (shift_left (keys16 ?n1) (unat ?i) (unat (children_count ?n1))))"
    unfolding bk up u1 using tk srt by (simp add: strictly_sorted_is_sorted)
  let ?n2 = "?n1\<lparr>keys16 := shift_left (keys16 ?n1) (unat ?i) (unat (children_count ?n1)),
                  children16 := shift_left (children16 ?n1) (unat ?i) (unat (children_count ?n1)),
                  children_count := children_count ?n1 - 1\<rparr>"
  have rem: "remove16 ?h1 self ?i = Some (h2(self \<mapsto> Node16 ?n2))"
    by (rule remove16_result [OF g1 l1 c1 idx srt1 na1 ra2 post])
  have g2: "get16 (h2(self \<mapsto> Node16 ?n2)) self = Some ?n2" by (rule get16_upd)
  have cm: "child_map (Node16 ?n2) = child_map (Node16 n)"
    using roundtrip_child_map [of pos ?cc ?ks ?cs b "create leaf LEAF"] ple c16 len
    by (simp add: up u1')
  have ik: "index_key (Node16 ?n1) ?i = b"
    using ple c16 len by (simp add: up)
  have f: "children_count ?n1 = children_count n + 1" "children_count ?n2 = children_count n"
    "prefix ?n2 = prefix n" "parent_ptr ?n2 = parent_ptr n" "pos_in_parent ?n2 = pos_in_parent n"
    by simp_all
  have ii: "index (Iterator (create leaf LEAF) ?i ?sp) = ?i" by simp
  show ?thesis
    apply (rule exI [of _ ?h1])
    apply (rule exI [of _ "Iterator (create leaf LEAF) ?i ?sp"])
    apply (rule exI [of _ ?n1])
    apply (rule exI [of _ "h2(self \<mapsto> Node16 ?n2)"])
    apply (rule exI [of _ ?n2])
    unfolding ii
    apply (intro conjI)
              apply (rule run)
             apply (rule g1)
            apply (rule ik)
           apply (rule f(1))
          apply (rule rem)
         apply (rule g2)
        apply (rule cm)
       apply (rule f(2))
      apply (rule f(3))
     apply (rule f(4))
    apply (rule f(5))
    done
qed

lemma add_remove48:
  assumes g: "get48 h self = Some n" and wf: "node48_wf n" and nf: "\<not> is_full48 n"
    and new: "b \<notin> dom (child_map (Node48 n))" and leaf: "leaf \<noteq> 0"
  shows "\<exists>h1 it n1 h2 n2. add48 h self leaf b = Some (h1, it) \<and> get48 h1 self = Some n1 \<and>
           index_key (Node48 n1) (index it) = b \<and> children_count n1 = children_count n + 1 \<and>
           remove48 h1 self (index it) = Some h2 \<and> get48 h2 self = Some n2 \<and>
           child_map (Node48 n2) = child_map (Node48 n) \<and>
           children_count n2 = children_count n \<and>
           prefix n2 = prefix n \<and> parent_ptr n2 = parent_ptr n \<and> pos_in_parent n2 = pos_in_parent n \<and>
           n2 = n \<and> h2 = h"
proof -
  from wf have len: "length (child_indices n) = 256" "length (children48 n) = 48"
    and hi: "unat (children_count n) \<le> 48"
    by (simp_all add: node48_wf_def capacity48_def)
  have c48: "unat (children_count n) < 48" using nf hi by (simp add: is_full48_def capacity48_def)
  have e: "child_indices n ! unat b = empty_child"
    using new by (auto simp add: dom_def split: if_splits)
  from first_null_exists [OF node48_has_null_slot [OF wf c48]]
  obtain s where s: "s < 48" "children48 n ! s = nullptr" "\<forall>j < s. children48 n ! j \<noteq> nullptr"
    by blast
  let ?n1 = "n\<lparr>child_indices := (child_indices n)[unat b := of_nat s],
                  children48 := (children48 n)[s := create leaf LEAF],
                  children_count := children_count n + 1\<rparr>"
  let ?h1 = "h(self \<mapsto> Node48 ?n1)"
  have run: "add48 h self leaf b = Some (?h1, Iterator (create leaf LEAF) b (tagged_self48 self))"
    by (rule add48_result [OF g e s len(2)])
  have g1: "get48 ?h1 self = Some ?n1" by (rule get48_upd)
  have us: "unat (of_nat s :: u8) = s" using s(1) by (simp add: unat_of_nat_u8)
  have ne: "(of_nat s :: u8) \<noteq> empty_child"
  proof
    assume "(of_nat s :: u8) = empty_child"
    then have "unat (of_nat s :: u8) = unat empty_child" by simp
    then show False using s(1) unfolding us by (simp add: empty_child_def)
  qed
  have nn: "create leaf LEAF \<noteq> nullptr" using leaf by (rule create_leaf_not_null)
  have ci: "(child_indices n)[unat b := empty_child] = child_indices n"
    by (metis e list_update_id)
  have cs: "(children48 n)[s := nullptr] = children48 n"
    by (metis s(2) list_update_id)
  have "remove48 ?h1 self b = Some (h(self \<mapsto> Node48 n))"
    using unat_u8_lt [of b] len s(1) ne nn
    by (simp add: remove48_def get48_upd verify_remove_preconditions_def assert_that_def Let_def
        capacity48_def us ci cs)
  moreover have "h(self \<mapsto> Node48 n) = h"
    using g by (simp add: get48_Some fun_upd_idem)
  ultimately have rem: "remove48 ?h1 self b = Some h" by simp
  show ?thesis
    using run g1 rem g by (intro exI [of _ ?h1] exI [of _ "Iterator (create leaf LEAF) b (tagged_self48 self)"]
        exI [of _ ?n1] exI [of _ h] exI [of _ n]) simp
qed

lemma add_remove256:
  assumes g: "get256 h self = Some n" and len: "length (children256 n) = 256"
    and new: "b \<notin> dom (child_map (Node256 n))" and leaf: "leaf \<noteq> 0"
  shows "\<exists>h1 it n1 h2 n2. add256 h self leaf b = Some (h1, it) \<and> get256 h1 self = Some n1 \<and>
           index_key (Node256 n1) (index it) = b \<and> children_count n1 = children_count n + 1 \<and>
           remove256 h1 self (index it) = Some h2 \<and> get256 h2 self = Some n2 \<and>
           child_map (Node256 n2) = child_map (Node256 n) \<and>
           children_count n2 = children_count n \<and>
           prefix n2 = prefix n \<and> parent_ptr n2 = parent_ptr n \<and> pos_in_parent n2 = pos_in_parent n \<and>
           n2 = n \<and> h2 = h"
proof -
  have e: "children256 n ! unat b = nullptr"
    using new by (auto simp add: dom_def split: if_splits)
  let ?n1 = "n\<lparr>children_count := children_count n + 1,
                  children256 := (children256 n)[unat b := create leaf LEAF]\<rparr>"
  let ?h1 = "h(self \<mapsto> Node256 ?n1)"
  have run: "add256 h self leaf b = Some (?h1, Iterator (create leaf LEAF) b (tagged_self256 self))"
    by (rule add256_result [OF g len e])
  have g1: "get256 ?h1 self = Some ?n1" by (rule get256_upd)
  have nn: "create leaf LEAF \<noteq> nullptr" using leaf by (rule create_leaf_not_null)
  have cs: "(children256 n)[unat b := nullptr] = children256 n"
    by (metis e list_update_id)
  have "remove256 ?h1 self b = Some (h(self \<mapsto> Node256 n))"
    using unat_u8_lt [of b] len nn
    by (simp add: remove256_def get256_upd assert_that_def cs)
  moreover have "h(self \<mapsto> Node256 n) = h"
    using g by (simp add: get256_Some fun_upd_idem)
  ultimately have rem: "remove256 ?h1 self b = Some h" by simp
  show ?thesis
    using run g1 rem g by (intro exI [of _ ?h1] exI [of _ "Iterator (create leaf LEAF) b (tagged_self256 self)"]
        exI [of _ ?n1] exI [of _ h] exI [of _ n]) simp
qed

lemma example16_wf: "node16_wf example16"
  by (simp add: node16_wf_def example16_def min_size16_def capacity16_def nullptr_def)

text \<open>
  Claim C6. For each of the four classes: a well-formed node that is not full and has no
  child for the key byte \<open>b\<close> is, after \<^verbatim>\<open>add(leaf, b)\<close> and then \<^verbatim>\<open>remove\<close> of that byte,
  a node with the same key-to-child map (so the same set of key bytes present) and the
  same \<open>children_count\<close>; both calls return, and the prefix and the back-reference of
  the node are unchanged. \<^verbatim>\<open>remove\<close> takes the position the iterator of \<^verbatim>\<open>add\<close> carries:
  the index of \<open>b\<close> in the key array for Node4 and Node16, the key byte itself for
  Node48 and Node256. For Node48 and Node256 the node, and the whole store, are what
  they were; for Node4 and Node16 the entries of the arrays beyond \<open>children_count\<close> may
  differ. The children of a Node4 or Node16 that are not leaves are nodes of the store
  other than the node itself (they are reparented by the shifts), and the leaf added
  to a Node48 or Node256 is not the null pointer (\<^verbatim>\<open>remove\<close> asserts that the slot is
  not null). A Node256 is never full: its hypothesis is only that \<open>b\<close> has no child.
\<close>

theorem add_remove_round_trip:
  "(get4 h self = Some n4 \<and> node4_wf n4 \<and> \<not> is_full4 n4 \<and> b \<notin> dom (child_map (Node4 n4)) \<and>
    (\<forall>j < unat (children_count n4). tag (children4 n4 ! j) \<noteq> LEAF \<longrightarrow>
        get (children4 n4 ! j) \<noteq> self \<and> h (get (children4 n4 ! j)) \<noteq> None) \<longrightarrow>
      (\<exists>h1 it n1 h2 n2. add4 h self leaf b = Some (h1, it) \<and> get4 h1 self = Some n1 \<and>
         index_key (Node4 n1) (index it) = b \<and> children_count n1 = children_count n4 + 1 \<and>
         remove4 h1 self (index it) = Some h2 \<and> get4 h2 self = Some n2 \<and>
         child_map (Node4 n2) = child_map (Node4 n4) \<and>
         dom (child_map (Node4 n2)) = dom (child_map (Node4 n4)) \<and>
         children_count n2 = children_count n4 \<and>
         prefix n2 = prefix n4 \<and> parent_ptr n2 = parent_ptr n4 \<and>
         pos_in_parent n2 = pos_in_parent n4)) \<and>
   (get16 h self = Some n16 \<and> node16_wf n16 \<and> \<not> is_full16 n16 \<and>
    b \<notin> dom (child_map (Node16 n16)) \<and>
    (\<forall>j < unat (children_count n16). tag (children16 n16 ! j) \<noteq> LEAF \<longrightarrow>
        get (children16 n16 ! j) \<noteq> self \<and> h (get (children16 n16 ! j)) \<noteq> None) \<longrightarrow>
      (\<exists>h1 it n1 h2 n2. add16 h self leaf b = Some (h1, it) \<and> get16 h1 self = Some n1 \<and>
         index_key (Node16 n1) (index it) = b \<and> children_count n1 = children_count n16 + 1 \<and>
         remove16 h1 self (index it) = Some h2 \<and> get16 h2 self = Some n2 \<and>
         child_map (Node16 n2) = child_map (Node16 n16) \<and>
         dom (child_map (Node16 n2)) = dom (child_map (Node16 n16)) \<and>
         children_count n2 = children_count n16 \<and>
         prefix n2 = prefix n16 \<and> parent_ptr n2 = parent_ptr n16 \<and>
         pos_in_parent n2 = pos_in_parent n16)) \<and>
   (get48 h self = Some n48 \<and> node48_wf n48 \<and> \<not> is_full48 n48 \<and>
    b \<notin> dom (child_map (Node48 n48)) \<and> leaf \<noteq> 0 \<longrightarrow>
      (\<exists>h1 it n1 h2 n2. add48 h self leaf b = Some (h1, it) \<and> get48 h1 self = Some n1 \<and>
         index_key (Node48 n1) (index it) = b \<and> children_count n1 = children_count n48 + 1 \<and>
         remove48 h1 self (index it) = Some h2 \<and> get48 h2 self = Some n2 \<and>
         child_map (Node48 n2) = child_map (Node48 n48) \<and>
         dom (child_map (Node48 n2)) = dom (child_map (Node48 n48)) \<and>
         children_count n2 = children_count n48 \<and> n2 = n48 \<and> h2 = h)) \<and>
   (get256 h self = Some n256 \<and> length (children256 n256) = 256 \<and>
    b \<notin> dom (child_map (Node256 n256)) \<and> leaf \<noteq> 0 \<longrightarrow>
      (\<exists>h1 it n1 h2 n2. add256 h self leaf b = Some (h1, it) \<and> get256 h1 self = Some n1 \<and>
         index_key (Node256 n1) (index it) = b \<and> children_count n1 = children_count n256 + 1 \<and>
         remove256 h1 self (index it) = Some h2 \<and> get256 h2 self = Some n2 \<and>
         child_map (Node256 n2) = child_map (Node256 n256) \<and>
         dom (child_map (Node256 n2)) = dom (child_map (Node256 n256)) \<and>
         children_count n2 = children_count n256 \<and> n2 = n256 \<and> h2 = h))"
proof (intro conjI impI)
  assume a: "get4 h self = Some n4 \<and> node4_wf n4 \<and> \<not> is_full4 n4 \<and>
    b \<notin> dom (child_map (Node4 n4)) \<and>
    (\<forall>j < unat (children_count n4). tag (children4 n4 ! j) \<noteq> LEAF \<longrightarrow>
        get (children4 n4 ! j) \<noteq> self \<and> h (get (children4 n4 ! j)) \<noteq> None)"
  then have "\<exists>h1 it n1 h2 n2. add4 h self leaf b = Some (h1, it) \<and> get4 h1 self = Some n1 \<and>
           index_key (Node4 n1) (index it) = b \<and> children_count n1 = children_count n4 + 1 \<and>
           remove4 h1 self (index it) = Some h2 \<and> get4 h2 self = Some n2 \<and>
           child_map (Node4 n2) = child_map (Node4 n4) \<and>
           children_count n2 = children_count n4 \<and>
           prefix n2 = prefix n4 \<and> parent_ptr n2 = parent_ptr n4 \<and> pos_in_parent n2 = pos_in_parent n4"
    by (intro add_remove4) simp_all
  then obtain h1 it n1 h2 n2 where r: "add4 h self leaf b = Some (h1, it)" "get4 h1 self = Some n1"
    "index_key (Node4 n1) (index it) = b" "children_count n1 = children_count n4 + 1"
    "remove4 h1 self (index it) = Some h2" "get4 h2 self = Some n2"
    "child_map (Node4 n2) = child_map (Node4 n4)" "children_count n2 = children_count n4"
    "prefix n2 = prefix n4" "parent_ptr n2 = parent_ptr n4" "pos_in_parent n2 = pos_in_parent n4"
    by blast
  have "dom (child_map (Node4 n2)) = dom (child_map (Node4 n4))" using r(7) by simp
  with r show "\<exists>h1 it n1 h2 n2. add4 h self leaf b = Some (h1, it) \<and> get4 h1 self = Some n1 \<and>
         index_key (Node4 n1) (index it) = b \<and> children_count n1 = children_count n4 + 1 \<and>
         remove4 h1 self (index it) = Some h2 \<and> get4 h2 self = Some n2 \<and>
         child_map (Node4 n2) = child_map (Node4 n4) \<and>
         dom (child_map (Node4 n2)) = dom (child_map (Node4 n4)) \<and>
         children_count n2 = children_count n4 \<and>
         prefix n2 = prefix n4 \<and> parent_ptr n2 = parent_ptr n4 \<and>
         pos_in_parent n2 = pos_in_parent n4"
    by blast
next
  assume a: "get16 h self = Some n16 \<and> node16_wf n16 \<and> \<not> is_full16 n16 \<and>
    b \<notin> dom (child_map (Node16 n16)) \<and>
    (\<forall>j < unat (children_count n16). tag (children16 n16 ! j) \<noteq> LEAF \<longrightarrow>
        get (children16 n16 ! j) \<noteq> self \<and> h (get (children16 n16 ! j)) \<noteq> None)"
  then have "\<exists>h1 it n1 h2 n2. add16 h self leaf b = Some (h1, it) \<and> get16 h1 self = Some n1 \<and>
           index_key (Node16 n1) (index it) = b \<and> children_count n1 = children_count n16 + 1 \<and>
           remove16 h1 self (index it) = Some h2 \<and> get16 h2 self = Some n2 \<and>
           child_map (Node16 n2) = child_map (Node16 n16) \<and>
           children_count n2 = children_count n16 \<and>
           prefix n2 = prefix n16 \<and> parent_ptr n2 = parent_ptr n16 \<and> pos_in_parent n2 = pos_in_parent n16"
    by (intro add_remove16) simp_all
  then obtain h1 it n1 h2 n2 where r: "add16 h self leaf b = Some (h1, it)" "get16 h1 self = Some n1"
    "index_key (Node16 n1) (index it) = b" "children_count n1 = children_count n16 + 1"
    "remove16 h1 self (index it) = Some h2" "get16 h2 self = Some n2"
    "child_map (Node16 n2) = child_map (Node16 n16)" "children_count n2 = children_count n16"
    "prefix n2 = prefix n16" "parent_ptr n2 = parent_ptr n16" "pos_in_parent n2 = pos_in_parent n16"
    by blast
  have "dom (child_map (Node16 n2)) = dom (child_map (Node16 n16))" using r(7) by simp
  with r show "\<exists>h1 it n1 h2 n2. add16 h self leaf b = Some (h1, it) \<and> get16 h1 self = Some n1 \<and>
         index_key (Node16 n1) (index it) = b \<and> children_count n1 = children_count n16 + 1 \<and>
         remove16 h1 self (index it) = Some h2 \<and> get16 h2 self = Some n2 \<and>
         child_map (Node16 n2) = child_map (Node16 n16) \<and>
         dom (child_map (Node16 n2)) = dom (child_map (Node16 n16)) \<and>
         children_count n2 = children_count n16 \<and>
         prefix n2 = prefix n16 \<and> parent_ptr n2 = parent_ptr n16 \<and>
         pos_in_parent n2 = pos_in_parent n16"
    by blast
next
  assume a: "get48 h self = Some n48 \<and> node48_wf n48 \<and> \<not> is_full48 n48 \<and>
    b \<notin> dom (child_map (Node48 n48)) \<and> leaf \<noteq> 0"
  then have "\<exists>h1 it n1 h2 n2. add48 h self leaf b = Some (h1, it) \<and> get48 h1 self = Some n1 \<and>
           index_key (Node48 n1) (index it) = b \<and> children_count n1 = children_count n48 + 1 \<and>
           remove48 h1 self (index it) = Some h2 \<and> get48 h2 self = Some n2 \<and>
           child_map (Node48 n2) = child_map (Node48 n48) \<and>
           children_count n2 = children_count n48 \<and>
           prefix n2 = prefix n48 \<and> parent_ptr n2 = parent_ptr n48 \<and>
           pos_in_parent n2 = pos_in_parent n48 \<and> n2 = n48 \<and> h2 = h"
    by (intro add_remove48) simp_all
  then obtain h1 it n1 h2 n2 where r: "add48 h self leaf b = Some (h1, it)" "get48 h1 self = Some n1"
    "index_key (Node48 n1) (index it) = b" "children_count n1 = children_count n48 + 1"
    "remove48 h1 self (index it) = Some h2" "get48 h2 self = Some n2"
    "n2 = n48" "h2 = h"
    by blast
  then show "\<exists>h1 it n1 h2 n2. add48 h self leaf b = Some (h1, it) \<and> get48 h1 self = Some n1 \<and>
         index_key (Node48 n1) (index it) = b \<and> children_count n1 = children_count n48 + 1 \<and>
         remove48 h1 self (index it) = Some h2 \<and> get48 h2 self = Some n2 \<and>
         child_map (Node48 n2) = child_map (Node48 n48) \<and>
         dom (child_map (Node48 n2)) = dom (child_map (Node48 n48)) \<and>
         children_count n2 = children_count n48 \<and> n2 = n48 \<and> h2 = h"
    by blast
next
  assume a: "get256 h self = Some n256 \<and> length (children256 n256) = 256 \<and>
    b \<notin> dom (child_map (Node256 n256)) \<and> leaf \<noteq> 0"
  then have "\<exists>h1 it n1 h2 n2. add256 h self leaf b = Some (h1, it) \<and> get256 h1 self = Some n1 \<and>
           index_key (Node256 n1) (index it) = b \<and> children_count n1 = children_count n256 + 1 \<and>
           remove256 h1 self (index it) = Some h2 \<and> get256 h2 self = Some n2 \<and>
           child_map (Node256 n2) = child_map (Node256 n256) \<and>
           children_count n2 = children_count n256 \<and>
           prefix n2 = prefix n256 \<and> parent_ptr n2 = parent_ptr n256 \<and>
           pos_in_parent n2 = pos_in_parent n256 \<and> n2 = n256 \<and> h2 = h"
    by (intro add_remove256) simp_all
  then obtain h1 it n1 h2 n2 where r: "add256 h self leaf b = Some (h1, it)" "get256 h1 self = Some n1"
    "index_key (Node256 n1) (index it) = b" "children_count n1 = children_count n256 + 1"
    "remove256 h1 self (index it) = Some h2" "get256 h2 self = Some n2"
    "n2 = n256" "h2 = h"
    by blast
  then show "\<exists>h1 it n1 h2 n2. add256 h self leaf b = Some (h1, it) \<and> get256 h1 self = Some n1 \<and>
         index_key (Node256 n1) (index it) = b \<and> children_count n1 = children_count n256 + 1 \<and>
         remove256 h1 self (index it) = Some h2 \<and> get256 h2 self = Some n2 \<and>
         child_map (Node256 n2) = child_map (Node256 n256) \<and>
         dom (child_map (Node256 n2)) = dom (child_map (Node256 n256)) \<and>
         children_count n2 = children_count n256 \<and> n2 = n256 \<and> h2 = h"
    by blast
qed

theorem add_remove_round_trip_witness:
  "(\<exists>h1 it h2 n2. add4 [64 \<mapsto> Node4 example4] 64 40 0x18 = Some (h1, it) \<and>
      remove4 h1 64 (index it) = Some h2 \<and> get4 h2 64 = Some n2 \<and>
      child_map (Node4 n2) = child_map (Node4 example4) \<and> children_count n2 = 2) \<and>
   (\<exists>h1 it h2 n2. add16 [64 \<mapsto> Node16 example16] 64 40 8 = Some (h1, it) \<and>
      remove16 h1 64 (index it) = Some h2 \<and> get16 h2 64 = Some n2 \<and>
      child_map (Node16 n2) = child_map (Node16 example16) \<and> children_count n2 = 5) \<and>
   (\<exists>h1 it. add48 [64 \<mapsto> Node48 example48_free] 64 808 0x55 = Some (h1, it) \<and>
      remove48 h1 64 (index it) = Some [64 \<mapsto> Node48 example48_free]) \<and>
   (\<exists>h1 it. add256 [64 \<mapsto> Node256 example256] 64 16 255 = Some (h1, it) \<and>
      remove256 h1 64 (index it) = Some [64 \<mapsto> Node256 example256])"
proof (intro conjI)
  let ?h = "[64 \<mapsto> Node4 example4]"
  have k: "\<forall>j < unat (children_count example4). tag (children4 example4 ! j) \<noteq> LEAF \<longrightarrow>
        get (children4 example4 ! j) \<noteq> 64 \<and> ?h (get (children4 example4 ! j)) \<noteq> None"
    by (auto simp add: example4_def nth_Cons' nullptr_def)
  have a: "get4 ?h 64 = Some example4 \<and> node4_wf example4 \<and> \<not> is_full4 example4 \<and>
    0x18 \<notin> dom (child_map (Node4 example4)) \<and>
    (\<forall>j < unat (children_count example4). tag (children4 example4 ! j) \<noteq> LEAF \<longrightarrow>
        get (children4 example4 ! j) \<noteq> 64 \<and> ?h (get (children4 example4 ! j)) \<noteq> None)"
  proof -
    have "get4 ?h 64 = Some example4" by (simp add: get4_def)
    moreover have "\<not> is_full4 example4" by (simp add: is_full4_def capacity4_def example4_def)
    moreover have "0x18 \<notin> dom (child_map (Node4 example4))" by (simp add: example4_def dom_def)
    ultimately show ?thesis using k example4_wf by blast
  qed
  from add_remove_round_trip [where h = ?h and self = 64 and b = "0x18" and leaf = 40 and
      ?n4.0 = example4, THEN conjunct1, THEN mp, OF a]
  obtain h1 it h2 n2 where "add4 ?h 64 40 0x18 = Some (h1, it)"
    "remove4 h1 64 (index it) = Some h2" "get4 h2 64 = Some n2"
    "child_map (Node4 n2) = child_map (Node4 example4)"
    "children_count n2 = children_count example4"
    by blast
  then show "\<exists>h1 it h2 n2. add4 ?h 64 40 0x18 = Some (h1, it) \<and>
      remove4 h1 64 (index it) = Some h2 \<and> get4 h2 64 = Some n2 \<and>
      child_map (Node4 n2) = child_map (Node4 example4) \<and> children_count n2 = 2"
    by (auto simp add: example4_def)
next
  let ?h = "[64 \<mapsto> Node16 example16]"
  have k: "\<forall>j < unat (children_count example16). tag (children16 example16 ! j) \<noteq> LEAF \<longrightarrow>
        get (children16 example16 ! j) \<noteq> 64 \<and> ?h (get (children16 example16 ! j)) \<noteq> None"
    by (auto simp add: example16_def nth_Cons' nullptr_def)
  have a: "get16 ?h 64 = Some example16 \<and> node16_wf example16 \<and> \<not> is_full16 example16 \<and>
    8 \<notin> dom (child_map (Node16 example16)) \<and>
    (\<forall>j < unat (children_count example16). tag (children16 example16 ! j) \<noteq> LEAF \<longrightarrow>
        get (children16 example16 ! j) \<noteq> 64 \<and> ?h (get (children16 example16 ! j)) \<noteq> None)"
  proof -
    have "get16 ?h 64 = Some example16" by (simp add: get16_def)
    moreover have "\<not> is_full16 example16" by (simp add: is_full16_def capacity16_def example16_def)
    moreover have "8 \<notin> dom (child_map (Node16 example16))" by (simp add: example16_def dom_def)
    ultimately show ?thesis using k example16_wf by blast
  qed
  from add_remove_round_trip [where h = ?h and self = 64 and b = 8 and leaf = 40 and
      ?n16.0 = example16, THEN conjunct2, THEN conjunct1, THEN mp, OF a]
  obtain h1 it h2 n2 where "add16 ?h 64 40 8 = Some (h1, it)"
    "remove16 h1 64 (index it) = Some h2" "get16 h2 64 = Some n2"
    "child_map (Node16 n2) = child_map (Node16 example16)"
    "children_count n2 = children_count example16"
    by blast
  then show "\<exists>h1 it h2 n2. add16 ?h 64 40 8 = Some (h1, it) \<and>
      remove16 h1 64 (index it) = Some h2 \<and> get16 h2 64 = Some n2 \<and>
      child_map (Node16 n2) = child_map (Node16 example16) \<and> children_count n2 = 5"
    by (auto simp add: example16_def)
next
  let ?h = "[64 \<mapsto> Node48 example48_free]"
  have e: "child_indices example48_free ! unat (0x55 :: u8) = empty_child"
    by (simp add: example48_free_def example48_def empty_child_def)
  have a: "get48 ?h 64 = Some example48_free \<and> node48_wf example48_free \<and>
    \<not> is_full48 example48_free \<and> 0x55 \<notin> dom (child_map (Node48 example48_free)) \<and>
    (808 :: addr) \<noteq> 0"
  proof -
    have "get48 ?h 64 = Some example48_free" by (simp add: get48_def)
    moreover have "\<not> is_full48 example48_free"
      by (simp add: is_full48_def capacity48_def example48_free_def)
    moreover have "0x55 \<notin> dom (child_map (Node48 example48_free))" using e by (simp add: dom_def)
    moreover have "(808 :: addr) \<noteq> 0" by simp
    ultimately show ?thesis using example48_free_wf by blast
  qed
  from add_remove_round_trip [where h = ?h and self = 64 and b = "0x55" and leaf = 808 and
      ?n48.0 = example48_free, THEN conjunct2, THEN conjunct2, THEN conjunct1, THEN mp, OF a]
  obtain h1 it h2 where "add48 ?h 64 808 0x55 = Some (h1, it)"
    "remove48 h1 64 (index it) = Some h2" "h2 = ?h"
    by blast
  then show "\<exists>h1 it. add48 ?h 64 808 0x55 = Some (h1, it) \<and>
      remove48 h1 64 (index it) = Some ?h"
    by blast
next
  let ?h = "[64 \<mapsto> Node256 example256]"
  have e: "children256 example256 ! unat (255 :: u8) = nullptr"
    by (simp add: example256_def nth_append)
  have a: "get256 ?h 64 = Some example256 \<and> length (children256 example256) = 256 \<and>
    255 \<notin> dom (child_map (Node256 example256)) \<and> (16 :: addr) \<noteq> 0"
  proof -
    have "get256 ?h 64 = Some example256" by (simp add: get256_def)
    moreover have "length (children256 example256) = 256" by (simp add: example256_def)
    moreover have "255 \<notin> dom (child_map (Node256 example256))" using e by (simp add: dom_def)
    moreover have "(16 :: addr) \<noteq> 0" by simp
    ultimately show ?thesis by blast
  qed
  from add_remove_round_trip [where h = ?h and self = 64 and b = 255 and leaf = 16 and
      ?n256.0 = example256, THEN conjunct2, THEN conjunct2, THEN conjunct2, THEN mp, OF a]
  obtain h1 it h2 where "add256 ?h 64 16 255 = Some (h1, it)"
    "remove256 h1 64 (index it) = Some h2" "h2 = ?h"
    by blast
  then show "\<exists>h1 it. add256 ?h 64 16 255 = Some (h1, it) \<and>
      remove256 h1 64 (index it) = Some ?h"
    by blast
qed

subsection \<open>Growing and shrinking: the counter\<close>

lemma kids_ok_upd: "kids_ok h A cs \<Longrightarrow> a \<in> A \<Longrightarrow> kids_ok (h(a \<mapsto> x)) A cs"
  by (auto simp add: kids_ok_def)

lemma reparent_kid:
  assumes "kids_ok h A cs" and "c \<in> set cs"
  shows "\<exists>h'. reparent h sp c i = Some h' \<and> (\<forall>a \<in> A. h' a = h a) \<and> kids_ok h' A cs"
proof (cases "tag c = LEAF")
  case True
  then show ?thesis using assms(1) by (simp add: reparent_def)
next
  case False
  with assms obtain x where x: "h (get c) = Some x" and na: "get c \<notin> A"
    by (auto simp add: kids_ok_def)
  let ?h' = "h(get c \<mapsto> assign_parent sp i x)"
  have "reparent h sp c i = Some ?h'" using False x by (simp add: reparent_def)
  moreover have "\<forall>a \<in> A. ?h' a = h a" using na by auto
  moreover have "kids_ok ?h' A cs" using assms(1) by (auto simp add: kids_ok_def)
  ultimately show ?thesis by blast
qed

lemma populate16_below_ok:
  assumes "h src = Some (Node4 s)" and "h self = Some (Node16 n)" and "self \<noteq> src"
    and "kids_ok h {self, src} (children4 s)" and "length (children4 s) = 4"
    and "length (children16 n) = 16" and "stop \<le> 4"
  shows "\<exists>h' n'. populate16_below h self src i stop = Some h' \<and> h' src = Some (Node4 s) \<and>
           h' self = Some (Node16 n') \<and> children_count n' = children_count n \<and>
           length (keys16 n') = length (keys16 n) \<and> length (children16 n') = 16 \<and>
           kids_ok h' {self, src} (children4 s)"
  using assms
proof (induction "stop - i" arbitrary: i h n)
  case 0
  then have "\<not> i < stop" by simp
  then have "populate16_below h self src i stop = Some h"
    by (subst populate16_below.simps) simp
  then show ?case using "0.prems" by simp
next
  case (Suc d)
  then have lt: "i < stop" and i4: "i < 4" by simp_all
  let ?n2 = "n\<lparr>keys16 := (keys16 n)[i := keys4 s ! i], children16 := (children16 n)[i := children4 s ! i]\<rparr>"
  let ?h0 = "h(self \<mapsto> Node16 ?n2)"
  have c: "children16 ?n2 ! i = children4 s ! i" using i4 Suc.prems(6) by simp
  have mem: "children4 s ! i \<in> set (children4 s)" using i4 Suc.prems(5) by simp
  have k0: "kids_ok ?h0 {self, src} (children4 s)" using Suc.prems(4) by (intro kids_ok_upd) simp_all
  from reparent_kid [OF k0 mem, of "tagged_self16 self" "of_nat i"]
  obtain h1 where h1: "reparent ?h0 (tagged_self16 self) (children4 s ! i) (of_nat i) = Some h1"
    "\<forall>a \<in> {self, src}. h1 a = ?h0 a" "kids_ok h1 {self, src} (children4 s)"
    by blast
  have s1: "h1 src = Some (Node4 s)" using h1(2) Suc.prems(1,3) by simp
  have n1: "h1 self = Some (Node16 ?n2)" using h1(2) by simp
  have l1: "length (children16 ?n2) = 16" using Suc.prems(6) by simp
  have d: "d = stop - (i + 1)" using Suc.hyps(2) by simp
  from Suc.hyps(1) [OF d s1 n1 Suc.prems(3) h1(3) Suc.prems(5) l1 Suc.prems(7)]
  obtain h' n' where r: "populate16_below h1 self src (i + 1) stop = Some h'"
    "h' src = Some (Node4 s)" "h' self = Some (Node16 n')" "children_count n' = children_count ?n2"
    "length (keys16 n') = length (keys16 ?n2)" "length (children16 n') = 16"
    "kids_ok h' {self, src} (children4 s)"
    by blast
  have "populate16_below h self src i stop = populate16_below h1 self src (i + 1) stop"
    using lt i4 Suc.prems(1,2) h1(1) c
    by (subst populate16_below.simps)
      (simp add: capacity4_def get4_def get16_def Let_def del: fun_upd_apply)
  then show ?case using r by simp
qed

lemma populate16_above_ok:
  assumes "h src = Some (Node4 s)" and "h self = Some (Node16 n)" and "self \<noteq> src"
    and "kids_ok h {self, src} (children4 s)" and "length (children4 s) = 4"
    and "length (children16 n) = 16" and "0 < i"
  shows "\<exists>h' n'. populate16_above h self src i = Some h' \<and> h' src = Some (Node4 s) \<and>
           h' self = Some (Node16 n') \<and> children_count n' = children_count n \<and>
           length (keys16 n') = length (keys16 n) \<and> length (children16 n') = 16 \<and>
           kids_ok h' {self, src} (children4 s)"
  using assms
proof (induction "5 - i" arbitrary: i h n)
  case 0
  then have "\<not> i \<le> 4" by simp
  then have "populate16_above h self src i = Some h"
    by (subst populate16_above.simps) (simp add: capacity4_def)
  then show ?case using "0.prems" by simp
next
  case (Suc d)
  then have le: "i \<le> 4" and i0: "i \<noteq> 0" by simp_all
  let ?n2 = "n\<lparr>keys16 := (keys16 n)[i := keys4 s ! (i - 1)],
                children16 := (children16 n)[i := children4 s ! (i - 1)]\<rparr>"
  let ?h0 = "h(self \<mapsto> Node16 ?n2)"
  have c: "children16 ?n2 ! i = children4 s ! (i - 1)" using le Suc.prems(6) by simp
  have mem: "children4 s ! (i - 1) \<in> set (children4 s)" using le i0 Suc.prems(5) by simp
  have k0: "kids_ok ?h0 {self, src} (children4 s)" using Suc.prems(4) by (intro kids_ok_upd) simp_all
  from reparent_kid [OF k0 mem, of "tagged_self16 self" "of_nat i"]
  obtain h1 where h1: "reparent ?h0 (tagged_self16 self) (children4 s ! (i - 1)) (of_nat i) = Some h1"
    "\<forall>a \<in> {self, src}. h1 a = ?h0 a" "kids_ok h1 {self, src} (children4 s)"
    by blast
  have s1: "h1 src = Some (Node4 s)" using h1(2) Suc.prems(1,3) by simp
  have n1: "h1 self = Some (Node16 ?n2)" using h1(2) by simp
  have l1: "length (children16 ?n2) = 16" using Suc.prems(6) by simp
  have d: "d = 5 - (i + 1)" using Suc.hyps(2) by simp
  have p: "0 < i + 1" by simp
  from Suc.hyps(1) [OF d s1 n1 Suc.prems(3) h1(3) Suc.prems(5) l1 p]
  obtain h' n' where r: "populate16_above h1 self src (i + 1) = Some h'"
    "h' src = Some (Node4 s)" "h' self = Some (Node16 n')" "children_count n' = children_count ?n2"
    "length (keys16 n') = length (keys16 ?n2)" "length (children16 n') = 16"
    "kids_ok h' {self, src} (children4 s)"
    by blast
  have "populate16_above h self src i = populate16_above h1 self src (i + 1)"
    using le i0 Suc.prems(1,2) h1(1) c
    by (subst populate16_above.simps)
      (simp add: capacity4_def get4_def get16_def Let_def del: fun_upd_apply)
  then show ?case using r by simp
qed

lemma populate16_ok:
  assumes s: "get4 h src = Some s" and n: "get16 h self = Some n" and ne: "self \<noteq> src"
    and full: "is_full4 s" and mn: "is_min_size16 n"
    and len: "length (children4 s) = 4" "length (children16 n) = 16"
    and kids: "kids_ok h {self, src} (children4 s)"
  shows "\<exists>h' it n'. populate16 h self src child key_byte = Some (h', it) \<and>
           get16 h' self = Some n' \<and> children_count n' = children_count n \<and> is_min_size16 n'"
proof -
  define pos where "pos =
     (if keys_integer (keys4 s) AND 0xFF < ucast key_byte then 1 else 0 :: nat) +
     (if drop_bit 8 (keys_integer (keys4 s)) AND 0xFF < ucast key_byte then 1 else 0) +
     (if drop_bit 16 (keys_integer (keys4 s)) AND 0xFF < ucast key_byte then 1 else 0) +
     (if drop_bit 24 (keys_integer (keys4 s)) AND 0xFF < ucast key_byte then 1 else 0)"
  have p4: "pos \<le> 4" unfolding pos_def by simp
  have hs: "h src = Some (Node4 s)" and hn: "h self = Some (Node16 n)"
    using s n by (simp_all add: get4_Some get16_Some)
  from populate16_below_ok [OF hs hn ne kids len p4, of 0]
  obtain h1 n1 where 1: "populate16_below h self src 0 pos = Some h1" "h1 src = Some (Node4 s)"
    "h1 self = Some (Node16 n1)" "children_count n1 = children_count n"
    "length (children16 n1) = 16" "kids_ok h1 {self, src} (children4 s)"
    by blast
  let ?n3 = "n1\<lparr>keys16 := (keys16 n1)[pos := key_byte],
                 children16 := (children16 n1)[pos := create child LEAF]\<rparr>"
  let ?h1 = "h1(self \<mapsto> Node16 ?n3)"
  have hs1: "?h1 src = Some (Node4 s)" using 1(2) ne by simp
  have hn1: "?h1 self = Some (Node16 ?n3)" by simp
  have k1: "kids_ok ?h1 {self, src} (children4 s)" using 1(6) by (intro kids_ok_upd) simp_all
  have l3: "length (children16 ?n3) = 16" using 1(5) by simp
  from populate16_above_ok [OF hs1 hn1 ne k1 len(1) l3, of "pos + 1"]
  obtain h2 n2 where 2: "populate16_above ?h1 self src (pos + 1) = Some h2"
    "h2 self = Some (Node16 n2)" "children_count n2 = children_count ?n3"
    by auto
  have g1: "get16 h1 self = Some n1" using 1(3) by (simp add: get16_Some)
  have "populate16 h self src child key_byte =
        Some (h2, Iterator (children16 ?n3 ! pos) (of_nat pos) (tagged_self16 self))"
    apply (simp only: populate16_def Let_def)
    apply (simp only: pos_def [symmetric] s n Option.bind.bind_lunit)
    using full mn 1(1) g1 2(1) apply (simp add: assert_that_def del: fun_upd_apply)
    done
  moreover have "get16 h2 self = Some n2" using 2(2) by (simp add: get16_Some)
  moreover have "children_count n2 = children_count n" using 2(3) 1(4) by simp
  moreover have "is_min_size16 n2" using mn 2(3) 1(4) by (simp add: is_min_size16_def)
  ultimately show ?thesis by blast
qed

lemma populate16_requires:
  assumes "get4 h src = Some s" and "get16 h self = Some n" and "\<not> is_full4 s \<or> \<not> is_min_size16 n"
  shows "populate16 h self src child key_byte = None"
  using assms by (auto simp add: populate16_def assert_that_def)

lemma populate48_copy_ok:
  assumes "h src = Some (Node16 s)" and "h self = Some (Node48 n)" and "self \<noteq> src"
    and "kids_ok h {self, src} (children16 s)" and "length (children16 s) = 16"
    and "length (children48 n) = 48" and "length (child_indices n) = 256"
    and "\<forall>j < 16. keys16 s ! j \<noteq> kb" and "child_indices n ! unat kb = empty_child"
    and "i \<le> 16"
  shows "\<exists>h' n'. populate48_copy h self src i = Some h' \<and> h' src = Some (Node16 s) \<and>
           h' self = Some (Node48 n') \<and> children_count n' = children_count n \<and>
           length (children48 n') = 48 \<and> length (child_indices n') = 256 \<and>
           child_indices n' ! unat kb = empty_child"
  using assms
proof (induction "16 - i" arbitrary: i h n)
  case 0
  then have "i = 16" by simp
  then have "populate48_copy h self src i = Some h"
    by (subst populate48_copy.simps) (simp add: capacity16_def)
  then show ?case using "0.prems" by simp
next
  case (Suc d)
  then have lt: "i < 16" by simp
  let ?ek = "keys16 s ! i"
  let ?n2 = "n\<lparr>child_indices := (child_indices n)[unat ?ek := of_nat i],
                children48 := (children48 n)[i := children16 s ! i]\<rparr>"
  let ?h0 = "h(self \<mapsto> Node48 ?n2)"
  have c: "children48 ?n2 ! i = children16 s ! i" using lt Suc.prems(6) by simp
  have mem: "children16 s ! i \<in> set (children16 s)" using lt Suc.prems(5) by simp
  have k0: "kids_ok ?h0 {self, src} (children16 s)" using Suc.prems(4) by (intro kids_ok_upd) simp_all
  from reparent_kid [OF k0 mem, of "tagged_self48 self" ?ek]
  obtain h1 where h1: "reparent ?h0 (tagged_self48 self) (children16 s ! i) ?ek = Some h1"
    "\<forall>a \<in> {self, src}. h1 a = ?h0 a" "kids_ok h1 {self, src} (children16 s)"
    by blast
  have s1: "h1 src = Some (Node16 s)" using h1(2) Suc.prems(1,3) by simp
  have n1: "h1 self = Some (Node48 ?n2)" using h1(2) by simp
  have l1: "length (children48 ?n2) = 48" "length (child_indices ?n2) = 256"
    using Suc.prems(6,7) by simp_all
  have "?ek \<noteq> kb" using Suc.prems(8) lt by simp
  then have "unat ?ek \<noteq> unat kb" by (simp add: word_unat_eq_iff)
  then have e1: "child_indices ?n2 ! unat kb = empty_child" using Suc.prems(9) by simp
  have d: "d = 16 - (i + 1)" using Suc.hyps(2) by simp
  have le: "i + 1 \<le> 16" using lt by simp
  from Suc.hyps(1) [OF d s1 n1 Suc.prems(3) h1(3) Suc.prems(5) l1 Suc.prems(8) e1 le]
  obtain h' n' where r: "populate48_copy h1 self src (i + 1) = Some h'"
    "h' src = Some (Node16 s)" "h' self = Some (Node48 n')" "children_count n' = children_count ?n2"
    "length (children48 n') = 48" "length (child_indices n') = 256"
    "child_indices n' ! unat kb = empty_child"
    by blast
  have "populate48_copy h self src i = populate48_copy h1 self src (i + 1)"
    using lt Suc.prems(1,2) h1(1) c
    by (subst populate48_copy.simps)
      (simp add: capacity16_def get48_def get16_def Let_def del: fun_upd_apply)
  then show ?case using r by simp
qed

lemma populate48_ok:
  assumes s: "get16 h src = Some s" and n: "get48 h self = Some n" and ne: "self \<noteq> src"
    and full: "is_full16 s" and mn: "is_min_size48 n"
    and len: "length (children16 s) = 16" "length (children48 n) = 48"
      "length (child_indices n) = 256"
    and new: "\<forall>j < 16. keys16 s ! j \<noteq> key_byte"
    and kids: "kids_ok h {self, src} (children16 s)"
  shows "\<exists>h' it n'. populate48 h self src child key_byte = Some (h', it) \<and>
           get48 h' self = Some n' \<and> children_count n' = children_count n \<and> is_min_size48 n'"
proof -
  let ?n1 = "n\<lparr>child_indices := fill (child_indices n) 0 (length (child_indices n)) empty_child\<rparr>"
  let ?h0 = "h(self \<mapsto> Node48 ?n1)"
  have hs: "?h0 src = Some (Node16 s)" using s ne by (simp add: get16_Some)
  have hn: "?h0 self = Some (Node48 ?n1)" by simp
  have k0: "kids_ok ?h0 {self, src} (children16 s)" using kids by (intro kids_ok_upd) simp_all
  have l1: "length (children48 ?n1) = 48" "length (child_indices ?n1) = 256"
    using len by (simp_all add: fill_def)
  have e1: "child_indices ?n1 ! unat key_byte = empty_child"
    using len(3) unat_u8_lt [of key_byte] by (simp add: fill_def)
  from populate48_copy_ok [OF hs hn ne k0 len(1) l1 new e1, of 0]
  obtain h1 n2 where 1: "populate48_copy ?h0 self src 0 = Some h1"
    "h1 self = Some (Node48 n2)" "children_count n2 = children_count ?n1"
    "child_indices n2 ! unat key_byte = empty_child"
    by auto
  have g1: "get48 h1 self = Some n2" using 1(2) by (simp add: get48_Some)
  let ?n4 = "n2\<lparr>child_indices := (child_indices n2)[unat key_byte := of_nat capacity16],
                 children48 := (children48 n2)[capacity16 := create child LEAF]\<rparr>"
  let ?n5 = "?n4\<lparr>children48 := fill (children48 ?n4) (capacity16 + 1) (length (children48 ?n4)) nullptr\<rparr>"
  have "populate48 h self src child key_byte =
        Some (h1(self \<mapsto> Node48 ?n5), Iterator (children48 ?n4 ! capacity16) key_byte (tagged_self48 self))"
    apply (simp only: populate48_def Let_def s n Option.bind.bind_lunit)
    using full mn 1(1,4) g1 apply (simp add: assert_that_def del: fun_upd_apply)
    done
  moreover have "get48 (h1(self \<mapsto> Node48 ?n5)) self = Some ?n5" by (rule get48_upd)
  moreover have "children_count ?n5 = children_count n" using 1(3) by simp
  moreover have "is_min_size48 ?n5" using mn 1(3) by (simp add: is_min_size48_def)
  ultimately show ?thesis by blast
qed

lemma populate48_requires:
  assumes "get16 h src = Some s" and "get48 h self = Some n" and "\<not> is_full16 s \<or> \<not> is_min_size48 n"
  shows "populate48 h self src child key_byte = None"
  using assms by (auto simp add: populate48_def assert_that_def)

lemma kids_ok_null: "kids_ok h A cs \<Longrightarrow> kids_ok h A (cs[i := nullptr])"
proof -
  assume k: "kids_ok h A cs"
  have "set (cs[i := nullptr]) \<subseteq> insert nullptr (set cs)" by (rule set_update_subset_insert)
  moreover have "tag nullptr = LEAF" by (simp add: nullptr_def)
  ultimately show ?thesis using k unfolding kids_ok_def by (metis insertE subsetD)
qed

lemma shrink48_scan_ok:
  assumes "h src = Some (Node256 s)" and "h self = Some (Node48 n)" and "self \<noteq> src"
    and "kids_ok h {self, src} (children256 s)" and "length (children256 s) = 256"
    and "length (children48 n) = 48" and "children_count n = 48" and "unat nc < 48"
  shows "\<exists>h' n'. shrink48_scan h self src nc i = Some h' \<and> h' src = Some (Node256 s) \<and>
           h' self = Some (Node48 n') \<and> children_count n' = children_count n"
  using assms
proof (induction "256 - i" arbitrary: i h n nc)
  case 0
  then have "\<not> i < 256" by simp
  then have "shrink48_scan h self src nc i = Some h"
    by (subst shrink48_scan.simps) simp
  then show ?case using "0.prems" by simp
next
  case (Suc d)
  then have lt: "i < 256" by simp
  have d: "d = 256 - (i + 1)" using Suc.hyps(2) by simp
  show ?case
  proof (cases "children256 s ! i = nullptr")
    case True
    from Suc.hyps(1) [OF d Suc.prems]
    obtain h' n' where r: "shrink48_scan h self src nc (i + 1) = Some h'"
      "h' src = Some (Node256 s)" "h' self = Some (Node48 n')" "children_count n' = children_count n"
      by blast
    have "shrink48_scan h self src nc i = shrink48_scan h self src nc (i + 1)"
      using lt True Suc.prems(1) by (subst shrink48_scan.simps) (simp add: get256_def Let_def)
    then show ?thesis using r by simp
  next
    case False
    let ?n2 = "n\<lparr>child_indices := (child_indices n)[i := nc],
                  children48 := (children48 n)[unat nc := children256 s ! i]\<rparr>"
    let ?h0 = "h(self \<mapsto> Node48 ?n2)"
    have c: "children48 ?n2 ! unat nc = children256 s ! i" using Suc.prems(6,8) by simp
    have mem: "children256 s ! i \<in> set (children256 s)" using lt Suc.prems(5) by simp
    have k0: "kids_ok ?h0 {self, src} (children256 s)"
      using Suc.prems(4) by (intro kids_ok_upd) simp_all
    from reparent_kid [OF k0 mem, of "tagged_self48 self" "of_nat i"]
    obtain h1 where h1: "reparent ?h0 (tagged_self48 self) (children256 s ! i) (of_nat i) = Some h1"
      "\<forall>a \<in> {self, src}. h1 a = ?h0 a" "kids_ok h1 {self, src} (children256 s)"
      by blast
    have s1: "h1 src = Some (Node256 s)" using h1(2) Suc.prems(1,3) by simp
    have n1: "h1 self = Some (Node48 ?n2)" using h1(2) by simp
    have step: "shrink48_scan h self src nc i =
        (if nc + 1 = children_count ?n2 then Some h1 else shrink48_scan h1 self src (nc + 1) (i + 1))"
      using lt False Suc.prems(1,2,8) h1(1) c n1
      by (subst shrink48_scan.simps)
        (simp add: capacity48_def get256_def get48_def Let_def del: fun_upd_apply)
    show ?thesis
    proof (cases "nc + 1 = children_count ?n2")
      case True
      then show ?thesis using step s1 n1 by simp
    next
      case False
      then have "nc + 1 \<noteq> 48" using Suc.prems(7) by simp
      then have "unat (nc + 1) \<noteq> 48" by (simp add: word_unat_eq_iff)
      then have nc1: "unat (nc + 1) < 48" using Suc.prems(8) by (simp add: unat_u8_succ)
      have l1: "length (children48 ?n2) = 48" using Suc.prems(6) by simp
      have c1: "children_count ?n2 = 48" using Suc.prems(7) by simp
      from Suc.hyps(1) [OF d s1 n1 Suc.prems(3) h1(3) Suc.prems(5) l1 c1 nc1]
      obtain h' n' where r: "shrink48_scan h1 self src (nc + 1) (i + 1) = Some h'"
        "h' src = Some (Node256 s)" "h' self = Some (Node48 n')"
        "children_count n' = children_count ?n2"
        by blast
      then show ?thesis using step False by simp
    qed
  qed
qed

lemma shrink48_ok:
  assumes s: "get256 h src = Some s" and ne: "self \<noteq> src" and mn: "is_min_size256 s"
    and len: "length (children256 s) = 256" "length cs = 48"
    and kids: "kids_ok h {self, src} (children256 s)"
  shows "\<exists>h' n'. shrink48 h self is cs src child_to_delete = Some h' \<and>
           get48 h' self = Some n' \<and> unat (children_count n') = capacity48 \<and> is_full48 n'"
proof -
  let ?n0 = "inode48_shrunk (prefix s) is cs"
  let ?s1 = "s\<lparr>children256 := (children256 s)[unat child_to_delete := nullptr]\<rparr>"
  let ?n1 = "?n0\<lparr>child_indices := fill (child_indices ?n0) 0 (length (child_indices ?n0)) empty_child\<rparr>"
  let ?h0 = "h(self \<mapsto> Node48 ?n1, src \<mapsto> Node256 ?s1)"
  have f0: "is_full48 ?n0" by (simp add: inode48_shrunk_def is_full48_def capacity48_def)
  have hs: "?h0 src = Some (Node256 ?s1)" by simp
  have hn: "?h0 self = Some (Node48 ?n1)" using ne by simp
  have "kids_ok h {self, src} (children256 ?s1)" using kids by (simp add: kids_ok_null)
  then have k0: "kids_ok ?h0 {self, src} (children256 ?s1)"
    by (intro kids_ok_upd) simp_all
  have l1: "length (children256 ?s1) = 256" "length (children48 ?n1) = 48"
    using len by (simp_all add: inode48_shrunk_def)
  have c1: "children_count ?n1 = 48" by (simp add: inode48_shrunk_def capacity48_def)
  have z: "unat (0 :: u8) < 48" by simp
  from shrink48_scan_ok [OF hs hn ne k0 l1 c1 z, of 0]
  obtain h' n' where r: "shrink48_scan ?h0 self src 0 0 = Some h'" "h' self = Some (Node48 n')"
    "children_count n' = children_count ?n1"
    by blast
  have "shrink48 h self is cs src child_to_delete = Some h'"
    apply (simp only: shrink48_def Let_def s Option.bind.bind_lunit)
    using mn f0 r(1) apply (simp add: assert_that_def del: fun_upd_apply)
    done
  moreover have "get48 h' self = Some n'" using r(2) by (simp add: get48_Some)
  moreover have "unat (children_count n') = capacity48" using r(3) c1 by (simp add: capacity48_def)
  ultimately show ?thesis by (auto simp add: is_full48_def)
qed

lemma shrink48_requires:
  assumes "get256 h src = Some s" and "\<not> is_min_size256 s"
  shows "shrink48 h self is cs src child_to_delete = None"
  using assms by (simp add: shrink48_def assert_that_def Let_def)

lemma shrink4_copy_ok:
  assumes "h src = Some (Node16 s)" and "h self = Some (Node4 n)" and "self \<noteq> src"
    and "kids_ok h {self, src} (take 5 (children16 s))" and "length (children16 s) = 16"
    and "length (keys4 n) = 4" and "length (children4 n) = 4"
    and "si \<le> stop" and "stop \<le> 5" and "di + (stop - si) \<le> 4"
  shows "\<exists>h' n' idx'. shrink4_copy h self src si di idx stop = Some (h', stop, di + (stop - si), idx') \<and>
           h' src = Some (Node16 s) \<and> h' self = Some (Node4 n') \<and>
           children_count n' = children_count n \<and>
           length (keys4 n') = 4 \<and> length (children4 n') = 4 \<and>
           kids_ok h' {self, src} (take 5 (children16 s)) \<and>
           (\<forall>j < 4. keys4 n' ! j =
              (if di \<le> j \<and> j < di + (stop - si) then keys16 s ! (si + (j - di)) else keys4 n ! j))"
  using assms
proof (induction "stop - si" arbitrary: si di idx h n)
  case 0
  then have "si = stop" by simp
  then have "shrink4_copy h self src si di idx stop = Some (h, stop, di + (stop - si), idx)"
    by (subst shrink4_copy.simps) simp
  then show ?case using "0.prems" \<open>si = stop\<close> by auto
next
  case (Suc d)
  then have lt: "si < stop" and s5: "si < 5" and d4: "di < 4" by simp_all
  let ?n2 = "n\<lparr>keys4 := (keys4 n)[di := keys16 s ! si],
                children4 := (children4 n)[di := children16 s ! si]\<rparr>"
  let ?h0 = "h(self \<mapsto> Node4 ?n2)"
  have c: "children4 ?n2 ! di = children16 s ! si" using d4 Suc.prems(7) by simp
  have mem: "children16 s ! si \<in> set (take 5 (children16 s))"
    using s5 Suc.prems(5) by (auto simp add: in_set_conv_nth intro!: exI [of _ si])
  have k0: "kids_ok ?h0 {self, src} (take 5 (children16 s))"
    using Suc.prems(4) by (intro kids_ok_upd) simp_all
  from reparent_kid [OF k0 mem, of "tagged_self4 self" idx]
  obtain h1 where h1: "reparent ?h0 (tagged_self4 self) (children16 s ! si) idx = Some h1"
    "\<forall>a \<in> {self, src}. h1 a = ?h0 a" "kids_ok h1 {self, src} (take 5 (children16 s))"
    by blast
  have s1: "h1 src = Some (Node16 s)" using h1(2) Suc.prems(1,3) by simp
  have n1: "h1 self = Some (Node4 ?n2)" using h1(2) by simp
  have l1: "length (keys4 ?n2) = 4" "length (children4 ?n2) = 4" using Suc.prems(6,7) by simp_all
  have d: "d = stop - (si + 1)" using Suc.hyps(2) by simp
  have le: "si + 1 \<le> stop" using lt by simp
  have b: "di + 1 + (stop - (si + 1)) \<le> 4" using Suc.prems(10) lt by simp
  from Suc.hyps(1) [OF d s1 n1 Suc.prems(3) h1(3) Suc.prems(5) l1 le Suc.prems(9) b, of "idx + 1"]
  obtain h' n' idx' where r:
    "shrink4_copy h1 self src (si + 1) (di + 1) (idx + 1) stop =
       Some (h', stop, di + 1 + (stop - (si + 1)), idx')"
    "h' src = Some (Node16 s)" "h' self = Some (Node4 n')" "children_count n' = children_count ?n2"
    "length (keys4 n') = 4" "length (children4 n') = 4"
    "kids_ok h' {self, src} (take 5 (children16 s))"
    and ks: "\<forall>j < 4. keys4 n' ! j =
       (if di + 1 \<le> j \<and> j < di + 1 + (stop - (si + 1)) then keys16 s ! (si + 1 + (j - (di + 1)))
        else keys4 ?n2 ! j)"
    by blast
  have e: "di + 1 + (stop - (si + 1)) = di + (stop - si)" using lt by simp
  have "shrink4_copy h self src si di idx stop =
        shrink4_copy h1 self src (si + 1) (di + 1) (idx + 1) stop"
    using lt s5 d4 Suc.prems(1,2) h1(1) c
    by (subst shrink4_copy.simps)
      (simp add: capacity4_def capacity16_def get4_def get16_def Let_def del: fun_upd_apply)
  then have run: "shrink4_copy h self src si di idx stop = Some (h', stop, di + (stop - si), idx')"
    using r(1) e by simp
  have ks': "\<forall>j < 4. keys4 n' ! j =
       (if di \<le> j \<and> j < di + (stop - si) then keys16 s ! (si + (j - di)) else keys4 n ! j)"
  proof (intro allI impI)
    fix j :: nat assume j: "j < 4"
    show "keys4 n' ! j =
       (if di \<le> j \<and> j < di + (stop - si) then keys16 s ! (si + (j - di)) else keys4 n ! j)"
    proof (cases "j = di")
      case True
      have p: "di \<le> di \<and> di < di + (stop - si)" using lt by simp
      have "keys4 n' ! di = keys16 s ! si"
        using ks [rule_format, OF j] True d4 Suc.prems(6) by simp
      then show ?thesis unfolding True using p by (simp only: if_True diff_self_eq_0 add_0_right simp_thms)
    next
      case False
      have "si + 1 + (j - (di + 1)) = si + (j - di)" if "di + 1 \<le> j" using that by simp
      then show ?thesis using ks [rule_format, OF j] False lt e Suc.prems(6) by auto
    qed
  qed
  show ?case using run r(2,3,4,5,6,7) ks' by simp
qed

lemma shrink4_ok:
  assumes s: "get16 h src = Some s" and ne: "self \<noteq> src" and mn: "is_min_size16 s"
    and len: "length (keys16 s) = 16" "length (children16 s) = 16" "length ks = 4" "length cs = 4"
    and srt: "sorted_wrt (<) (take (unat (children_count s)) (keys16 s))"
    and del: "unat child_to_delete < 5"
    and kids: "kids_ok h {self, src} (take 5 (children16 s))"
  shows "\<exists>h' n'. shrink4 h self ks cs src child_to_delete = Some h' \<and>
           get4 h' self = Some n' \<and> unat (children_count n') = capacity4 \<and> is_full4 n'"
proof -
  let ?d = "unat child_to_delete"
  let ?n0 = "inode4_shrunk (prefix s) ks cs"
  let ?h0 = "h(self \<mapsto> Node4 ?n0)"
  have f0: "is_full4 ?n0" by (simp add: inode4_shrunk_def is_full4_def capacity4_def)
  have c0: "unat (children_count ?n0) = 4" by (simp add: inode4_shrunk_def capacity4_def)
  have hs: "?h0 src = Some (Node16 s)" using s ne by (simp add: get16_Some)
  have hn: "?h0 self = Some (Node4 ?n0)" by simp
  have k0: "kids_ok ?h0 {self, src} (take 5 (children16 s))" using kids by (intro kids_ok_upd) simp_all
  have l0: "length (keys4 ?n0) = 4" "length (children4 ?n0) = 4"
    using len by (simp_all add: inode4_shrunk_def)
  have b1: "0 \<le> ?d" "?d \<le> 5" "0 + (?d - 0) \<le> 4" using del by simp_all
  from shrink4_copy_ok [OF hs hn ne k0 len(2) l0 b1, of 0]
  obtain h1 n1 idx1 where 1:
    "shrink4_copy ?h0 self src 0 0 0 ?d = Some (h1, ?d, 0 + (?d - 0), idx1)"
    "h1 src = Some (Node16 s)" "h1 self = Some (Node4 n1)" "children_count n1 = children_count ?n0"
    "length (keys4 n1) = 4" "length (children4 n1) = 4"
    "kids_ok h1 {self, src} (take 5 (children16 s))"
    and ks1: "\<forall>j < 4. keys4 n1 ! j =
       (if 0 \<le> j \<and> j < 0 + (?d - 0) then keys16 s ! (0 + (j - 0)) else keys4 ?n0 ! j)"
    by blast
  have b2: "?d + 1 \<le> 5" "(5 :: nat) \<le> 5" "?d + (5 - (?d + 1)) \<le> 4" using del by simp_all
  from shrink4_copy_ok [OF 1(2,3) ne 1(7) len(2) 1(5,6) b2, of idx1]
  obtain h2 n2 idx2 where 2:
    "shrink4_copy h1 self src (?d + 1) ?d idx1 5 = Some (h2, 5, ?d + (5 - (?d + 1)), idx2)"
    "h2 self = Some (Node4 n2)" "children_count n2 = children_count n1" "length (keys4 n2) = 4"
    and ks2: "\<forall>j < 4. keys4 n2 ! j =
       (if ?d \<le> j \<and> j < ?d + (5 - (?d + 1)) then keys16 s ! (?d + 1 + (j - ?d)) else keys4 n1 ! j)"
    by blast
  have key: "keys4 n2 ! j = keys16 s ! (if j < ?d then j else j + 1)" if "j < 4" for j
    using ks2 [rule_format, OF that] ks1 [rule_format, OF that] del that by auto
  have c5: "unat (children_count s) = 5" using mn by (simp add: is_min_size16_def min_size16_def)
  have mono: "keys16 s ! a < keys16 s ! b" if "a < b" "b < 5" for a b
  proof -
    have "take 5 (keys16 s) ! a < take 5 (keys16 s) ! b"
      using sorted_wrt_nth_less [of "(<)" "take 5 (keys16 s)" a b] srt [unfolded c5] that len(1)
      by simp
    then show ?thesis using that by simp
  qed
  have "sorted_wrt (<) (take 4 (keys4 n2))"
    unfolding sorted_wrt_iff_nth_less
  proof (intro allI impI)
    fix i j assume ij: "i < j" and "j < length (take 4 (keys4 n2))"
    then have j4: "j < 4" and i4: "i < 4" using 2(4) by simp_all
    have "keys16 s ! (if i < ?d then i else i + 1) < keys16 s ! (if j < ?d then j else j + 1)"
      using ij j4 by (intro mono) auto
    then show "take 4 (keys4 n2) ! i < take 4 (keys4 n2) ! j"
      using key [OF i4] key [OF j4] i4 j4 by simp
  qed
  then have so: "is_sorted (take 4 (keys4 n2))" by (rule strictly_sorted_is_sorted)
  have cn: "unat (children_count n2) = 4" using 2(3) 1(4) c0 by simp
  have g2: "get4 h2 self = Some n2" using 2(2) by (simp add: get4_Some)
  have "shrink4 h self ks cs src child_to_delete = Some h2"
    apply (simp only: shrink4_def Let_def s Option.bind.bind_lunit)
    using mn f0 1(1) 2(1) g2 so cn
    apply (simp add: assert_that_def min_size16_def del: fun_upd_apply)
    done
  then show ?thesis using g2 cn by (auto simp add: is_full4_def capacity4_def)
qed

lemma shrink4_requires:
  assumes "get16 h src = Some s" and "\<not> is_min_size16 s"
  shows "shrink4 h self ks cs src child_to_delete = None"
  using assms by (simp add: shrink4_def assert_that_def Let_def)

lemma filter_upt_Cons:
  "i < m \<Longrightarrow> filter P [i..<m] = (if P i then i # filter P [Suc i..<m] else filter P [Suc i..<m])"
  by (simp add: upt_conv_Cons)

lemma filter_upt_none:
  assumes "length (filter P [i..<m]) = 0" and "i \<le> j" and "j < m"
  shows "\<not> P j"
proof -
  from assms(1) have "filter P [i..<m] = []" by simp
  then have "\<forall>x \<in> set [i..<m]. \<not> P x" by (simp only: filter_empty_conv)
  then show ?thesis using assms(2,3) by simp
qed

lemma fill_nth:
  assumes "first1 \<le> last1" and "last1 \<le> length xs" and "j < length xs"
  shows "fill xs first1 last1 v ! j = (if first1 \<le> j \<and> j < last1 then v else xs ! j)"
proof -
  consider "j < first1" | "first1 \<le> j" "j < last1" | "last1 \<le> j" by linarith
  then show ?thesis
  proof cases
    case 1
    then show ?thesis using assms by (simp add: fill_def nth_append)
  next
    case 2
    then have "j - first1 < last1 - first1" by arith
    then show ?thesis using 2 assms by (simp add: fill_def nth_append)
  next
    case 3
    have x: "\<not> j < first1" "\<not> j - first1 < last1 - first1"
      "j - first1 - (last1 - first1) = j - last1" "last1 + (j - last1) = j"
      using 3 assms(1) by arith+
    show ?thesis using 3 x assms by (simp add: fill_def nth_append min_def)
  qed
qed

lemma populate256_copy_ok:
  assumes "h src = Some (Node48 s)" and "h self = Some (Node256 n)" and "self \<noteq> src"
    and "kids_ok h {self, src} (children48 s)" and "length (children48 s) = 48"
    and "length (children256 n) = 256"
    and "\<forall>j < 256. child_indices s ! j \<noteq> empty_child \<longrightarrow> unat (child_indices s ! j) < 48"
    and "copied + length (filter (\<lambda>j. child_indices s ! j \<noteq> empty_child) [i..<256]) = 48"
    and "copied < 48"
    and "\<forall>j < i. child_indices s ! j = empty_child \<longrightarrow> children256 n ! j = nullptr"
  shows "\<exists>h' n' e. populate256_copy h self src copied i = Some (h', e) \<and> e < 256 \<and>
           h' self = Some (Node256 n') \<and> children_count n' = children_count n \<and>
           length (children256 n') = 256 \<and>
           (\<forall>j \<le> e. child_indices s ! j = empty_child \<longrightarrow> children256 n' ! j = nullptr) \<and>
           (\<forall>j. e < j \<and> j < 256 \<longrightarrow> child_indices s ! j = empty_child)"
  using assms
proof (induction "256 - i" arbitrary: i h n copied)
  case 0
  then have "[i..<256] = []" by simp
  then show ?case using "0.prems"(8,9) by simp
next
  case (Suc d)
  let ?live = "\<lambda>j. child_indices s ! j \<noteq> empty_child"
  have lt: "i < 256" using Suc.hyps(2) by simp
  have d: "d = 256 - (i + 1)" using Suc.hyps(2) by simp
  have fc: "filter ?live [i..<256] =
      (if ?live i then i # filter ?live [Suc i..<256] else filter ?live [Suc i..<256])"
    using lt by (rule filter_upt_Cons)
  show ?case
  proof (cases "?live i")
    case False
    let ?n1 = "n\<lparr>children256 := (children256 n)[i := nullptr]\<rparr>"
    let ?h0 = "h(self \<mapsto> Node256 ?n1)"
    have s1: "?h0 src = Some (Node48 s)" using Suc.prems(1,3) by simp
    have n1: "?h0 self = Some (Node256 ?n1)" by simp
    have k0: "kids_ok ?h0 {self, src} (children48 s)" using Suc.prems(4) by (intro kids_ok_upd) simp_all
    have l1: "length (children256 ?n1) = 256" using Suc.prems(6) by simp
    have cnt: "copied + length (filter ?live [i + 1..<256]) = 48"
      using Suc.prems(8) fc False by simp
    have nul: "\<forall>j < i + 1. child_indices s ! j = empty_child \<longrightarrow> children256 ?n1 ! j = nullptr"
      using Suc.prems(10) lt Suc.prems(6) by (auto simp add: nth_list_update less_Suc_eq)
    from Suc.hyps(1) [OF d s1 n1 Suc.prems(3) k0 Suc.prems(5) l1 Suc.prems(7) cnt Suc.prems(9) nul]
    obtain h' n' e where r: "populate256_copy ?h0 self src copied (i + 1) = Some (h', e)" "e < 256"
      "h' self = Some (Node256 n')" "children_count n' = children_count ?n1"
      "length (children256 n') = 256"
      "\<forall>j \<le> e. child_indices s ! j = empty_child \<longrightarrow> children256 n' ! j = nullptr"
      "\<forall>j. e < j \<and> j < 256 \<longrightarrow> child_indices s ! j = empty_child"
      by blast
    have "populate256_copy h self src copied i = populate256_copy ?h0 self src copied (i + 1)"
      using lt False Suc.prems(1,2)
      by (subst populate256_copy.simps) (simp add: get48_def get256_def Let_def del: fun_upd_apply)
    then show ?thesis using r by simp
  next
    case True
    then have sl: "unat (child_indices s ! i) < 48" using Suc.prems(7) lt by simp
    let ?n1 = "n\<lparr>children256 := (children256 n)[i := children48 s ! unat (child_indices s ! i)]\<rparr>"
    let ?h0 = "h(self \<mapsto> Node256 ?n1)"
    have c: "children256 ?n1 ! i = children48 s ! unat (child_indices s ! i)"
      using lt Suc.prems(6) by simp
    have mem: "children48 s ! unat (child_indices s ! i) \<in> set (children48 s)"
      using sl Suc.prems(5) by simp
    have k0: "kids_ok ?h0 {self, src} (children48 s)" using Suc.prems(4) by (intro kids_ok_upd) simp_all
    from reparent_kid [OF k0 mem, of "tagged_self256 self" "of_nat i"]
    obtain h1 where h1: "reparent ?h0 (tagged_self256 self)
        (children48 s ! unat (child_indices s ! i)) (of_nat i) = Some h1"
      "\<forall>a \<in> {self, src}. h1 a = ?h0 a" "kids_ok h1 {self, src} (children48 s)"
      by blast
    have s1: "h1 src = Some (Node48 s)" using h1(2) Suc.prems(1,3) by simp
    have n1: "h1 self = Some (Node256 ?n1)" using h1(2) by simp
    have l1: "length (children256 ?n1) = 256" using Suc.prems(6) by simp
    have cnt: "copied + 1 + length (filter ?live [i + 1..<256]) = 48"
      using Suc.prems(8) fc True by simp
    have step: "populate256_copy h self src copied i =
        (if copied + 1 = capacity48 then Some (h1, i)
         else populate256_copy h1 self src (copied + 1) (i + 1))"
      using lt True sl Suc.prems(1,2) h1(1) c
      by (subst populate256_copy.simps)
        (simp add: capacity48_def get48_def get256_def Let_def del: fun_upd_apply)
    show ?thesis
    proof (cases "copied + 1 = 48")
      case True
      then have z: "length (filter ?live [i + 1..<256]) = 0" using cnt by simp
      have a: "\<forall>j \<le> i. child_indices s ! j = empty_child \<longrightarrow> children256 ?n1 ! j = nullptr"
        using Suc.prems(10) \<open>?live i\<close> by (auto simp add: nth_list_update le_less)
      have b: "\<forall>j. i < j \<and> j < 256 \<longrightarrow> child_indices s ! j = empty_child"
        using filter_upt_none [OF z] by auto
      show ?thesis using step True lt n1 l1 a b by (simp add: capacity48_def)
    next
      case False
      then have c48: "copied + 1 < 48" using Suc.prems(9) by simp
      have nul: "\<forall>j < i + 1. child_indices s ! j = empty_child \<longrightarrow> children256 ?n1 ! j = nullptr"
        using Suc.prems(10) \<open>?live i\<close> by (auto simp add: nth_list_update less_Suc_eq)
      from Suc.hyps(1) [OF d s1 n1 Suc.prems(3) h1(3) Suc.prems(5) l1 Suc.prems(7) cnt c48 nul]
      obtain h' n' e where r: "populate256_copy h1 self src (copied + 1) (i + 1) = Some (h', e)"
        "e < 256" "h' self = Some (Node256 n')" "children_count n' = children_count ?n1"
        "length (children256 n') = 256"
        "\<forall>j \<le> e. child_indices s ! j = empty_child \<longrightarrow> children256 n' ! j = nullptr"
        "\<forall>j. e < j \<and> j < 256 \<longrightarrow> child_indices s ! j = empty_child"
        by blast
      then show ?thesis using step False by (simp add: capacity48_def)
    qed
  qed
qed

lemma node48_wf_slots:
  assumes "node48_wf s"
  shows "\<forall>j < 256. child_indices s ! j \<noteq> empty_child \<longrightarrow>
           unat (child_indices s ! j) < 48 \<and> children48 s ! unat (child_indices s ! j) \<noteq> nullptr"
proof (intro allI impI)
  fix j :: nat assume j: "j < 256" and l: "child_indices s ! j \<noteq> empty_child"
  have u: "unat (of_nat j :: u8) = j" using j by (simp add: unat_of_nat_u8)
  show "unat (child_indices s ! j) < 48 \<and> children48 s ! unat (child_indices s ! j) \<noteq> nullptr"
    using node48_wf_slot [of s "of_nat j"] assms l u by simp
qed

lemma populate256_ok:
  assumes s: "get48 h src = Some s" and n: "get256 h self = Some n" and ne: "self \<noteq> src"
    and wf: "node48_wf s" and full: "is_full48 s" and mn: "is_min_size256 n"
    and len: "length (children256 n) = 256"
    and new: "child_indices s ! unat key_byte = empty_child"
    and kids: "kids_ok h {self, src} (children48 s)"
  shows "\<exists>h' it n'. populate256 h self src child key_byte = Some (h', it) \<and>
           get256 h' self = Some n' \<and> children_count n' = children_count n \<and> is_min_size256 n'"
proof -
  have hs: "h src = Some (Node48 s)" and hn: "h self = Some (Node256 n)"
    using s n by (simp_all add: get48_Some get256_Some)
  have l48: "length (children48 s) = 48" using wf by (simp add: node48_wf_def)
  have sl: "\<forall>j < 256. child_indices s ! j \<noteq> empty_child \<longrightarrow> unat (child_indices s ! j) < 48"
    using node48_wf_slots [OF wf] by blast
  have cnt: "0 + length (filter (\<lambda>j. child_indices s ! j \<noteq> empty_child) [0..<256]) = 48"
    using wf full by (simp add: node48_wf_def live_keys48_def is_full48_def capacity48_def)
  have z: "(0 :: nat) < 48" by simp
  have nul: "\<forall>j < 0. child_indices s ! j = empty_child \<longrightarrow> children256 n ! j = nullptr" by simp
  from populate256_copy_ok [OF hs hn ne kids l48 len sl cnt z nul]
  obtain h1 n1 e where 1: "populate256_copy h self src 0 0 = Some (h1, e)" "e < 256"
    "h1 self = Some (Node256 n1)" "children_count n1 = children_count n"
    "length (children256 n1) = 256"
    "\<forall>j \<le> e. child_indices s ! j = empty_child \<longrightarrow> children256 n1 ! j = nullptr"
    by blast
  have g1: "get256 h1 self = Some n1" using 1(3) by (simp add: get256_Some)
  let ?n2 = "n1\<lparr>children256 := fill (children256 n1) (e + 1) capacity256 nullptr\<rparr>"
  let ?n3 = "?n2\<lparr>children256 := (children256 ?n2)[unat key_byte := create child LEAF]\<rparr>"
  have kb: "unat key_byte < 256" by (rule unat_u8_lt)
  have a: "children256 ?n2 ! unat key_byte = nullptr"
  proof (cases "unat key_byte \<le> e")
    case True
    then have "children256 n1 ! unat key_byte = nullptr" using 1(6) new by blast
    then show ?thesis using True kb 1(2,5) by (simp add: fill_nth capacity256_def)
  next
    case False
    then show ?thesis using kb 1(2,5) by (simp add: fill_nth capacity256_def)
  qed
  have "populate256 h self src child key_byte =
        Some (h1(self \<mapsto> Node256 ?n3),
              Iterator (children256 ?n3 ! unat key_byte) key_byte (tagged_self256 self))"
    apply (simp only: populate256_def Let_def s n Option.bind.bind_lunit)
    using full mn 1(1) g1 a apply (simp add: assert_that_def del: fun_upd_apply)
    done
  moreover have "get256 (h1(self \<mapsto> Node256 ?n3)) self = Some ?n3" by (rule get256_upd)
  moreover have "children_count ?n3 = children_count n" using 1(4) by simp
  moreover have "is_min_size256 ?n3" using mn 1(4) by (simp add: is_min_size256_def)
  ultimately show ?thesis by blast
qed

lemma populate256_requires:
  assumes "get48 h src = Some s" and "get256 h self = Some n" and "\<not> is_full48 s \<or> \<not> is_min_size256 n"
  shows "populate256 h self src child key_byte = None"
  using assms by (auto simp add: populate256_def assert_that_def)

lemma filter_upt_some:
  assumes "0 < length (filter P [i..<m])"
  shows "\<exists>j. i \<le> j \<and> j < m \<and> P j"
proof -
  from assms have "filter P [i..<m] \<noteq> []" by auto
  then obtain j where "j \<in> set (filter P [i..<m])" by (cases "filter P [i..<m]") auto
  then show ?thesis by auto
qed

lemma shrink16_scan_ok:
  assumes "h src = Some (Node48 s)" and "h self = Some (Node16 n)" and "self \<noteq> src"
    and "kids_ok h {self, src} (children48 s)" and "length (children48 s) = 48"
    and "length (keys16 n) = 16" and "length (children16 n) = 16"
    and "\<forall>j < 256. child_indices s ! j \<noteq> empty_child \<longrightarrow>
           unat (child_indices s ! j) < 48 \<and> children48 s ! unat (child_indices s ! j) \<noteq> nullptr"
    and "nc + length (filter (\<lambda>j. child_indices s ! j \<noteq> empty_child) [i..<256]) = 16"
    and "nc < 16"
    and "sorted_wrt (<) (take nc (keys16 n))" and "\<forall>a < nc. unat (keys16 n ! a) < i"
  shows "\<exists>h' n'. shrink16_scan h self src nc i = Some h' \<and> h' self = Some (Node16 n') \<and>
           children_count n' = children_count n \<and> length (keys16 n') = 16 \<and>
           sorted_wrt (<) (take 16 (keys16 n'))"
  using assms
proof (induction "256 - i" arbitrary: i h n nc)
  case 0
  then have "[i..<256] = []" by simp
  then show ?case using "0.prems"(9,10) by simp
next
  case (Suc d)
  let ?live = "\<lambda>j. child_indices s ! j \<noteq> empty_child"
  have lt: "i < 256" using Suc.hyps(2) by simp
  have d: "d = 256 - (i + 1)" using Suc.hyps(2) by simp
  have fc: "filter ?live [i..<256] =
      (if ?live i then i # filter ?live [Suc i..<256] else filter ?live [Suc i..<256])"
    using lt by (rule filter_upt_Cons)
  show ?case
  proof (cases "?live i")
    case False
    have cnt: "nc + length (filter ?live [i + 1..<256]) = 16"
      using Suc.prems(9) fc False by simp
    then have "0 < length (filter ?live [i + 1..<256])" using Suc.prems(10) by linarith
    from filter_upt_some [OF this] have i255: "i < 255" by auto
    have bnd: "\<forall>a < nc. unat (keys16 n ! a) < i + 1" using Suc.prems(12) by auto
    from Suc.hyps(1) [OF d Suc.prems(1-8) cnt Suc.prems(10,11) bnd]
    obtain h' n' where r: "shrink16_scan h self src nc (i + 1) = Some h'"
      "h' self = Some (Node16 n')" "children_count n' = children_count n"
      "length (keys16 n') = 16" "sorted_wrt (<) (take 16 (keys16 n'))"
      by blast
    have "shrink16_scan h self src nc i = shrink16_scan h self src nc (i + 1)"
      using lt False i255 Suc.prems(1)
      by (subst shrink16_scan.simps) (simp add: get48_def Let_def)
    then show ?thesis using r by simp
  next
    case True
    then have sl: "unat (child_indices s ! i) < 48"
      and nn: "children48 s ! unat (child_indices s ! i) \<noteq> nullptr"
      using Suc.prems(8) lt by simp_all
    let ?c = "children48 s ! unat (child_indices s ! i)"
    let ?n2 = "n\<lparr>keys16 := (keys16 n)[nc := of_nat i], children16 := (children16 n)[nc := ?c]\<rparr>"
    let ?h0 = "h(self \<mapsto> Node16 ?n2)"
    have c: "children16 ?n2 ! nc = ?c" using Suc.prems(7,10) by simp
    have mem: "?c \<in> set (children48 s)" using sl Suc.prems(5) by simp
    have k0: "kids_ok ?h0 {self, src} (children48 s)" using Suc.prems(4) by (intro kids_ok_upd) simp_all
    from reparent_kid [OF k0 mem, of "tagged_self16 self" "of_nat nc"]
    obtain h1 where h1: "reparent ?h0 (tagged_self16 self) ?c (of_nat nc) = Some h1"
      "\<forall>a \<in> {self, src}. h1 a = ?h0 a" "kids_ok h1 {self, src} (children48 s)"
      by blast
    have s1: "h1 src = Some (Node48 s)" using h1(2) Suc.prems(1,3) by simp
    have n1: "h1 self = Some (Node16 ?n2)" using h1(2) by simp
    have l1: "length (keys16 ?n2) = 16" "length (children16 ?n2) = 16"
      using Suc.prems(6,7) by simp_all
    have cnt: "nc + 1 + length (filter ?live [i + 1..<256]) = 16"
      using Suc.prems(9) fc True by simp
    have ui: "unat (of_nat i :: u8) = i" using lt by (simp add: unat_of_nat_u8)
    have tk: "take (nc + 1) (keys16 ?n2) = take nc (keys16 n) @ [of_nat i]"
      using Suc.prems(6,10) by (simp add: take_Suc_conv_app_nth)
    have below: "x < (of_nat i :: u8)" if "x \<in> set (take nc (keys16 n))" for x
    proof -
      from that obtain a where "a < nc" "x = keys16 n ! a"
        using Suc.prems(6,10) by (auto simp add: in_set_conv_nth)
      then show ?thesis using Suc.prems(12) ui by (simp add: word_less_nat_alt)
    qed
    have so: "sorted_wrt (<) (take (nc + 1) (keys16 ?n2))"
      unfolding tk using Suc.prems(11) below by (simp add: sorted_wrt_append)
    have step: "shrink16_scan h self src nc i =
        (if nc + 1 = capacity16 then Some h1
         else if i < 255 then shrink16_scan h1 self src (nc + 1) (i + 1) else None)"
      using lt True sl nn Suc.prems(1,2,10) h1(1) c
      by (subst shrink16_scan.simps)
        (simp add: capacity16_def capacity48_def get48_def get16_def assert_that_def Let_def
          del: fun_upd_apply)
    show ?thesis
    proof (cases "nc + 1 = 16")
      case True
      then show ?thesis using step n1 l1 so by (simp add: capacity16_def)
    next
      case False
      then have c16: "nc + 1 < 16" using Suc.prems(10) by simp
      then have "0 < length (filter ?live [i + 1..<256])" using cnt by linarith
      from filter_upt_some [OF this] have i255: "i < 255" by auto
      have bnd: "\<forall>a < nc + 1. unat (keys16 ?n2 ! a) < i + 1"
        using Suc.prems(6,10,12) ui by (auto simp add: nth_list_update less_Suc_eq)
      from Suc.hyps(1) [OF d s1 n1 Suc.prems(3) h1(3) Suc.prems(5) l1 Suc.prems(8) cnt c16 so bnd]
      obtain h' n' where r: "shrink16_scan h1 self src (nc + 1) (i + 1) = Some h'"
        "h' self = Some (Node16 n')" "children_count n' = children_count ?n2"
        "length (keys16 n') = 16" "sorted_wrt (<) (take 16 (keys16 n'))"
        by blast
      then show ?thesis using step False i255 by (simp add: capacity16_def)
    qed
  qed
qed

lemma live_after_remove:
  fixes ci :: "u8 list"
  assumes "length ci = 256" and "k < 256" and "ci ! k \<noteq> empty_child"
  shows "length (filter (\<lambda>j. ci[k := empty_child] ! j \<noteq> empty_child) [0..<256]) + 1 =
         length (filter (\<lambda>j. ci ! j \<noteq> empty_child) [0..<256])"
proof -
  have m: "length (filter (\<lambda>j. xs ! j \<noteq> empty_child) [0..<256]) =
           length (filter (\<lambda>x. x \<noteq> empty_child) xs)" if "length xs = 256" for xs :: "u8 list"
  proof -
    have "map (nth xs) [0..<256] = xs" using map_nth [of xs] that by simp
    then have "filter (\<lambda>x. x \<noteq> empty_child) xs =
               map (nth xs) (filter (\<lambda>j. xs ! j \<noteq> empty_child) [0..<256])"
      by (metis (mono_tags, lifting) comp_def filter_cong filter_map)
    then show ?thesis by simp
  qed
  have "length (filter (\<lambda>x. x \<noteq> empty_child) (ci[k := empty_child])) + 1 =
        length (filter (\<lambda>x. x \<noteq> empty_child) ci)"
    using count_update [of k ci "\<lambda>x. x \<noteq> empty_child" empty_child] assms by simp
  then show ?thesis using m [of ci] m [of "ci[k := empty_child]"] assms(1) by simp
qed

lemma shrink16_ok:
  assumes s: "get48 h src = Some s" and ne: "self \<noteq> src" and wf: "node48_wf s"
    and mn: "is_min_size48 s" and len: "length ks = 16" "length cs = 16"
    and del: "child_indices s ! unat child_to_delete \<noteq> empty_child"
    and kids: "kids_ok h {self, src} (children48 s)"
  shows "\<exists>h' n'. shrink16 h self ks cs src child_to_delete = Some h' \<and>
           get16 h' self = Some n' \<and> unat (children_count n') = capacity16 \<and> is_full16 n'"
proof -
  let ?n0 = "inode16_shrunk (prefix s) ks cs"
  let ?s1 = "s\<lparr>child_indices := (child_indices s)[unat child_to_delete := empty_child]\<rparr>"
  let ?h0 = "h(self \<mapsto> Node16 ?n0, src \<mapsto> Node48 ?s1)"
  have f0: "is_full16 ?n0" by (simp add: inode16_shrunk_def is_full16_def capacity16_def)
  have c0: "unat (children_count ?n0) = 16" by (simp add: inode16_shrunk_def capacity16_def)
  have l256: "length (child_indices s) = 256" and l48: "length (children48 s) = 48"
    and lk: "length (live_keys48 s) = unat (children_count s)"
    using wf by (simp_all add: node48_wf_def)
  have kd: "unat child_to_delete < 256" by (rule unat_u8_lt)
  have sl: "\<forall>j < 256. child_indices s ! j \<noteq> empty_child \<longrightarrow>
      unat (child_indices s ! j) < 48 \<and> children48 s ! unat (child_indices s ! j) \<noteq> nullptr"
    by (rule node48_wf_slots [OF wf])
  have pre: "verify_remove_preconditions s child_to_delete = Some ()"
    using del sl kd by (simp add: verify_remove_preconditions_def assert_that_def)
  have hs: "?h0 src = Some (Node48 ?s1)" by simp
  have hn: "?h0 self = Some (Node16 ?n0)" using ne by simp
  have k0: "kids_ok ?h0 {self, src} (children48 ?s1)"
    using kids by (intro kids_ok_upd) (simp_all add: kids_ok_upd)
  have l1: "length (children48 ?s1) = 48" "length (keys16 ?n0) = 16" "length (children16 ?n0) = 16"
    using l48 len by (simp_all add: inode16_shrunk_def)
  have sl1: "\<forall>j < 256. child_indices ?s1 ! j \<noteq> empty_child \<longrightarrow>
      unat (child_indices ?s1 ! j) < 48 \<and> children48 ?s1 ! unat (child_indices ?s1 ! j) \<noteq> nullptr"
  proof (intro allI impI)
    fix j :: nat assume j: "j < 256" and l: "child_indices ?s1 ! j \<noteq> empty_child"
    have "j \<noteq> unat child_to_delete" using l l256 j by auto
    then have e: "child_indices ?s1 ! j = child_indices s ! j" by simp
    show "unat (child_indices ?s1 ! j) < 48 \<and>
          children48 ?s1 ! unat (child_indices ?s1 ! j) \<noteq> nullptr"
      using sl [rule_format, OF j] l unfolding e by simp
  qed
  have "length (filter (\<lambda>j. child_indices s ! j \<noteq> empty_child) [0..<256]) = 17"
    using lk mn by (simp add: live_keys48_def is_min_size48_def min_size48_def)
  then have cnt: "0 + length (filter (\<lambda>j. child_indices ?s1 ! j \<noteq> empty_child) [0..<256]) = 16"
    using live_after_remove [OF l256 kd del] by simp
  have z: "(0 :: nat) < 16" by simp
  have so0: "sorted_wrt (<) (take 0 (keys16 ?n0))" by simp
  have b0: "\<forall>a < 0. unat (keys16 ?n0 ! a) < 0" by simp
  from shrink16_scan_ok [OF hs hn ne k0 l1 sl1 cnt z so0 b0]
  obtain h' n' where r: "shrink16_scan ?h0 self src 0 0 = Some h'" "h' self = Some (Node16 n')"
    "children_count n' = children_count ?n0" "sorted_wrt (<) (take 16 (keys16 n'))"
    by blast
  have g: "get16 h' self = Some n'" using r(2) by (simp add: get16_Some)
  have cn: "unat (children_count n') = 16" using r(3) c0 by simp
  have so: "is_sorted (take 16 (keys16 n'))" using r(4) by (rule strictly_sorted_is_sorted)
  have "shrink16 h self ks cs src child_to_delete = Some h'"
    apply (simp only: shrink16_def Let_def s Option.bind.bind_lunit)
    using mn f0 pre r(1) g cn so
    apply (simp add: assert_that_def capacity16_def del: fun_upd_apply)
    done
  then show ?thesis using g cn by (auto simp add: is_full16_def capacity16_def)
qed

lemma shrink16_requires:
  assumes "get48 h src = Some s" and "\<not> is_min_size48 s"
  shows "shrink16 h self ks cs src child_to_delete = None"
  using assms by (simp add: shrink16_def assert_that_def Let_def)

text \<open>
  Claim C9. Each shrinking constructor (Node4 from Node16, Node16 from Node48, Node48
  from Node256) fails its first assert unless the source is at its minimum size; on a
  source at its minimum size it returns, and the node constructed at \<open>self\<close> has
  \<open>children_count\<close> equal to the capacity of its class, so \<^verbatim>\<open>is_full()\<close> holds. Each
  growing \<^verbatim>\<open>populate\<close> (Node16 from Node4, Node48 from Node16, Node256 from Node48),
  called on a node fresh from the constructor \<^verbatim>\<open>basic_inode(key)\<close>, fails its first assert
  unless the source is full; on a full source it returns, and the node has
  \<open>children_count\<close> equal to the minimum size of its class, so \<^verbatim>\<open>is_min_size()\<close> holds.
  The new node and its source are two nodes; the arrays of the new node have the length
  of their class, whatever they hold; the children of the source that are not leaves
  are nodes of the store other than these two; the child removed by a shrinking
  constructor is one the source has, and the key byte added by a \<^verbatim>\<open>populate\<close> is one the
  source does not have.
\<close>

theorem shrink_full_grow_min_size:
  "(get16 h src = Some s16 \<and> self \<noteq> src \<and> node16_wf s16 \<and> length ks4 = 4 \<and> length cs4 = 4 \<and>
    unat child_to_delete < min_size16 \<and> kids_ok h {self, src} (children_list (Node16 s16)) \<longrightarrow>
      (\<not> is_min_size16 s16 \<longrightarrow> shrink4 h self ks4 cs4 src child_to_delete = None) \<and>
      (is_min_size16 s16 \<longrightarrow>
         (\<exists>h' n'. shrink4 h self ks4 cs4 src child_to_delete = Some h' \<and> get4 h' self = Some n' \<and>
            unat (children_count n') = capacity4 \<and> is_full4 n'))) \<and>
   (get48 h src = Some s48 \<and> self \<noteq> src \<and> node48_wf s48 \<and> length ks16 = 16 \<and> length cs16 = 16 \<and>
    child_to_delete \<in> dom (child_map (Node48 s48)) \<and> kids_ok h {self, src} (children48 s48) \<longrightarrow>
      (\<not> is_min_size48 s48 \<longrightarrow> shrink16 h self ks16 cs16 src child_to_delete = None) \<and>
      (is_min_size48 s48 \<longrightarrow>
         (\<exists>h' n'. shrink16 h self ks16 cs16 src child_to_delete = Some h' \<and> get16 h' self = Some n' \<and>
            unat (children_count n') = capacity16 \<and> is_full16 n'))) \<and>
   (get256 h src = Some s256 \<and> self \<noteq> src \<and> length (children256 s256) = 256 \<and>
    length cs48 = 48 \<and> kids_ok h {self, src} (children256 s256) \<longrightarrow>
      (\<not> is_min_size256 s256 \<longrightarrow> shrink48 h self is48 cs48 src child_to_delete = None) \<and>
      (is_min_size256 s256 \<longrightarrow>
         (\<exists>h' n'. shrink48 h self is48 cs48 src child_to_delete = Some h' \<and> get48 h' self = Some n' \<and>
            unat (children_count n') = capacity48 \<and> is_full48 n'))) \<and>
   (get4 h src = Some s4 \<and> get16 h self = Some (inode16_new key ks16 cs16) \<and> self \<noteq> src \<and>
    length (children4 s4) = 4 \<and> length cs16 = 16 \<and> kids_ok h {self, src} (children4 s4) \<longrightarrow>
      (\<not> is_full4 s4 \<longrightarrow> populate16 h self src child key_byte = None) \<and>
      (is_full4 s4 \<longrightarrow>
         (\<exists>h' it n'. populate16 h self src child key_byte = Some (h', it) \<and> get16 h' self = Some n' \<and>
            unat (children_count n') = min_size16 \<and> is_min_size16 n'))) \<and>
   (get16 h src = Some s16 \<and> get48 h self = Some (inode48_new key is48 cs48) \<and> self \<noteq> src \<and>
    length (children16 s16) = 16 \<and> length is48 = 256 \<and> length cs48 = 48 \<and>
    (\<forall>j < 16. keys16 s16 ! j \<noteq> key_byte) \<and> kids_ok h {self, src} (children16 s16) \<longrightarrow>
      (\<not> is_full16 s16 \<longrightarrow> populate48 h self src child key_byte = None) \<and>
      (is_full16 s16 \<longrightarrow>
         (\<exists>h' it n'. populate48 h self src child key_byte = Some (h', it) \<and> get48 h' self = Some n' \<and>
            unat (children_count n') = min_size48 \<and> is_min_size48 n'))) \<and>
   (get48 h src = Some s48 \<and> get256 h self = Some (inode256_new key cs256) \<and> self \<noteq> src \<and>
    node48_wf s48 \<and> length cs256 = 256 \<and> key_byte \<notin> dom (child_map (Node48 s48)) \<and>
    kids_ok h {self, src} (children48 s48) \<longrightarrow>
      (\<not> is_full48 s48 \<longrightarrow> populate256 h self src child key_byte = None) \<and>
      (is_full48 s48 \<longrightarrow>
         (\<exists>h' it n'. populate256 h self src child key_byte = Some (h', it) \<and> get256 h' self = Some n' \<and>
            unat (children_count n') = min_size256 \<and> is_min_size256 n')))"
proof (intro conjI impI; (elim conjE)?)
  assume "get16 h src = Some s16" "\<not> is_min_size16 s16"
  then show "shrink4 h self ks4 cs4 src child_to_delete = None" by (rule shrink4_requires)
next
  assume a: "get16 h src = Some s16" "self \<noteq> src" "node16_wf s16" "length ks4 = 4" "length cs4 = 4"
    "unat child_to_delete < min_size16" "kids_ok h {self, src} (children_list (Node16 s16))"
    "is_min_size16 s16"
  have c5: "unat (children_count s16) = 5" using a(8) by (simp add: is_min_size16_def min_size16_def)
  have l: "length (keys16 s16) = 16" "length (children16 s16) = 16"
    and srt: "sorted_wrt (<) (take (unat (children_count s16)) (keys16 s16))"
    using a(3) by (simp_all add: node16_wf_def)
  have d: "unat child_to_delete < 5" using a(6) by (simp add: min_size16_def)
  have k: "kids_ok h {self, src} (take 5 (children16 s16))" using a(7) c5 by simp
  show "\<exists>h' n'. shrink4 h self ks4 cs4 src child_to_delete = Some h' \<and> get4 h' self = Some n' \<and>
            unat (children_count n') = capacity4 \<and> is_full4 n'"
    by (rule shrink4_ok [OF a(1,2,8) l a(4,5) srt d k])
next
  assume "get48 h src = Some s48" "\<not> is_min_size48 s48"
  then show "shrink16 h self ks16 cs16 src child_to_delete = None" by (rule shrink16_requires)
next
  assume a: "get48 h src = Some s48" "self \<noteq> src" "node48_wf s48" "length ks16 = 16"
    "length cs16 = 16" "child_to_delete \<in> dom (child_map (Node48 s48))"
    "kids_ok h {self, src} (children48 s48)" "is_min_size48 s48"
  have d: "child_indices s48 ! unat child_to_delete \<noteq> empty_child"
    using a(6) by (auto simp add: dom_def split: if_splits)
  show "\<exists>h' n'. shrink16 h self ks16 cs16 src child_to_delete = Some h' \<and> get16 h' self = Some n' \<and>
            unat (children_count n') = capacity16 \<and> is_full16 n'"
    by (rule shrink16_ok [OF a(1,2,3,8,4,5) d a(7)])
next
  assume "get256 h src = Some s256" "\<not> is_min_size256 s256"
  then show "shrink48 h self is48 cs48 src child_to_delete = None" by (rule shrink48_requires)
next
  assume a: "get256 h src = Some s256" "self \<noteq> src" "length (children256 s256) = 256"
    "length cs48 = 48" "kids_ok h {self, src} (children256 s256)" "is_min_size256 s256"
  show "\<exists>h' n'. shrink48 h self is48 cs48 src child_to_delete = Some h' \<and> get48 h' self = Some n' \<and>
            unat (children_count n') = capacity48 \<and> is_full48 n'"
    by (rule shrink48_ok [OF a(1,2,6,3,4,5)])
next
  assume r: "get4 h src = Some s4" "get16 h self = Some (inode16_new key ks16 cs16)" "\<not> is_full4 s4"
  show "populate16 h self src child key_byte = None"
    using populate16_requires [OF r(1,2)] r(3) by blast
next
  assume a: "get4 h src = Some s4" "get16 h self = Some (inode16_new key ks16 cs16)" "self \<noteq> src"
    "length (children4 s4) = 4" "length cs16 = 16" "kids_ok h {self, src} (children4 s4)"
    "is_full4 s4"
  have m: "is_min_size16 (inode16_new key ks16 cs16)"
    by (simp add: is_min_size16_def inode16_new_def min_size16_def)
  have l: "length (children16 (inode16_new key ks16 cs16)) = 16"
    using a(5) by (simp add: inode16_new_def)
  from populate16_ok [OF a(1,2,3,7) m a(4) l a(6), of child key_byte]
  show "\<exists>h' it n'. populate16 h self src child key_byte = Some (h', it) \<and> get16 h' self = Some n' \<and>
            unat (children_count n') = min_size16 \<and> is_min_size16 n'"
    by (auto simp add: is_min_size16_def)
next
  assume r: "get16 h src = Some s16" "get48 h self = Some (inode48_new key is48 cs48)" "\<not> is_full16 s16"
  show "populate48 h self src child key_byte = None"
    using populate48_requires [OF r(1,2)] r(3) by blast
next
  assume a: "get16 h src = Some s16" "get48 h self = Some (inode48_new key is48 cs48)" "self \<noteq> src"
    "length (children16 s16) = 16" "length is48 = 256" "length cs48 = 48"
    "\<forall>j < 16. keys16 s16 ! j \<noteq> key_byte" "kids_ok h {self, src} (children16 s16)" "is_full16 s16"
  have m: "is_min_size48 (inode48_new key is48 cs48)"
    by (simp add: is_min_size48_def inode48_new_def min_size48_def)
  have l: "length (children48 (inode48_new key is48 cs48)) = 48"
    "length (child_indices (inode48_new key is48 cs48)) = 256"
    using a(5,6) by (simp_all add: inode48_new_def)
  from populate48_ok [OF a(1,2,3,9) m a(4) l a(7,8), of child]
  show "\<exists>h' it n'. populate48 h self src child key_byte = Some (h', it) \<and> get48 h' self = Some n' \<and>
            unat (children_count n') = min_size48 \<and> is_min_size48 n'"
    by (auto simp add: is_min_size48_def)
next
  assume r: "get48 h src = Some s48" "get256 h self = Some (inode256_new key cs256)" "\<not> is_full48 s48"
  show "populate256 h self src child key_byte = None"
    using populate256_requires [OF r(1,2)] r(3) by blast
next
  assume a: "get48 h src = Some s48" "get256 h self = Some (inode256_new key cs256)" "self \<noteq> src"
    "node48_wf s48" "length cs256 = 256" "key_byte \<notin> dom (child_map (Node48 s48))"
    "kids_ok h {self, src} (children48 s48)" "is_full48 s48"
  have m: "is_min_size256 (inode256_new key cs256)"
    by (simp add: is_min_size256_def inode256_new_def min_size256_def)
  have l: "length (children256 (inode256_new key cs256)) = 256"
    using a(5) by (simp add: inode256_new_def)
  have e: "child_indices s48 ! unat key_byte = empty_child"
    using a(6) by (auto simp add: dom_def split: if_splits)
  from populate256_ok [OF a(1,2,3,4,8) m l e a(7), of child]
  show "\<exists>h' it n'. populate256 h self src child key_byte = Some (h', it) \<and> get256 h' self = Some n' \<and>
            unat (children_count n') = min_size256 \<and> is_min_size256 n'"
    by (auto simp add: is_min_size256_def)
qed

lemma kids_ok_leaves: "\<forall>c \<in> set cs. tag c = LEAF \<Longrightarrow> kids_ok h A cs"
  by (simp add: kids_ok_def)

lemma example48_min_wf: "node48_wf example48_min"
  by code_simp

lemma unat_u8_eq: "unat (x :: u8) = k \<Longrightarrow> k < 256 \<Longrightarrow> x = of_nat k"
  by (auto simp add: word_unat_eq_iff unat_of_nat_u8)

theorem shrink_full_grow_min_size_witness:
  "(\<exists>h' n'. shrink4 [128 \<mapsto> Node16 example16] 64 [0, 0, 0, 0] [nullptr, nullptr, nullptr, nullptr]
       128 2 = Some h' \<and> get4 h' 64 = Some n' \<and> children_count n' = 4 \<and> is_full4 n') \<and>
   (\<exists>h' n'. shrink16 [128 \<mapsto> Node48 example48_min] 64 (replicate 16 0) (replicate 16 nullptr)
       128 3 = Some h' \<and> get16 h' 64 = Some n' \<and> children_count n' = 16 \<and> is_full16 n') \<and>
   (\<exists>h' n'. shrink48 [128 \<mapsto> Node256 example256_min] 64 (replicate 256 0) (replicate 48 nullptr)
       128 3 = Some h' \<and> get48 h' 64 = Some n' \<and> children_count n' = 48 \<and> is_full48 n') \<and>
   (\<exists>h' it n'. populate16 [128 \<mapsto> Node4 example4_full,
         64 \<mapsto> Node16 (inode16_new [7] (replicate 16 0) (replicate 16 nullptr))] 64 128 40 0x25 =
       Some (h', it) \<and> get16 h' 64 = Some n' \<and> children_count n' = 5 \<and> is_min_size16 n') \<and>
   (\<exists>h' it n'. populate48 [128 \<mapsto> Node16 example16_full,
         64 \<mapsto> Node48 (inode48_new [] (replicate 256 0) (replicate 48 nullptr))] 64 128 40 0x80 =
       Some (h', it) \<and> get48 h' 64 = Some n' \<and> children_count n' = 17 \<and> is_min_size48 n') \<and>
   (\<exists>h' it n'. populate256 [128 \<mapsto> Node48 example48,
         64 \<mapsto> Node256 (inode256_new [] (replicate 256 nullptr))] 64 128 40 0 =
       Some (h', it) \<and> get256 h' 64 = Some n' \<and> children_count n' = 49 \<and> is_min_size256 n')"
proof (intro conjI)
  let ?h = "[128 \<mapsto> Node16 example16]"
  have m: "is_min_size16 example16" by (simp add: is_min_size16_def min_size16_def example16_def)
  have "kids_ok ?h {64, 128} (children_list (Node16 example16))"
    by (rule kids_ok_leaves) (simp add: example16_def)
  then have a: "get16 ?h 128 = Some example16 \<and> (64 :: addr) \<noteq> 128 \<and> node16_wf example16 \<and>
    length [0, 0, 0, 0 :: u8] = 4 \<and> length [nullptr, nullptr, nullptr, nullptr] = 4 \<and>
    unat (2 :: u8) < min_size16 \<and> kids_ok ?h {64, 128} (children_list (Node16 example16))"
    using example16_wf by (simp add: get16_def min_size16_def)
  from shrink_full_grow_min_size [where h = ?h and self = 64 and src = 128 and ?s16.0 = example16
      and ?ks4.0 = "[0, 0, 0, 0]" and ?cs4.0 = "[nullptr, nullptr, nullptr, nullptr]"
      and child_to_delete = 2, THEN conjunct1, THEN mp, OF a, THEN conjunct2, THEN mp, OF m]
  obtain h' n' where r: "shrink4 ?h 64 [0, 0, 0, 0] [nullptr, nullptr, nullptr, nullptr] 128 2 = Some h'"
    "get4 h' 64 = Some n'" "unat (children_count n') = capacity4" "is_full4 n'"
    by blast
  have "children_count n' = 4" using unat_u8_eq [OF r(3)] by (simp add: capacity4_def)
  with r show "\<exists>h' n'. shrink4 ?h 64 [0, 0, 0, 0] [nullptr, nullptr, nullptr, nullptr] 128 2 = Some h' \<and>
      get4 h' 64 = Some n' \<and> children_count n' = 4 \<and> is_full4 n'"
    by blast
next
  let ?h = "[128 \<mapsto> Node48 example48_min]"
  have m: "is_min_size48 example48_min"
    by (simp add: is_min_size48_def min_size48_def example48_min_def)
  have d: "3 \<in> dom (child_map (Node48 example48_min))"
    by (simp add: dom_def example48_min_def empty_child_def nth_append)
  have "kids_ok ?h {64, 128} (children48 example48_min)"
    by (rule kids_ok_leaves) (auto simp add: example48_min_def nullptr_def)
  then have a: "get48 ?h 128 = Some example48_min \<and> (64 :: addr) \<noteq> 128 \<and> node48_wf example48_min \<and>
    length (replicate 16 (0 :: u8)) = 16 \<and> length (replicate 16 nullptr) = 16 \<and>
    3 \<in> dom (child_map (Node48 example48_min)) \<and> kids_ok ?h {64, 128} (children48 example48_min)"
    using example48_min_wf d by (simp add: get48_def)
  from shrink_full_grow_min_size [where h = ?h and self = 64 and src = 128
      and ?s48.0 = example48_min and ?ks16.0 = "replicate 16 0" and ?cs16.0 = "replicate 16 nullptr"
      and child_to_delete = 3, THEN conjunct2, THEN conjunct1, THEN mp, OF a, THEN conjunct2,
      THEN mp, OF m]
  obtain h' n' where r: "shrink16 ?h 64 (replicate 16 0) (replicate 16 nullptr) 128 3 = Some h'"
    "get16 h' 64 = Some n'" "unat (children_count n') = capacity16" "is_full16 n'"
    by blast
  have "children_count n' = 16" using unat_u8_eq [OF r(3)] by (simp add: capacity16_def)
  with r show "\<exists>h' n'. shrink16 ?h 64 (replicate 16 0) (replicate 16 nullptr) 128 3 = Some h' \<and>
      get16 h' 64 = Some n' \<and> children_count n' = 16 \<and> is_full16 n'"
    by blast
next
  let ?h = "[128 \<mapsto> Node256 example256_min]"
  have m: "is_min_size256 example256_min"
    by (simp add: is_min_size256_def min_size256_def example256_min_def)
  have "kids_ok ?h {64, 128} (children256 example256_min)"
    by (rule kids_ok_leaves) (auto simp add: example256_min_def nullptr_def)
  then have a: "get256 ?h 128 = Some example256_min \<and> (64 :: addr) \<noteq> 128 \<and>
    length (children256 example256_min) = 256 \<and> length (replicate 48 nullptr) = 48 \<and>
    kids_ok ?h {64, 128} (children256 example256_min)"
    by (simp add: get256_def example256_min_def)
  from shrink_full_grow_min_size [where h = ?h and self = 64 and src = 128
      and ?s256.0 = example256_min and ?is48.0 = "replicate 256 0" and ?cs48.0 = "replicate 48 nullptr"
      and child_to_delete = 3, THEN conjunct2, THEN conjunct2, THEN conjunct1, THEN mp, OF a,
      THEN conjunct2, THEN mp, OF m]
  obtain h' n' where r: "shrink48 ?h 64 (replicate 256 0) (replicate 48 nullptr) 128 3 = Some h'"
    "get48 h' 64 = Some n'" "unat (children_count n') = capacity48" "is_full48 n'"
    by blast
  have "children_count n' = 48" using unat_u8_eq [OF r(3)] by (simp add: capacity48_def)
  with r show "\<exists>h' n'. shrink48 ?h 64 (replicate 256 0) (replicate 48 nullptr) 128 3 = Some h' \<and>
      get48 h' 64 = Some n' \<and> children_count n' = 48 \<and> is_full48 n'"
    by blast
next
  let ?n = "inode16_new [7] (replicate 16 0) (replicate 16 nullptr)"
  let ?h = "[128 \<mapsto> Node4 example4_full, 64 \<mapsto> Node16 ?n]"
  have m: "is_full4 example4_full" by (simp add: is_full4_def capacity4_def example4_full_def)
  have "kids_ok ?h {64, 128} (children4 example4_full)"
    by (rule kids_ok_leaves) (simp add: example4_full_def)
  then have a: "get4 ?h 128 = Some example4_full \<and> get16 ?h 64 = Some ?n \<and> (64 :: addr) \<noteq> 128 \<and>
    length (children4 example4_full) = 4 \<and> length (replicate 16 nullptr) = 16 \<and>
    kids_ok ?h {64, 128} (children4 example4_full)"
    by (simp add: get4_def get16_def example4_full_def)
  from shrink_full_grow_min_size [where h = ?h and self = 64 and src = 128
      and ?s4.0 = example4_full and key = "[7]" and ?ks16.0 = "replicate 16 0"
      and ?cs16.0 = "replicate 16 nullptr" and child = 40 and key_byte = "0x25",
      THEN conjunct2, THEN conjunct2, THEN conjunct2, THEN conjunct1, THEN mp, OF a,
      THEN conjunct2, THEN mp, OF m]
  obtain h' it n' where r: "populate16 ?h 64 128 40 0x25 = Some (h', it)"
    "get16 h' 64 = Some n'" "unat (children_count n') = min_size16" "is_min_size16 n'"
    by blast
  have "children_count n' = 5" using unat_u8_eq [OF r(3)] by (simp add: min_size16_def)
  with r show "\<exists>h' it n'. populate16 ?h 64 128 40 0x25 = Some (h', it) \<and>
      get16 h' 64 = Some n' \<and> children_count n' = 5 \<and> is_min_size16 n'"
    by blast
next
  let ?n = "inode48_new [] (replicate 256 0) (replicate 48 nullptr)"
  let ?h = "[128 \<mapsto> Node16 example16_full, 64 \<mapsto> Node48 ?n]"
  have m: "is_full16 example16_full" by (simp add: is_full16_def capacity16_def example16_full_def)
  have ns: "0x80 \<notin> set (keys16 example16_full)" by (simp add: example16_full_def)
  have lk: "length (keys16 example16_full) = 16" by (simp add: example16_full_def)
  have new: "\<forall>j < 16. keys16 example16_full ! j \<noteq> 0x80"
  proof (intro allI impI)
    fix j :: nat assume "j < 16"
    then have "keys16 example16_full ! j \<in> set (keys16 example16_full)"
      using lk by (intro nth_mem) simp
    then show "keys16 example16_full ! j \<noteq> 0x80" using ns by metis
  qed
  have "kids_ok ?h {64, 128} (children16 example16_full)"
    by (rule kids_ok_leaves) (simp add: example16_full_def)
  then have a: "get16 ?h 128 = Some example16_full \<and> get48 ?h 64 = Some ?n \<and> (64 :: addr) \<noteq> 128 \<and>
    length (children16 example16_full) = 16 \<and> length (replicate 256 (0 :: u8)) = 256 \<and>
    length (replicate 48 nullptr) = 48 \<and> (\<forall>j < 16. keys16 example16_full ! j \<noteq> 0x80) \<and>
    kids_ok ?h {64, 128} (children16 example16_full)"
    using new by (simp add: get16_def get48_def example16_full_def)
  from shrink_full_grow_min_size [where h = ?h and self = 64 and src = 128
      and ?s16.0 = example16_full and key = "[]" and ?is48.0 = "replicate 256 0"
      and ?cs48.0 = "replicate 48 nullptr" and child = 40 and key_byte = "0x80",
      THEN conjunct2, THEN conjunct2, THEN conjunct2, THEN conjunct2, THEN conjunct1, THEN mp, OF a,
      THEN conjunct2, THEN mp, OF m]
  obtain h' it n' where r: "populate48 ?h 64 128 40 0x80 = Some (h', it)"
    "get48 h' 64 = Some n'" "unat (children_count n') = min_size48" "is_min_size48 n'"
    by blast
  have "children_count n' = 17" using unat_u8_eq [OF r(3)] by (simp add: min_size48_def)
  with r show "\<exists>h' it n'. populate48 ?h 64 128 40 0x80 = Some (h', it) \<and>
      get48 h' 64 = Some n' \<and> children_count n' = 17 \<and> is_min_size48 n'"
    by blast
next
  let ?n = "inode256_new [] (replicate 256 nullptr)"
  let ?h = "[128 \<mapsto> Node48 example48, 64 \<mapsto> Node256 ?n]"
  have m: "is_full48 example48" by (simp add: is_full48_def capacity48_def example48_def)
  have d: "0 \<notin> dom (child_map (Node48 example48))"
    by (simp add: dom_def example48_def empty_child_def nth_append)
  have "kids_ok ?h {64, 128} (children48 example48)"
    by (rule kids_ok_leaves) (auto simp add: example48_def)
  then have a: "get48 ?h 128 = Some example48 \<and> get256 ?h 64 = Some ?n \<and> (64 :: addr) \<noteq> 128 \<and>
    node48_wf example48 \<and> length (replicate 256 nullptr) = 256 \<and>
    0 \<notin> dom (child_map (Node48 example48)) \<and> kids_ok ?h {64, 128} (children48 example48)"
    using example48_wf d by (simp add: get48_def get256_def)
  from shrink_full_grow_min_size [where h = ?h and self = 64 and src = 128
      and ?s48.0 = example48 and key = "[]" and ?cs256.0 = "replicate 256 nullptr"
      and child = 40 and key_byte = 0,
      THEN conjunct2, THEN conjunct2, THEN conjunct2, THEN conjunct2, THEN conjunct2, THEN mp, OF a,
      THEN conjunct2, THEN mp, OF m]
  obtain h' it n' where r: "populate256 ?h 64 128 40 0 = Some (h', it)"
    "get256 h' 64 = Some n'" "unat (children_count n') = min_size256" "is_min_size256 n'"
    by blast
  have "children_count n' = 49" using unat_u8_eq [OF r(3)] by (simp add: min_size256_def)
  with r show "\<exists>h' it n'. populate256 ?h 64 128 40 0 = Some (h', it) \<and>
      get256 h' 64 = Some n' \<and> children_count n' = 49 \<and> is_min_size256 n'"
    by blast
qed

end
